theory Spec2Isabelle
  imports Main "HOL-Library.Word"
begin

section \<open>Kernel objects of kern/thread/synch.c\<close>

text \<open>
  The file synch.c implements semaphores, locks and condition variables on top of
  spinlocks, wait channels, the allocator and the current thread. The three structs
  are declared in synch.h; their fields are taken from the uses in synch.c.
  Pointers are either NULL or an address; every kind of object lives in its own
  typed heap, so that a \<open>struct semaphore *\<close> can only reach a semaphore.
\<close>

type_synonym addr = nat
type_synonym tid = nat

datatype ptr = NULL | Ptr addr

datatype threadstate = S_READY | S_SLEEP

record thread =
  t_in_interrupt :: bool
  t_state :: threadstate

text \<open>A spinlock records the thread that holds it, if any.\<close>

type_synonym spinlock = "tid option"

record wchan =
  wc_name :: ptr
  wc_lock :: spinlock
  wc_threads :: "tid list"

record semaphore =
  sem_name :: ptr
  sem_wchan :: ptr
  sem_lock :: spinlock
  sem_count :: "32 word"

record lock =
  lk_name :: ptr
  lk_wchan :: ptr
  lk_lock :: spinlock
  lk_held :: bool
  lk_owner :: "tid option"

record cv =
  cv_name :: ptr
  cv_wchan :: ptr

record kstate =
  threads :: "tid \<Rightarrow> thread"
  strs :: "addr \<rightharpoonup> string"
  wchans :: "addr \<rightharpoonup> wchan"
  sems :: "addr \<rightharpoonup> semaphore"
  locks :: "addr \<rightharpoonup> lock"
  cvs :: "addr \<rightharpoonup> cv"
  brk :: addr

text \<open>
  What a piece of kernel code can do: finish with a value, busy-wait without progress
  (\<open>Spin\<close>), halt the kernel on a failed KASSERT (\<open>Panic\<close>), or touch memory that is
  not allocated (\<open>Fault\<close>, which C leaves undefined).
\<close>

datatype 'a outcome = Done 'a | Spin | Panic | Fault

section \<open>The collaborators: allocator, spinlock, wait channel\<close>

text \<open>
  Modelled from the spec: kmalloc, kstrdup and kfree (lib.h) are not in synch.c.
  An allocation either fails and returns NULL, or returns an address that is not in use;
  the model hands out the addresses \<open>brk\<close>, \<open>brk + 1\<close>, ... and never reuses one.
  Whether an allocation fails is decided by the caller of the model (the argument
  \<open>junk\<close> is \<open>None\<close> on failure and otherwise the garbage the fresh memory holds).
\<close>

definition kmalloc_sem :: "semaphore option \<Rightarrow> kstate \<Rightarrow> ptr \<times> kstate" where
  "kmalloc_sem junk s =
     (case junk of
        None \<Rightarrow> (NULL, s)
      | Some j \<Rightarrow> (Ptr (brk s), s\<lparr>sems := (sems s)(brk s \<mapsto> j), brk := Suc (brk s)\<rparr>))"

definition kmalloc_lock :: "lock option \<Rightarrow> kstate \<Rightarrow> ptr \<times> kstate" where
  "kmalloc_lock junk s =
     (case junk of
        None \<Rightarrow> (NULL, s)
      | Some j \<Rightarrow> (Ptr (brk s), s\<lparr>locks := (locks s)(brk s \<mapsto> j), brk := Suc (brk s)\<rparr>))"

definition kmalloc_cv :: "cv option \<Rightarrow> kstate \<Rightarrow> ptr \<times> kstate" where
  "kmalloc_cv junk s =
     (case junk of
        None \<Rightarrow> (NULL, s)
      | Some j \<Rightarrow> (Ptr (brk s), s\<lparr>cvs := (cvs s)(brk s \<mapsto> j), brk := Suc (brk s)\<rparr>))"

definition kstrdup :: "bool \<Rightarrow> string \<Rightarrow> kstate \<Rightarrow> ptr \<times> kstate" where
  "kstrdup ok name s =
     (if ok then (Ptr (brk s), s\<lparr>strs := (strs s)(brk s \<mapsto> name), brk := Suc (brk s)\<rparr>)
      else (NULL, s))"

fun kfree_str :: "ptr \<Rightarrow> kstate \<Rightarrow> kstate" where
  "kfree_str NULL s = s"
| "kfree_str (Ptr a) s = s\<lparr>strs := (strs s)(a := None)\<rparr>"

fun kfree_sem :: "ptr \<Rightarrow> kstate \<Rightarrow> kstate" where
  "kfree_sem NULL s = s"
| "kfree_sem (Ptr a) s = s\<lparr>sems := (sems s)(a := None)\<rparr>"

fun kfree_lock :: "ptr \<Rightarrow> kstate \<Rightarrow> kstate" where
  "kfree_lock NULL s = s"
| "kfree_lock (Ptr a) s = s\<lparr>locks := (locks s)(a := None)\<rparr>"

fun kfree_cv :: "ptr \<Rightarrow> kstate \<Rightarrow> kstate" where
  "kfree_cv NULL s = s"
| "kfree_cv (Ptr a) s = s\<lparr>cvs := (cvs s)(a := None)\<rparr>"

text \<open>
  Modelled from the spec: wchan_create (wchan.h) is not in synch.c. It returns a new,
  unlocked wait channel with an empty queue that carries the given name, or NULL.
\<close>

definition wchan_create :: "bool \<Rightarrow> ptr \<Rightarrow> kstate \<Rightarrow> ptr \<times> kstate" where
  "wchan_create ok name s =
     (if ok
      then (Ptr (brk s),
            s\<lparr>wchans := (wchans s)(brk s \<mapsto> \<lparr>wc_name = name, wc_lock = None, wc_threads = []\<rparr>),
              brk := Suc (brk s)\<rparr>)
      else (NULL, s))"

text \<open>Reading and writing the objects behind a pointer.\<close>

fun get_sem :: "ptr \<Rightarrow> kstate \<Rightarrow> semaphore option" where
  "get_sem NULL s = None"
| "get_sem (Ptr a) s = sems s a"

fun get_lock :: "ptr \<Rightarrow> kstate \<Rightarrow> lock option" where
  "get_lock NULL s = None"
| "get_lock (Ptr a) s = locks s a"

fun get_cv :: "ptr \<Rightarrow> kstate \<Rightarrow> cv option" where
  "get_cv NULL s = None"
| "get_cv (Ptr a) s = cvs s a"

fun get_wchan :: "ptr \<Rightarrow> kstate \<Rightarrow> wchan option" where
  "get_wchan NULL s = None"
| "get_wchan (Ptr a) s = wchans s a"

fun upd_sem :: "ptr \<Rightarrow> (semaphore \<Rightarrow> semaphore) \<Rightarrow> kstate \<Rightarrow> kstate" where
  "upd_sem NULL f s = s"
| "upd_sem (Ptr a) f s =
     (case sems s a of None \<Rightarrow> s | Some m \<Rightarrow> s\<lparr>sems := (sems s)(a \<mapsto> f m)\<rparr>)"

fun upd_lock :: "ptr \<Rightarrow> (lock \<Rightarrow> lock) \<Rightarrow> kstate \<Rightarrow> kstate" where
  "upd_lock NULL f s = s"
| "upd_lock (Ptr a) f s =
     (case locks s a of None \<Rightarrow> s | Some m \<Rightarrow> s\<lparr>locks := (locks s)(a \<mapsto> f m)\<rparr>)"

fun upd_cv :: "ptr \<Rightarrow> (cv \<Rightarrow> cv) \<Rightarrow> kstate \<Rightarrow> kstate" where
  "upd_cv NULL f s = s"
| "upd_cv (Ptr a) f s =
     (case cvs s a of None \<Rightarrow> s | Some m \<Rightarrow> s\<lparr>cvs := (cvs s)(a \<mapsto> f m)\<rparr>)"

fun upd_wchan :: "ptr \<Rightarrow> (wchan \<Rightarrow> wchan) \<Rightarrow> kstate \<Rightarrow> kstate" where
  "upd_wchan NULL f s = s"
| "upd_wchan (Ptr a) f s =
     (case wchans s a of None \<Rightarrow> s | Some m \<Rightarrow> s\<lparr>wchans := (wchans s)(a \<mapsto> f m)\<rparr>)"

definition set_t_state :: "tid \<Rightarrow> threadstate \<Rightarrow> kstate \<Rightarrow> kstate" where
  "set_t_state t v s = s\<lparr>threads := (threads s)(t := (threads s t)\<lparr>t_state := v\<rparr>)\<rparr>"

section \<open>Creation: sem_create, lock_create, cv_create\<close>

text \<open>
  The three constructors run start to end without blocking, so they are functions
  from the state to the returned pointer and the new state. \<open>initial_count\<close> is a
  C int. The tests \<open>sem->sem_name == NULL\<close> and \<open>sem->sem_wchan == NULL\<close> read the
  field written on the line before, and kfree(sem->sem_name) frees that same pointer.
  \<open>al_name\<close> and \<open>al_wchan\<close> say whether kstrdup and wchan_create succeed.
\<close>

record alloc =
  al_name :: bool
  al_wchan :: bool

definition sem_create ::
  "string \<Rightarrow> 32 word \<Rightarrow> semaphore option \<Rightarrow> alloc \<Rightarrow> kstate \<Rightarrow> (ptr \<times> kstate) outcome" where
  "sem_create name initial_count junk al s =
     (if \<not> 0 \<le> sint initial_count then Panic
      else case kmalloc_sem junk s of (sem, s1) \<Rightarrow>
        if sem = NULL then Done (NULL, s1)
        else case kstrdup (al_name al) name s1 of (nm, s2) \<Rightarrow>
          let s3 = upd_sem sem (\<lambda>m. m\<lparr>sem_name := nm\<rparr>) s2 in
          if nm = NULL then Done (NULL, kfree_sem sem s3)
          else case wchan_create (al_wchan al) nm s3 of (wc, s4) \<Rightarrow>
            let s5 = upd_sem sem (\<lambda>m. m\<lparr>sem_wchan := wc\<rparr>) s4 in
            if wc = NULL then Done (NULL, kfree_sem sem (kfree_str nm s5))
            else Done (sem,
              upd_sem sem (\<lambda>m. m\<lparr>sem_lock := None, sem_count := initial_count\<rparr>) s5))"

definition lock_create ::
  "string \<Rightarrow> lock option \<Rightarrow> alloc \<Rightarrow> kstate \<Rightarrow> (ptr \<times> kstate) outcome" where
  "lock_create name junk al s =
     (case kmalloc_lock junk s of (newlock, s1) \<Rightarrow>
        if newlock = NULL then Done (NULL, s1)
        else case kstrdup (al_name al) name s1 of (nm, s2) \<Rightarrow>
          let s3 = upd_lock newlock (\<lambda>m. m\<lparr>lk_name := nm\<rparr>) s2 in
          if nm = NULL then Done (NULL, kfree_lock newlock s3)
          else case wchan_create (al_wchan al) nm s3 of (wc, s4) \<Rightarrow>
            let s5 = upd_lock newlock (\<lambda>m. m\<lparr>lk_wchan := wc\<rparr>) s4 in
            if wc = NULL then Done (NULL, kfree_lock newlock (kfree_str nm s5))
            else Done (newlock,
              upd_lock newlock (\<lambda>m. m\<lparr>lk_lock := None, lk_held := False, lk_owner := None\<rparr>) s5))"

definition cv_create ::
  "string \<Rightarrow> cv option \<Rightarrow> alloc \<Rightarrow> kstate \<Rightarrow> (ptr \<times> kstate) outcome" where
  "cv_create name junk al s =
     (case kmalloc_cv junk s of (newcv, s1) \<Rightarrow>
        if newcv = NULL then Done (NULL, s1)
        else case kstrdup (al_name al) name s1 of (nm, s2) \<Rightarrow>
          let s3 = upd_cv newcv (\<lambda>m. m\<lparr>cv_name := nm\<rparr>) s2 in
          if nm = NULL then Done (NULL, kfree_cv newcv s3)
          else case wchan_create (al_wchan al) nm s3 of (wc, s4) \<Rightarrow>
            let s5 = upd_cv newcv (\<lambda>m. m\<lparr>cv_wchan := wc\<rparr>) s4 in
            if wc = NULL then Done (NULL, kfree_cv newcv (kfree_str nm s5))
            else Done (newcv, s5))"


section \<open>Spinlock and wait channel operations\<close>

text \<open>
  \<open>&sem->sem_lock\<close> and \<open>&newlock->lk_lock\<close>: a spinlock is addressed through the
  object that embeds it. \<open>sem->sem_wchan\<close>, \<open>newlock->lk_wchan\<close>, \<open>newcv->cv_wchan\<close>
  and the three name fields are read through the object when the statement runs.
\<close>

datatype spin_ref = Sem_lock_of ptr | Lk_lock_of ptr

datatype wchan_ref = Sem_wchan_of ptr | Lk_wchan_of ptr | Cv_wchan_of ptr

datatype name_ref = Sem_name_of ptr | Lk_name_of ptr | Cv_name_of ptr

fun spin_get :: "spin_ref \<Rightarrow> kstate \<Rightarrow> spinlock option" where
  "spin_get (Sem_lock_of p) s = map_option sem_lock (get_sem p s)"
| "spin_get (Lk_lock_of p) s = map_option lk_lock (get_lock p s)"

fun spin_set :: "spin_ref \<Rightarrow> spinlock \<Rightarrow> kstate \<Rightarrow> kstate" where
  "spin_set (Sem_lock_of p) v s = upd_sem p (\<lambda>m. m\<lparr>sem_lock := v\<rparr>) s"
| "spin_set (Lk_lock_of p) v s = upd_lock p (\<lambda>m. m\<lparr>lk_lock := v\<rparr>) s"

fun wchan_of :: "wchan_ref \<Rightarrow> kstate \<Rightarrow> ptr option" where
  "wchan_of (Sem_wchan_of p) s = map_option sem_wchan (get_sem p s)"
| "wchan_of (Lk_wchan_of p) s = map_option lk_wchan (get_lock p s)"
| "wchan_of (Cv_wchan_of p) s = map_option cv_wchan (get_cv p s)"

fun name_of :: "name_ref \<Rightarrow> kstate \<Rightarrow> ptr option" where
  "name_of (Sem_name_of p) s = map_option sem_name (get_sem p s)"
| "name_of (Lk_name_of p) s = map_option lk_name (get_lock p s)"
| "name_of (Cv_name_of p) s = map_option cv_name (get_cv p s)"

text \<open>
  Modelled from the spec: the spinlock (spinlock.h) is not in synch.c. The spec gives it
  init, acquire (busy-wait), release and cleanup. Acquire takes a free spinlock for the
  calling thread and otherwise keeps waiting; release frees it; cleanup has no stated
  contract and changes nothing that synch.c can observe.
\<close>

definition spinlock_acquire :: "tid \<Rightarrow> spin_ref \<Rightarrow> kstate \<Rightarrow> kstate outcome" where
  "spinlock_acquire t r s =
     (case spin_get r s of
        None \<Rightarrow> Fault
      | Some None \<Rightarrow> Done (spin_set r (Some t) s)
      | Some (Some h) \<Rightarrow> Spin)"

definition spinlock_release :: "tid \<Rightarrow> spin_ref \<Rightarrow> kstate \<Rightarrow> kstate outcome" where
  "spinlock_release t r s =
     (case spin_get r s of
        None \<Rightarrow> Fault
      | Some h \<Rightarrow> Done (spin_set r None s))"

definition spinlock_cleanup :: "tid \<Rightarrow> spin_ref \<Rightarrow> kstate \<Rightarrow> kstate outcome" where
  "spinlock_cleanup t r s =
     (case spin_get r s of
        None \<Rightarrow> Fault
      | Some h \<Rightarrow> Done s)"

text \<open>
  Modelled from the spec: the wait channel (wchan.h) is not in synch.c. The spec gives
  it lock, sleep (requires the channel locked by the caller; atomically unlocks the
  channel and blocks the caller until it is woken), wake-one, wake-all (both go through
  the channel's lock) and destroy (fatal if the queue is not empty). Wake-one takes the
  thread at the head of the queue, as the kernel's thread list does.
\<close>

definition wchan_lock :: "tid \<Rightarrow> ptr \<Rightarrow> kstate \<Rightarrow> kstate outcome" where
  "wchan_lock t wc s =
     (case get_wchan wc s of
        None \<Rightarrow> Fault
      | Some w \<Rightarrow>
         (case wc_lock w of
            None \<Rightarrow> Done (upd_wchan wc (\<lambda>w. w\<lparr>wc_lock := Some t\<rparr>) s)
          | Some h \<Rightarrow> Spin))"

definition wchan_sleep :: "tid \<Rightarrow> ptr \<Rightarrow> kstate \<Rightarrow> kstate outcome" where
  "wchan_sleep t wc s =
     (case get_wchan wc s of
        None \<Rightarrow> Fault
      | Some w \<Rightarrow>
         if wc_lock w \<noteq> Some t then Panic
         else Done (set_t_state t S_SLEEP
                (upd_wchan wc (\<lambda>w. w\<lparr>wc_threads := wc_threads w @ [t], wc_lock := None\<rparr>) s)))"

definition wchan_wakeone :: "tid \<Rightarrow> ptr \<Rightarrow> kstate \<Rightarrow> kstate outcome" where
  "wchan_wakeone t wc s =
     (case get_wchan wc s of
        None \<Rightarrow> Fault
      | Some w \<Rightarrow>
         (case wc_lock w of
            Some h \<Rightarrow> Spin
          | None \<Rightarrow>
             (case wc_threads w of
                [] \<Rightarrow> Done s
              | x # xs \<Rightarrow>
                  Done (set_t_state x S_READY (upd_wchan wc (\<lambda>w. w\<lparr>wc_threads := xs\<rparr>) s)))))"

definition wchan_wakeall :: "tid \<Rightarrow> ptr \<Rightarrow> kstate \<Rightarrow> kstate outcome" where
  "wchan_wakeall t wc s =
     (case get_wchan wc s of
        None \<Rightarrow> Fault
      | Some w \<Rightarrow>
         (case wc_lock w of
            Some h \<Rightarrow> Spin
          | None \<Rightarrow>
              Done (fold (\<lambda>x. set_t_state x S_READY) (wc_threads w)
                     (upd_wchan wc (\<lambda>w. w\<lparr>wc_threads := []\<rparr>) s))))"

definition wchan_destroy :: "tid \<Rightarrow> ptr \<Rightarrow> kstate \<Rightarrow> kstate outcome" where
  "wchan_destroy t wc s =
     (case wc of
        NULL \<Rightarrow> Fault
      | Ptr a \<Rightarrow>
         (case wchans s a of
            None \<Rightarrow> Fault
          | Some w \<Rightarrow>
             if wc_threads w \<noteq> [] then Panic
             else Done (s\<lparr>wchans := (wchans s)(a := None)\<rparr>)))"

section \<open>The statements of synch.c\<close>

text \<open>
  The blocking operations interleave with other threads between any two statements, so
  each function body is the list of its statements, run one at a time by the thread
  that called it. The conditions are the C expressions of the KASSERTs and loops.
\<close>

datatype cond_expr =
    Ptr_not_null ptr
  | Not_in_interrupt
  | Sem_count_is_zero ptr
  | Sem_count_positive ptr
  | Lk_is_held ptr
  | Lk_not_held ptr
  | Do_i_hold ptr
  | Not_do_i_hold ptr

datatype call =
    C_sem_destroy ptr
  | C_P ptr
  | C_V ptr
  | C_lock_destroy ptr
  | C_lock_acquire ptr
  | C_lock_release ptr
  | C_cv_destroy ptr
  | C_cv_wait ptr ptr
  | C_cv_signal ptr ptr
  | C_cv_broadcast ptr ptr

datatype instr =
    KASSERT cond_expr
  | Spinlock_acquire spin_ref
  | Spinlock_release spin_ref
  | Spinlock_cleanup spin_ref
  | Wchan_lock wchan_ref
  | Wchan_sleep wchan_ref
  | Wchan_wakeone wchan_ref
  | Wchan_wakeall wchan_ref
  | Wchan_destroy wchan_ref
  | Sem_count_incr ptr
  | Sem_count_decr ptr
  | Set_lk_held ptr bool
  | Set_lk_owner_curthread ptr
  | Set_lk_owner_null ptr
  | Kfree_name name_ref
  | Kfree_sem ptr
  | Kfree_lock ptr
  | Kfree_cv ptr
  | While cond_expr "instr list"
  | Call call
  | Return call

text \<open>\<open>bool lock_do_i_hold(struct lock *)\<close>: a read of the owner field, with its own KASSERT.\<close>

definition lock_do_i_hold :: "tid \<Rightarrow> ptr \<Rightarrow> kstate \<Rightarrow> bool outcome" where
  "lock_do_i_hold curthread newlock s =
     (if newlock = NULL then Panic
      else case get_lock newlock s of
        None \<Rightarrow> Fault
      | Some m \<Rightarrow> Done (lk_owner m = Some curthread))"

fun eval_cond :: "tid \<Rightarrow> cond_expr \<Rightarrow> kstate \<Rightarrow> bool outcome" where
  "eval_cond t (Ptr_not_null p) s = Done (p \<noteq> NULL)"
| "eval_cond t Not_in_interrupt s = Done (t_in_interrupt (threads s t) = False)"
| "eval_cond t (Sem_count_is_zero p) s =
     (case get_sem p s of None \<Rightarrow> Fault | Some m \<Rightarrow> Done (sem_count m = 0))"
| "eval_cond t (Sem_count_positive p) s =
     (case get_sem p s of None \<Rightarrow> Fault | Some m \<Rightarrow> Done (0 < sint (sem_count m)))"
| "eval_cond t (Lk_is_held p) s =
     (case get_lock p s of None \<Rightarrow> Fault | Some m \<Rightarrow> Done (lk_held m))"
| "eval_cond t (Lk_not_held p) s =
     (case get_lock p s of None \<Rightarrow> Fault | Some m \<Rightarrow> Done (lk_held m = False))"
| "eval_cond t (Do_i_hold p) s = lock_do_i_hold t p s"
| "eval_cond t (Not_do_i_hold p) s =
     (case lock_do_i_hold t p s of Done b \<Rightarrow> Done (\<not> b) | Spin \<Rightarrow> Spin | Panic \<Rightarrow> Panic | Fault \<Rightarrow> Fault)"

text \<open>
  One statement run by thread \<open>t\<close>. \<open>sem_count\<close> is a C int: the increment and the
  decrement wrap around in 32 bits, and the comparisons read it as a signed number.
\<close>

fun exec_instr :: "tid \<Rightarrow> instr \<Rightarrow> kstate \<Rightarrow> kstate outcome" where
  "exec_instr t (KASSERT b) s =
     (case eval_cond t b s of
        Done v \<Rightarrow> if v then Done s else Panic
      | Spin \<Rightarrow> Spin | Panic \<Rightarrow> Panic | Fault \<Rightarrow> Fault)"
| "exec_instr t (Spinlock_acquire r) s = spinlock_acquire t r s"
| "exec_instr t (Spinlock_release r) s = spinlock_release t r s"
| "exec_instr t (Spinlock_cleanup r) s = spinlock_cleanup t r s"
| "exec_instr t (Wchan_lock w) s =
     (case wchan_of w s of None \<Rightarrow> Fault | Some wc \<Rightarrow> wchan_lock t wc s)"
| "exec_instr t (Wchan_sleep w) s =
     (case wchan_of w s of None \<Rightarrow> Fault | Some wc \<Rightarrow> wchan_sleep t wc s)"
| "exec_instr t (Wchan_wakeone w) s =
     (case wchan_of w s of None \<Rightarrow> Fault | Some wc \<Rightarrow> wchan_wakeone t wc s)"
| "exec_instr t (Wchan_wakeall w) s =
     (case wchan_of w s of None \<Rightarrow> Fault | Some wc \<Rightarrow> wchan_wakeall t wc s)"
| "exec_instr t (Wchan_destroy w) s =
     (case wchan_of w s of None \<Rightarrow> Fault | Some wc \<Rightarrow> wchan_destroy t wc s)"
| "exec_instr t (Sem_count_incr p) s =
     (case get_sem p s of
        None \<Rightarrow> Fault
      | Some m \<Rightarrow> Done (upd_sem p (\<lambda>m. m\<lparr>sem_count := sem_count m + 1\<rparr>) s))"
| "exec_instr t (Sem_count_decr p) s =
     (case get_sem p s of
        None \<Rightarrow> Fault
      | Some m \<Rightarrow> Done (upd_sem p (\<lambda>m. m\<lparr>sem_count := sem_count m - 1\<rparr>) s))"
| "exec_instr t (Set_lk_held p v) s =
     (case get_lock p s of
        None \<Rightarrow> Fault
      | Some m \<Rightarrow> Done (upd_lock p (\<lambda>m. m\<lparr>lk_held := v\<rparr>) s))"
| "exec_instr t (Set_lk_owner_curthread p) s =
     (case get_lock p s of
        None \<Rightarrow> Fault
      | Some m \<Rightarrow> Done (upd_lock p (\<lambda>m. m\<lparr>lk_owner := Some t\<rparr>) s))"
| "exec_instr t (Set_lk_owner_null p) s =
     (case get_lock p s of
        None \<Rightarrow> Fault
      | Some m \<Rightarrow> Done (upd_lock p (\<lambda>m. m\<lparr>lk_owner := None\<rparr>) s))"
| "exec_instr t (Kfree_name n) s =
     (case name_of n s of None \<Rightarrow> Fault | Some p \<Rightarrow> Done (kfree_str p s))"
| "exec_instr t (Kfree_sem p) s = Done (kfree_sem p s)"
| "exec_instr t (Kfree_lock p) s = Done (kfree_lock p s)"
| "exec_instr t (Kfree_cv p) s = Done (kfree_cv p s)"
| "exec_instr t (While b body) s = Done s"
| "exec_instr t (Call f) s = Done s"
| "exec_instr t (Return f) s = Done s"

section \<open>The function bodies\<close>

definition sem_destroy :: "ptr \<Rightarrow> instr list" where
  "sem_destroy sem =
     [KASSERT (Ptr_not_null sem),
      Spinlock_cleanup (Sem_lock_of sem),
      Wchan_destroy (Sem_wchan_of sem),
      Kfree_name (Sem_name_of sem),
      Kfree_sem sem]"

definition P :: "ptr \<Rightarrow> instr list" where
  "P sem =
     [KASSERT (Ptr_not_null sem),
      KASSERT Not_in_interrupt,
      Spinlock_acquire (Sem_lock_of sem),
      While (Sem_count_is_zero sem)
        [Wchan_lock (Sem_wchan_of sem),
         Spinlock_release (Sem_lock_of sem),
         Wchan_sleep (Sem_wchan_of sem),
         Spinlock_acquire (Sem_lock_of sem)],
      KASSERT (Sem_count_positive sem),
      Sem_count_decr sem,
      Spinlock_release (Sem_lock_of sem)]"

definition V :: "ptr \<Rightarrow> instr list" where
  "V sem =
     [KASSERT (Ptr_not_null sem),
      Spinlock_acquire (Sem_lock_of sem),
      Sem_count_incr sem,
      KASSERT (Sem_count_positive sem),
      Wchan_wakeone (Sem_wchan_of sem),
      Spinlock_release (Sem_lock_of sem)]"

definition lock_destroy :: "ptr \<Rightarrow> instr list" where
  "lock_destroy newlock =
     [KASSERT (Ptr_not_null newlock),
      Set_lk_owner_null newlock,
      Spinlock_cleanup (Lk_lock_of newlock),
      Wchan_destroy (Lk_wchan_of newlock),
      Kfree_name (Lk_name_of newlock),
      Kfree_lock newlock]"

definition lock_acquire :: "ptr \<Rightarrow> instr list" where
  "lock_acquire newlock =
     [KASSERT (Ptr_not_null newlock),
      KASSERT (Not_do_i_hold newlock),
      KASSERT Not_in_interrupt,
      Spinlock_acquire (Lk_lock_of newlock),
      While (Lk_is_held newlock)
        [Wchan_lock (Lk_wchan_of newlock),
         Spinlock_release (Lk_lock_of newlock),
         Wchan_sleep (Lk_wchan_of newlock),
         Spinlock_acquire (Lk_lock_of newlock)],
      KASSERT (Lk_not_held newlock),
      Set_lk_held newlock True,
      Set_lk_owner_curthread newlock,
      Spinlock_release (Lk_lock_of newlock)]"

definition lock_release :: "ptr \<Rightarrow> instr list" where
  "lock_release newlock =
     [KASSERT (Ptr_not_null newlock),
      KASSERT (Do_i_hold newlock),
      Spinlock_acquire (Lk_lock_of newlock),
      Set_lk_held newlock False,
      Set_lk_owner_null newlock,
      Wchan_wakeone (Lk_wchan_of newlock),
      Spinlock_release (Lk_lock_of newlock)]"

definition cv_destroy :: "ptr \<Rightarrow> instr list" where
  "cv_destroy newcv =
     [KASSERT (Ptr_not_null newcv),
      Wchan_destroy (Cv_wchan_of newcv),
      Kfree_name (Cv_name_of newcv),
      Kfree_cv newcv]"

definition cv_wait :: "ptr \<Rightarrow> ptr \<Rightarrow> instr list" where
  "cv_wait newcv newlock =
     [KASSERT (Ptr_not_null newcv),
      KASSERT (Ptr_not_null newlock),
      KASSERT (Do_i_hold newlock),
      Wchan_lock (Cv_wchan_of newcv),
      Call (C_lock_release newlock),
      Wchan_sleep (Cv_wchan_of newcv),
      Call (C_lock_acquire newlock)]"

definition cv_signal :: "ptr \<Rightarrow> ptr \<Rightarrow> instr list" where
  "cv_signal newcv newlock =
     [KASSERT (Ptr_not_null newcv),
      KASSERT (Ptr_not_null newlock),
      Wchan_wakeone (Cv_wchan_of newcv)]"

definition cv_broadcast :: "ptr \<Rightarrow> ptr \<Rightarrow> instr list" where
  "cv_broadcast newcv newlock =
     [KASSERT (Ptr_not_null newcv),
      KASSERT (Ptr_not_null newlock),
      Wchan_wakeall (Cv_wchan_of newcv)]"

fun body :: "call \<Rightarrow> instr list" where
  "body (C_sem_destroy sem) = sem_destroy sem"
| "body (C_P sem) = P sem"
| "body (C_V sem) = V sem"
| "body (C_lock_destroy l) = lock_destroy l"
| "body (C_lock_acquire l) = lock_acquire l"
| "body (C_lock_release l) = lock_release l"
| "body (C_cv_destroy c) = cv_destroy c"
| "body (C_cv_wait c l) = cv_wait c l"
| "body (C_cv_signal c l) = cv_signal c l"
| "body (C_cv_broadcast c l) = cv_broadcast c l"

section \<open>Threads running the statements\<close>

text \<open>
  A configuration holds, for every thread, the statements it still has to run, the
  kernel state, whether the kernel still runs, and a history of what each thread did:
  the statements it completed and the outcome of every loop test. A thread that enters
  a function gets the body followed by a \<open>Return\<close> marker; the marker is consumed in the
  same step as the statement before it, so a call has returned as soon as its last
  statement has run.
\<close>

datatype status = Running | Panicked | Faulted

datatype event = Exec instr | Test cond_expr bool

record config =
  code :: "tid \<Rightarrow> instr list"
  st :: kstate
  status :: status
  history :: "(tid \<times> event) list"

fun returns :: "instr list \<Rightarrow> instr list" where
  "returns (Return f # rest) = Return f # returns rest"
| "returns rest = []"

fun after_returns :: "instr list \<Rightarrow> instr list" where
  "after_returns (Return f # rest) = after_returns rest"
| "after_returns rest = rest"

definition advance :: "tid \<Rightarrow> event \<Rightarrow> instr list \<Rightarrow> kstate \<Rightarrow> config \<Rightarrow> config" where
  "advance t e rest s c =
     c\<lparr>code := (code c)(t := after_returns rest),
       st := s,
       history := history c @ (t, e) # map (\<lambda>r. (t, Exec r)) (returns rest)\<rparr>"

definition run_instr :: "tid \<Rightarrow> instr \<Rightarrow> instr list \<Rightarrow> config \<Rightarrow> config" where
  "run_instr t i rest c =
     (case i of
        While b loop_body \<Rightarrow>
          (case eval_cond t b (st c) of
             Done v \<Rightarrow> advance t (Test b v) (if v then loop_body @ i # rest else rest) (st c) c
           | Spin \<Rightarrow> c
           | Panic \<Rightarrow> c\<lparr>status := Panicked\<rparr>
           | Fault \<Rightarrow> c\<lparr>status := Faulted\<rparr>)
      | Call f \<Rightarrow> advance t (Exec i) (body f @ Return f # rest) (st c) c
      | _ \<Rightarrow>
          (case exec_instr t i (st c) of
             Done s' \<Rightarrow> advance t (Exec i) rest s' c
           | Spin \<Rightarrow> c
           | Panic \<Rightarrow> c\<lparr>status := Panicked\<rparr>
           | Fault \<Rightarrow> c\<lparr>status := Faulted\<rparr>))"

text \<open>
  The scheduler: \<open>Invoke t f\<close> lets the idle, runnable thread \<open>t\<close> call \<open>f\<close>;
  \<open>Step t\<close> lets \<open>t\<close> run its next statement. A sleeping thread does not run, and
  nothing runs once the kernel has halted.
\<close>

datatype sched = Invoke tid call | Step tid

fun step :: "sched \<Rightarrow> config \<Rightarrow> config" where
  "step (Invoke t f) c =
     (if status c = Running \<and> code c t = [] \<and> t_state (threads (st c) t) = S_READY
      then advance t (Exec (Call f)) (body f @ [Return f]) (st c) c
      else c)"
| "step (Step t) c =
     (if status c = Running \<and> t_state (threads (st c) t) = S_READY
      then (case code c t of [] \<Rightarrow> c | i # rest \<Rightarrow> run_instr t i rest c)
      else c)"

fun exec :: "sched list \<Rightarrow> config \<Rightarrow> config" where
  "exec [] c = c"
| "exec (e # es) c = exec es (step e c)"

text \<open>What thread \<open>t\<close> did, in order.\<close>

definition trace :: "tid \<Rightarrow> config \<Rightarrow> event list" where
  "trace t c = map snd (filter (\<lambda>e. fst e = t) (history c))"


section \<open>States to run the code on\<close>

text \<open>
  The allocator's invariant: nothing is allocated at or above \<open>brk\<close>. The kernel at
  boot has no objects and every thread runnable and outside interrupt handlers.
\<close>

definition heap_ok :: "kstate \<Rightarrow> bool" where
  "heap_ok s =
     (\<forall>a. brk s \<le> a \<longrightarrow>
        strs s a = None \<and> wchans s a = None \<and> sems s a = None \<and>
        locks s a = None \<and> cvs s a = None)"

definition boot :: kstate where
  "boot =
     \<lparr>threads = (\<lambda>t. \<lparr>t_in_interrupt = False, t_state = S_READY\<rparr>),
      strs = Map.empty, wchans = Map.empty, sems = Map.empty, locks = Map.empty,
      cvs = Map.empty, brk = 0\<rparr>"

definition start :: "kstate \<Rightarrow> config" where
  "start s = \<lparr>code = (\<lambda>t. []), st = s, status = Running, history = []\<rparr>"

fun created :: "(ptr \<times> kstate) outcome \<Rightarrow> kstate" where
  "created (Done (p, s)) = s"
| "created r = boot"

definition all_ok :: alloc where
  "all_ok = \<lparr>al_name = True, al_wchan = True\<rparr>"

text \<open>
  A semaphore with count 0 at address 0, a lock at address 3 and a condition variable at
  address 6, each created over garbage memory. In \<open>scene_held\<close> thread 1 has taken the
  lock and gone to sleep in cv_wait, thread 2 has then taken the lock, and thread 3
  sleeps in P. In \<open>scene_blocked\<close> thread 4 also sleeps in lock_acquire.
\<close>

definition objects :: kstate where
  "objects =
     created (cv_create ''cv'' (Some \<lparr>cv_name = NULL, cv_wchan = NULL\<rparr>) all_ok
    (created (lock_create ''lk''
       (Some \<lparr>lk_name = NULL, lk_wchan = NULL, lk_lock = None, lk_held = True, lk_owner = Some 7\<rparr>)
       all_ok
    (created (sem_create ''sem'' 0
       (Some \<lparr>sem_name = NULL, sem_wchan = NULL, sem_lock = Some 7, sem_count = 99\<rparr>)
       all_ok boot)))))"

definition scene_held :: config where
  "scene_held =
     exec
      (Invoke 1 (C_lock_acquire (Ptr 3)) # replicate 9 (Step 1) @
       Invoke 1 (C_cv_wait (Ptr 6) (Ptr 3)) # replicate 13 (Step 1) @
       Invoke 2 (C_lock_acquire (Ptr 3)) # replicate 9 (Step 2) @
       Invoke 3 (C_P (Ptr 0)) # replicate 7 (Step 3))
      (start objects)"

definition scene_blocked :: config where
  "scene_blocked =
     exec (Invoke 4 (C_lock_acquire (Ptr 3)) # replicate 8 (Step 4)) scene_held"

section \<open>One semaphore under concurrent P and V\<close>

text \<open>
  A call has completed when its \<open>Return\<close> is in the history. For a semaphore at
  address \<open>a\<close>, the places a thread can be at while it runs P or V are: idle, before the
  \<open>k\<close>-th statement of P (\<open>S_P k\<close>), before the \<open>j\<close>-th statement of the loop body
  (\<open>S_PL j\<close>), before the \<open>k\<close>-th statement of V (\<open>S_V k\<close>). \<open>sem_code\<close> is what the
  thread still has to run there. The invariant \<open>sem_facts\<close> says, for every thread, where
  it is, that it holds the spinlock (the channel lock) exactly at the places between
  the acquire and the release, that it sleeps only right after wchan_sleep, and how
  the count relates to \<open>sem_base\<close> (the initial count plus completed V minus completed P)
  while it holds the spinlock.
\<close>

definition completed :: "call \<Rightarrow> config \<Rightarrow> nat" where
  "completed f c = length (filter (\<lambda>e. snd e = Exec (Return f)) (history c))"

fun loop_body :: "instr \<Rightarrow> instr list" where
  "loop_body (While b is) = is"
| "loop_body i = []"

datatype sloc = S_idle | S_P nat | S_PL nat | S_V nat

fun sem_code :: "addr \<Rightarrow> sloc \<Rightarrow> instr list" where
  "sem_code a S_idle = []"
| "sem_code a (S_P k) = drop k (P (Ptr a)) @ [Return (C_P (Ptr a))]"
| "sem_code a (S_PL j) =
     drop j (loop_body (P (Ptr a) ! 3)) @ drop 3 (P (Ptr a)) @ [Return (C_P (Ptr a))]"
| "sem_code a (S_V k) = drop k (V (Ptr a)) @ [Return (C_V (Ptr a))]"

fun sloc_ok :: "sloc \<Rightarrow> bool" where
  "sloc_ok S_idle = True"
| "sloc_ok (S_P k) = (k < 7)"
| "sloc_ok (S_PL j) = (j < 4)"
| "sloc_ok (S_V k) = (k < 6)"

fun s_spin :: "sloc \<Rightarrow> bool" where
  "s_spin S_idle = False"
| "s_spin (S_P k) = (3 \<le> k)"
| "s_spin (S_PL j) = (j \<le> 1)"
| "s_spin (S_V k) = (2 \<le> k)"

fun s_wc :: "sloc \<Rightarrow> bool" where
  "s_wc (S_PL j) = (j = 1 \<or> j = 2)"
| "s_wc l = False"

fun s_may_sleep :: "sloc \<Rightarrow> bool" where
  "s_may_sleep S_idle = True"
| "s_may_sleep (S_PL j) = (j = 3)"
| "s_may_sleep l = False"

fun s_count :: "sloc \<Rightarrow> 32 word \<Rightarrow> int \<Rightarrow> bool" where
  "s_count S_idle x b = True"
| "s_count (S_P k) x b =
     (if k = 3 then sint x = b \<and> 0 \<le> b
      else if k = 6 then sint x = b - 1 \<and> 0 < b
      else sint x = b \<and> 0 < b)"
| "s_count (S_PL j) x b = (sint x = b \<and> 0 \<le> b)"
| "s_count (S_V k) x b =
     (if k = 2 then sint x = b \<and> 0 \<le> b
      else if k = 3 then sint (x - 1) = b \<and> 0 \<le> b
      else sint x = b + 1 \<and> 0 \<le> b)"

definition sem_base :: "addr \<Rightarrow> 32 word \<Rightarrow> config \<Rightarrow> int" where
  "sem_base a n c =
     sint n + int (completed (C_V (Ptr a)) c) - int (completed (C_P (Ptr a)) c)"

definition sem_thread_ok ::
  "kstate \<Rightarrow> int \<Rightarrow> semaphore \<Rightarrow> wchan \<Rightarrow> tid \<Rightarrow> sloc \<Rightarrow> bool" where
  "sem_thread_ok s b m wc t l =
     (sloc_ok l \<and> (s_spin l \<longleftrightarrow> sem_lock m = Some t) \<and> (s_wc l \<longleftrightarrow> wc_lock wc = Some t) \<and>
      (t_state (threads s t) = S_SLEEP \<longrightarrow> s_may_sleep l) \<and>
      (s_spin l \<longrightarrow> s_count l (sem_count m) b))"

definition sem_facts :: "addr \<Rightarrow> addr \<Rightarrow> 32 word \<Rightarrow> config \<Rightarrow> semaphore \<Rightarrow> wchan \<Rightarrow> bool" where
  "sem_facts a w n c m wc =
     (sems (st c) a = Some m \<and> sem_wchan m = Ptr w \<and> wchans (st c) w = Some wc \<and>
      (\<forall>t. \<exists>l. code c t = sem_code a l \<and> sem_thread_ok (st c) (sem_base a n c) m wc t l) \<and>
      (sem_lock m = None \<longrightarrow> sint (sem_count m) = sem_base a n c \<and> 0 \<le> sem_base a n c))"

definition sem_inv :: "addr \<Rightarrow> addr \<Rightarrow> 32 word \<Rightarrow> config \<Rightarrow> bool" where
  "sem_inv a w n c = (status c \<noteq> Faulted \<and> (\<exists>m wc. sem_facts a w n c m wc))"

fun sem_event :: "addr \<Rightarrow> sched \<Rightarrow> bool" where
  "sem_event a (Invoke t f) = (f = C_P (Ptr a) \<or> f = C_V (Ptr a))"
| "sem_event a (Step t) = True"

text \<open>
  A run on a semaphore created with count 1: thread 1 takes the permit, thread 2 blocks
  in P, thread 3 releases with V and wakes thread 2, thread 2 completes its P, and
  thread 1 gives its permit back.
\<close>

definition sem_demo_state :: kstate where
  "sem_demo_state =
     created (sem_create ''sem'' 1
       (Some \<lparr>sem_name = NULL, sem_wchan = NULL, sem_lock = Some 7, sem_count = 99\<rparr>)
       all_ok boot)"

definition sem_demo_sched :: "sched list" where
  "sem_demo_sched =
     Invoke 1 (C_P (Ptr 0)) # replicate 7 (Step 1) @
     Invoke 2 (C_P (Ptr 0)) # replicate 7 (Step 2) @
     Invoke 3 (C_V (Ptr 0)) # replicate 6 (Step 3) @
     replicate 5 (Step 2) @
     Invoke 1 (C_V (Ptr 0)) # replicate 6 (Step 1)"

section \<open>What one thread does, whatever the others do\<close>

text \<open>
  The view of a thread: the statements it still has to run, its trace, and whether it
  sleeps. \<open>nexts\<close> lists the views its own next statement can lead to; other threads
  can only wake it up. The expected traces of P and V are written out below: P's
  prologue, the lock-step handoff it repeats while the count is zero, and its epilogue;
  and the eight events of V.
\<close>

fun sleeps :: "instr \<Rightarrow> bool" where
  "sleeps (Wchan_sleep w) = True"
| "sleeps i = False"

definition after :: "event \<Rightarrow> instr list \<Rightarrow> event list \<Rightarrow> bool \<Rightarrow> instr list \<times> event list \<times> bool" where
  "after e cd tr sl = (after_returns cd, tr @ e # map Exec (returns cd), sl)"

fun nexts :: "instr list \<Rightarrow> event list \<Rightarrow> (instr list \<times> event list \<times> bool) list" where
  "nexts [] tr = []"
| "nexts (While b is # rest) tr =
     [after (Test b True) (is @ While b is # rest) tr False, after (Test b False) rest tr False]"
| "nexts (Call f # rest) tr = [after (Exec (Call f)) (body f @ Return f # rest) tr False]"
| "nexts (i # rest) tr = [after (Exec i) rest tr (sleeps i)]"

definition view :: "tid \<Rightarrow> config \<Rightarrow> instr list \<times> event list \<times> bool" where
  "view t c = (code c t, trace t c, t_state (threads (st c) t) = S_SLEEP)"

definition P_prologue :: "ptr \<Rightarrow> event list" where
  "P_prologue sem =
     [Exec (Call (C_P sem)), Exec (KASSERT (Ptr_not_null sem)), Exec (KASSERT Not_in_interrupt),
      Exec (Spinlock_acquire (Sem_lock_of sem))]"

definition P_handoff :: "ptr \<Rightarrow> event list" where
  "P_handoff sem =
     [Test (Sem_count_is_zero sem) True, Exec (Wchan_lock (Sem_wchan_of sem)),
      Exec (Spinlock_release (Sem_lock_of sem)), Exec (Wchan_sleep (Sem_wchan_of sem)),
      Exec (Spinlock_acquire (Sem_lock_of sem))]"

definition P_epilogue :: "ptr \<Rightarrow> event list" where
  "P_epilogue sem =
     [Test (Sem_count_is_zero sem) False, Exec (KASSERT (Sem_count_positive sem)),
      Exec (Sem_count_decr sem), Exec (Spinlock_release (Sem_lock_of sem)),
      Exec (Return (C_P sem))]"

fun P_trace :: "addr \<Rightarrow> nat \<Rightarrow> sloc \<Rightarrow> event list" where
  "P_trace a k S_idle =
     P_prologue (Ptr a) @ concat (replicate k (P_handoff (Ptr a))) @ P_epilogue (Ptr a)"
| "P_trace a k (S_P j) =
     (if j < 3 then take (Suc j) (P_prologue (Ptr a))
      else P_prologue (Ptr a) @ concat (replicate k (P_handoff (Ptr a))) @
           take (j - 3) (P_epilogue (Ptr a)))"
| "P_trace a k (S_PL j) =
     P_prologue (Ptr a) @ concat (replicate k (P_handoff (Ptr a))) @
     take (Suc j) (P_handoff (Ptr a))"
| "P_trace a k (S_V j) = []"

fun P_loc :: "sloc \<Rightarrow> bool" where
  "P_loc (S_V j) = False"
| "P_loc l = sloc_ok l"

definition P_view :: "addr \<Rightarrow> event list \<Rightarrow> instr list \<times> event list \<times> bool \<Rightarrow> bool" where
  "P_view a base v =
     (\<exists>k l. P_loc l \<and> fst v = sem_code a l \<and> fst (snd v) = base @ P_trace a k l)"

definition V_events :: "ptr \<Rightarrow> event list" where
  "V_events sem =
     [Exec (Call (C_V sem)), Exec (KASSERT (Ptr_not_null sem)),
      Exec (Spinlock_acquire (Sem_lock_of sem)), Exec (Sem_count_incr sem),
      Exec (KASSERT (Sem_count_positive sem)), Exec (Wchan_wakeone (Sem_wchan_of sem)),
      Exec (Spinlock_release (Sem_lock_of sem)), Exec (Return (C_V sem))]"

fun V_trace :: "addr \<Rightarrow> sloc \<Rightarrow> event list" where
  "V_trace a (S_V j) = take (Suc j) (V_events (Ptr a))"
| "V_trace a l = V_events (Ptr a)"

fun V_loc :: "sloc \<Rightarrow> bool" where
  "V_loc (S_V j) = (j < 6)"
| "V_loc S_idle = True"
| "V_loc l = False"

definition V_view :: "addr \<Rightarrow> event list \<Rightarrow> instr list \<times> event list \<times> bool \<Rightarrow> bool" where
  "V_view a base v =
     (\<not> snd (snd v) \<and>
      (\<exists>l. V_loc l \<and> fst v = sem_code a l \<and> fst (snd v) = base @ V_trace a l))"

text \<open>
  The schedule of \<open>sem_demo_sched\<close> in two parts: thread 1's P, then thread 2's call of
  P with all that follows. \<open>irq_state\<close> has thread 9 inside an interrupt handler, and
  \<open>full_sem_state\<close> holds a semaphore whose count is INT_MAX.
\<close>

definition sem_demo_mid :: config where
  "sem_demo_mid = exec (Invoke 1 (C_P (Ptr 0)) # replicate 7 (Step 1)) (start sem_demo_state)"

definition sem_demo_rest :: "sched list" where
  "sem_demo_rest =
     replicate 7 (Step 2) @
     Invoke 3 (C_V (Ptr 0)) # replicate 6 (Step 3) @
     replicate 5 (Step 2) @
     Invoke 1 (C_V (Ptr 0)) # replicate 6 (Step 1)"

definition irq_state :: kstate where
  "irq_state =
     objects\<lparr>threads := (threads objects)(9 := \<lparr>t_in_interrupt = True, t_state = S_READY\<rparr>)\<rparr>"

definition full_sem_state :: kstate where
  "full_sem_state =
     created (sem_create ''full'' 2147483647
       (Some \<lparr>sem_name = NULL, sem_wchan = NULL, sem_lock = None, sem_count = 0\<rparr>)
       all_ok boot)"

section \<open>The lock and the condition variable under interleaving\<close>

text \<open>
  Where a thread stands in lock_acquire, lock_release, cv_wait, cv_signal or
  cv_broadcast: \<open>L_acq k\<close> before statement \<open>k\<close> of lock_acquire, \<open>L_acqL j\<close> before
  statement \<open>j\<close> of its loop body, and so on; the frame says whether lock_acquire or
  lock_release was called from cv_wait. \<open>lock_code\<close> is the code the thread still has
  to run there. \<open>hist_owner\<close> reads from the history the thread whose lock_acquire
  returned last with no lock_release returned since. \<open>lock_thread_ok\<close> says what holds
  of the lock while a thread stands at a location, and \<open>lock_inv\<close> collects it for all
  threads.
\<close>

datatype frame = Top | In_wait

datatype lloc = L_idle | L_acq nat frame | L_acqL nat frame | L_rel nat frame
  | L_wait nat | L_sig nat | L_bc nat

fun acq_rest :: "addr \<Rightarrow> addr \<Rightarrow> frame \<Rightarrow> instr list" where
  "acq_rest l v Top = []"
| "acq_rest l v In_wait = drop 7 (cv_wait (Ptr v) (Ptr l)) @ [Return (C_cv_wait (Ptr v) (Ptr l))]"

fun rel_rest :: "addr \<Rightarrow> addr \<Rightarrow> frame \<Rightarrow> instr list" where
  "rel_rest l v Top = []"
| "rel_rest l v In_wait = drop 5 (cv_wait (Ptr v) (Ptr l)) @ [Return (C_cv_wait (Ptr v) (Ptr l))]"

fun lock_code :: "addr \<Rightarrow> addr \<Rightarrow> lloc \<Rightarrow> instr list" where
  "lock_code l v L_idle = []"
| "lock_code l v (L_acq k fr) =
     drop k (lock_acquire (Ptr l)) @ Return (C_lock_acquire (Ptr l)) # acq_rest l v fr"
| "lock_code l v (L_acqL j fr) =
     drop j (loop_body (lock_acquire (Ptr l) ! 4)) @ drop 4 (lock_acquire (Ptr l)) @
     Return (C_lock_acquire (Ptr l)) # acq_rest l v fr"
| "lock_code l v (L_rel k fr) =
     drop k (lock_release (Ptr l)) @ Return (C_lock_release (Ptr l)) # rel_rest l v fr"
| "lock_code l v (L_wait k) =
     drop k (cv_wait (Ptr v) (Ptr l)) @ [Return (C_cv_wait (Ptr v) (Ptr l))]"
| "lock_code l v (L_sig k) =
     drop k (cv_signal (Ptr v) (Ptr l)) @ [Return (C_cv_signal (Ptr v) (Ptr l))]"
| "lock_code l v (L_bc k) =
     drop k (cv_broadcast (Ptr v) (Ptr l)) @ [Return (C_cv_broadcast (Ptr v) (Ptr l))]"

fun lloc_ok :: "lloc \<Rightarrow> bool" where
  "lloc_ok L_idle = True"
| "lloc_ok (L_acq k fr) = (k < 9)"
| "lloc_ok (L_acqL j fr) = (j < 4)"
| "lloc_ok (L_rel k fr) = (k < 7)"
| "lloc_ok (L_wait k) = (k < 7)"
| "lloc_ok (L_sig k) = (k < 3)"
| "lloc_ok (L_bc k) = (k < 3)"

fun l_spin :: "lloc \<Rightarrow> bool" where
  "l_spin (L_acq k fr) = (4 \<le> k)"
| "l_spin (L_acqL j fr) = (j \<le> 1)"
| "l_spin (L_rel k fr) = (3 \<le> k)"
| "l_spin loc = False"

fun l_lwc :: "lloc \<Rightarrow> bool" where
  "l_lwc (L_acqL j fr) = (j = 1 \<or> j = 2)"
| "l_lwc loc = False"

fun l_vwc :: "lloc \<Rightarrow> bool" where
  "l_vwc (L_wait k) = (k = 4 \<or> k = 5)"
| "l_vwc (L_rel k fr) = (fr = In_wait)"
| "l_vwc loc = False"

fun l_may_sleep :: "lloc \<Rightarrow> bool" where
  "l_may_sleep L_idle = True"
| "l_may_sleep (L_acqL j fr) = (j = 3)"
| "l_may_sleep (L_wait k) = (k = 6)"
| "l_may_sleep loc = False"

datatype know = Mine | Not_mine | Unknown

fun l_own :: "lloc \<Rightarrow> know" where
  "l_own (L_acq k fr) =
     (if k < 2 then (if fr = In_wait then Not_mine else Unknown)
      else if k < 8 then Not_mine else Mine)"
| "l_own (L_acqL j fr) = Not_mine"
| "l_own (L_rel k fr) =
     (if k < 2 then (if fr = In_wait then Mine else Unknown)
      else if k < 5 then Mine else Not_mine)"
| "l_own (L_wait k) = (if k < 3 then Unknown else if k < 5 then Mine else Not_mine)"
| "l_own loc = Unknown"

fun l_crit :: "lloc \<Rightarrow> tid \<Rightarrow> bool \<Rightarrow> tid option \<Rightarrow> tid option \<Rightarrow> bool" where
  "l_crit (L_acq k fr) t h ow ho =
     (if k = 4 then (ow \<noteq> None \<longleftrightarrow> h) \<and> ho = ow
      else if k = 5 \<or> k = 6 then \<not> h \<and> ow = None \<and> ho = None
      else if k = 7 then h \<and> ow = None \<and> ho = None
      else h \<and> ho = None)"
| "l_crit (L_acqL j fr) t h ow ho = ((ow \<noteq> None \<longleftrightarrow> h) \<and> ho = ow)"
| "l_crit (L_rel k fr) t h ow ho =
     (if k = 3 then h \<and> ho = Some t
      else if k = 4 then \<not> h \<and> ho = Some t
      else \<not> h \<and> ow = None \<and> ho = Some t)"
| "l_crit loc t h ow ho = True"

definition hist_step :: "ptr \<Rightarrow> tid option \<Rightarrow> tid \<times> event \<Rightarrow> tid option" where
  "hist_step lk ow e =
     (if snd e = Exec (Return (C_lock_acquire lk)) then Some (fst e)
      else if snd e = Exec (Return (C_lock_release lk)) then None
      else ow)"

definition hist_owner :: "ptr \<Rightarrow> (tid \<times> event) list \<Rightarrow> tid option" where
  "hist_owner lk h = foldl (hist_step lk) None h"

definition returned_owning :: "addr \<Rightarrow> addr \<Rightarrow> event list \<Rightarrow> bool" where
  "returned_owning l v tr =
     (tr \<noteq> [] \<and>
      (last tr = Exec (Return (C_lock_acquire (Ptr l))) \<or>
       last tr = Exec (Return (C_cv_wait (Ptr v) (Ptr l)))))"

definition lock_thread_ok ::
  "addr \<Rightarrow> addr \<Rightarrow> kstate \<Rightarrow> lock \<Rightarrow> wchan \<Rightarrow> wchan \<Rightarrow> tid option \<Rightarrow> event list \<Rightarrow> tid \<Rightarrow> lloc \<Rightarrow> bool" where
  "lock_thread_ok l v s m wcl wcv ho tr t loc =
     (lloc_ok loc \<and>
      (l_spin loc \<longleftrightarrow> lk_lock m = Some t) \<and>
      (l_lwc loc \<longleftrightarrow> wc_lock wcl = Some t) \<and>
      (l_vwc loc \<longleftrightarrow> wc_lock wcv = Some t) \<and>
      (t_state (threads s t) = S_SLEEP \<longrightarrow> l_may_sleep loc) \<and>
      (l_own loc = Mine \<longrightarrow> lk_owner m = Some t) \<and>
      (l_own loc = Not_mine \<longrightarrow> lk_owner m \<noteq> Some t) \<and>
      (l_spin loc \<longrightarrow> l_crit loc t (lk_held m) (lk_owner m) ho) \<and>
      (loc = L_idle \<and> returned_owning l v tr \<longrightarrow> lk_owner m = Some t \<and> lk_held m))"

definition lock_facts ::
  "addr \<Rightarrow> addr \<Rightarrow> addr \<Rightarrow> addr \<Rightarrow> config \<Rightarrow> lock \<Rightarrow> wchan \<Rightarrow> wchan \<Rightarrow> bool" where
  "lock_facts l v wl wv c m wcl wcv =
     (locks (st c) l = Some m \<and> lk_wchan m = Ptr wl \<and> wchans (st c) wl = Some wcl \<and>
      map_option cv_wchan (cvs (st c) v) = Some (Ptr wv) \<and> wchans (st c) wv = Some wcv \<and>
      wl \<noteq> wv \<and>
      (\<forall>t. \<exists>loc. code c t = lock_code l v loc \<and>
         lock_thread_ok l v (st c) m wcl wcv (hist_owner (Ptr l) (history c)) (trace t c) t loc) \<and>
      (lk_lock m = None \<longrightarrow>
         (lk_owner m \<noteq> None \<longleftrightarrow> lk_held m) \<and>
         hist_owner (Ptr l) (history c) = lk_owner m))"

definition lock_inv :: "addr \<Rightarrow> addr \<Rightarrow> addr \<Rightarrow> addr \<Rightarrow> config \<Rightarrow> bool" where
  "lock_inv l v wl wv c =
     (status c \<noteq> Faulted \<and> (\<exists>m wcl wcv. lock_facts l v wl wv c m wcl wcv))"

fun lock_event :: "addr \<Rightarrow> addr \<Rightarrow> sched \<Rightarrow> bool" where
  "lock_event l v (Invoke t f) =
     (f = C_lock_acquire (Ptr l) \<or> f = C_lock_release (Ptr l) \<or>
      f = C_cv_wait (Ptr v) (Ptr l) \<or> f = C_cv_signal (Ptr v) (Ptr l) \<or>
      f = C_cv_broadcast (Ptr v) (Ptr l))"
| "lock_event l v (Step t) = True"


text \<open>
  The expected traces: the events of cv_wait up to its sleep, of lock_release, and of
  lock_acquire with the handoff it repeats while the lock is held.
\<close>

definition cv_wait_prologue :: "ptr \<Rightarrow> ptr \<Rightarrow> event list" where
  "cv_wait_prologue cv lk =
     [Exec (Call (C_cv_wait cv lk)), Exec (KASSERT (Ptr_not_null cv)),
      Exec (KASSERT (Ptr_not_null lk)), Exec (KASSERT (Do_i_hold lk)),
      Exec (Wchan_lock (Cv_wchan_of cv))]"

definition lock_release_events :: "ptr \<Rightarrow> event list" where
  "lock_release_events lk =
     [Exec (Call (C_lock_release lk)), Exec (KASSERT (Ptr_not_null lk)),
      Exec (KASSERT (Do_i_hold lk)), Exec (Spinlock_acquire (Lk_lock_of lk)),
      Exec (Set_lk_held lk False), Exec (Set_lk_owner_null lk),
      Exec (Wchan_wakeone (Lk_wchan_of lk)), Exec (Spinlock_release (Lk_lock_of lk)),
      Exec (Return (C_lock_release lk))]"

definition lock_acquire_prologue :: "ptr \<Rightarrow> event list" where
  "lock_acquire_prologue lk =
     [Exec (Call (C_lock_acquire lk)), Exec (KASSERT (Ptr_not_null lk)),
      Exec (KASSERT (Not_do_i_hold lk)), Exec (KASSERT Not_in_interrupt),
      Exec (Spinlock_acquire (Lk_lock_of lk))]"

definition lock_acquire_handoff :: "ptr \<Rightarrow> event list" where
  "lock_acquire_handoff lk =
     [Test (Lk_is_held lk) True, Exec (Wchan_lock (Lk_wchan_of lk)),
      Exec (Spinlock_release (Lk_lock_of lk)), Exec (Wchan_sleep (Lk_wchan_of lk)),
      Exec (Spinlock_acquire (Lk_lock_of lk))]"

definition lock_acquire_epilogue :: "ptr \<Rightarrow> event list" where
  "lock_acquire_epilogue lk =
     [Test (Lk_is_held lk) False, Exec (KASSERT (Lk_not_held lk)),
      Exec (Set_lk_held lk True), Exec (Set_lk_owner_curthread lk),
      Exec (Spinlock_release (Lk_lock_of lk)), Exec (Return (C_lock_acquire lk))]"

fun frame_events :: "addr \<Rightarrow> addr \<Rightarrow> frame \<Rightarrow> event list" where
  "frame_events l v Top = []"
| "frame_events l v In_wait =
     cv_wait_prologue (Ptr v) (Ptr l) @ lock_release_events (Ptr l) @
     [Exec (Wchan_sleep (Cv_wchan_of (Ptr v)))]"

fun frame_return :: "addr \<Rightarrow> addr \<Rightarrow> frame \<Rightarrow> event list" where
  "frame_return l v Top = []"
| "frame_return l v In_wait = [Exec (Return (C_cv_wait (Ptr v) (Ptr l)))]"

fun call_trace :: "addr \<Rightarrow> addr \<Rightarrow> frame \<Rightarrow> nat \<Rightarrow> lloc \<Rightarrow> event list" where
  "call_trace l v fr0 k (L_wait j) =
     (if j < 5 then take (Suc j) (cv_wait_prologue (Ptr v) (Ptr l))
      else cv_wait_prologue (Ptr v) (Ptr l) @ lock_release_events (Ptr l) @
           take (j - 5) [Exec (Wchan_sleep (Cv_wchan_of (Ptr v)))])"
| "call_trace l v fr0 k (L_rel j fr) =
     cv_wait_prologue (Ptr v) (Ptr l) @ take (Suc j) (lock_release_events (Ptr l))"
| "call_trace l v fr0 k (L_acq j fr) =
     frame_events l v fr0 @
     (if j < 4 then take (Suc j) (lock_acquire_prologue (Ptr l))
      else lock_acquire_prologue (Ptr l) @ concat (replicate k (lock_acquire_handoff (Ptr l))) @
           take (j - 4) (lock_acquire_epilogue (Ptr l)))"
| "call_trace l v fr0 k (L_acqL j fr) =
     frame_events l v fr0 @ lock_acquire_prologue (Ptr l) @
     concat (replicate k (lock_acquire_handoff (Ptr l))) @
     take (Suc j) (lock_acquire_handoff (Ptr l))"
| "call_trace l v fr0 k loc =
     frame_events l v fr0 @ lock_acquire_prologue (Ptr l) @
     concat (replicate k (lock_acquire_handoff (Ptr l))) @
     lock_acquire_epilogue (Ptr l) @ frame_return l v fr0"

fun call_loc :: "frame \<Rightarrow> lloc \<Rightarrow> bool" where
  "call_loc fr0 L_idle = True"
| "call_loc fr0 (L_acq j fr) = (j < 9 \<and> fr = fr0)"
| "call_loc fr0 (L_acqL j fr) = (j < 4 \<and> fr = fr0)"
| "call_loc fr0 (L_rel j fr) = (j < 7 \<and> fr = In_wait \<and> fr0 = In_wait)"
| "call_loc fr0 (L_wait j) = (j < 7 \<and> fr0 = In_wait)"
| "call_loc fr0 loc = False"

definition call_view ::
  "addr \<Rightarrow> addr \<Rightarrow> frame \<Rightarrow> event list \<Rightarrow> instr list \<times> event list \<times> bool \<Rightarrow> bool" where
  "call_view l v fr0 base w =
     (\<exists>k loc. call_loc fr0 loc \<and> fst w = lock_code l v loc \<and>
        fst (snd w) = base @ call_trace l v fr0 k loc)"


text \<open>
  \<open>sem_made\<close> holds nothing but a semaphore of count 0, and in \<open>sem_waiting\<close> thread 3
  sleeps in P on it. A run on the lock at address 3 and the condition variable at address 6: thread 1
  acquires the lock and waits; thread 2 acquires the lock, signals and releases; thread
  1 wakes up, finds the lock held, sleeps on the lock's channel, and returns from
  cv_wait after the release.
\<close>

definition sem_made :: kstate where
  "sem_made =
     created (sem_create ''sem'' 0
       (Some \<lparr>sem_name = NULL, sem_wchan = NULL, sem_lock = Some 7, sem_count = 99\<rparr>)
       all_ok boot)"

definition sem_waiting :: config where
  "sem_waiting = exec (Invoke 3 (C_P (Ptr 0)) # replicate 7 (Step 3)) (start sem_made)"

definition lock_made :: kstate where
  "lock_made =
     created (lock_create ''lk''
       (Some \<lparr>lk_name = NULL, lk_wchan = NULL, lk_lock = None, lk_held = True, lk_owner = Some 7\<rparr>)
       all_ok sem_made)"

definition lock_demo_mid :: config where
  "lock_demo_mid = exec (Invoke 1 (C_lock_acquire (Ptr 3)) # replicate 9 (Step 1)) (start objects)"

definition lock_demo_rest :: "sched list" where
  "lock_demo_rest =
     replicate 13 (Step 1) @
     Invoke 2 (C_lock_acquire (Ptr 3)) # replicate 9 (Step 2) @
     Invoke 2 (C_cv_signal (Ptr 6) (Ptr 3)) # replicate 3 (Step 2) @
     replicate 9 (Step 1) @
     Invoke 2 (C_lock_release (Ptr 3)) # replicate 7 (Step 2) @
     replicate 6 (Step 1)"

definition lock_demo_sched :: "sched list" where
  "lock_demo_sched =
     Invoke 1 (C_lock_acquire (Ptr 3)) # replicate 9 (Step 1) @
     Invoke 1 (C_cv_wait (Ptr 6) (Ptr 3)) # lock_demo_rest"

definition handoff_sched :: "sched list" where
  "handoff_sched =
     replicate 8 (Step 4) @ Invoke 2 (C_lock_release (Ptr 3)) # replicate 7 (Step 2) @
     replicate 6 (Step 4)"

section \<open>Basic facts\<close>

lemma sint_decr:
  assumes "0 < sint (x :: 32 word)"
  shows "sint (x - 1) = sint x - 1"
proof -
  have b: "sint x < 2 ^ 31" using sint_lt [of x] by simp
  have "sint (x - 1) = signed_take_bit 31 (sint x - 1)"
    by (simp add: sint_word_ariths)
  also have "\<dots> = sint x - 1"
    using assms b by (intro signed_take_bit_int_eq_self) auto
  finally show ?thesis .
qed

lemma sint_incr:
  assumes "0 < sint (y + 1 :: 32 word)" and "0 \<le> sint y"
  shows "sint (y + 1) = sint y + 1"
proof -
  have b: "sint y < 2 ^ 31" using sint_lt [of y] by simp
  have e: "sint (y + 1) = signed_take_bit 31 (sint y + 1)"
    by (simp add: sint_word_ariths)
  show ?thesis
  proof (cases "sint y + 1 < 2 ^ 31")
    case True
    with assms(2) have "signed_take_bit 31 (sint y + 1) = sint y + 1"
      by (intro signed_take_bit_int_eq_self) auto
    with e show ?thesis by simp
  next
    case False
    with b have "sint y + 1 = 2 ^ 31" by simp
    with e have "sint (y + 1) = signed_take_bit 31 (2 ^ 31 :: int)" by simp
    also have "\<dots> = - (2 ^ 31)" by (simp add: signed_take_bit_eq_take_bit_shift)
    finally show ?thesis using assms(1) by simp
  qed
qed

lemma advance_code: "code (advance t e rest s c) t' = (if t' = t then after_returns rest else code c t')"
  by (simp add: advance_def)

lemma advance_st: "st (advance t e rest s c) = s" by (simp add: advance_def)
lemma advance_status: "status (advance t e rest s c) = status c" by (simp add: advance_def)

lemma completed_advance:
  "completed f (advance t e rest s c) =
     completed f c + (if e = Exec (Return f) then 1 else 0) +
       length (filter (\<lambda>r. r = Return f) (returns rest))"
  by (simp add: completed_def advance_def comp_def)

section \<open>Running a function alone\<close>

lemmas bodies =
  sem_destroy_def P_def V_def lock_destroy_def lock_acquire_def lock_release_def
  cv_destroy_def cv_wait_def cv_signal_def cv_broadcast_def

lemmas run_simps =
  bodies advance_def run_instr_def trace_def lock_do_i_hold_def
  spinlock_acquire_def spinlock_release_def spinlock_cleanup_def
  wchan_lock_def wchan_sleep_def wchan_wakeone_def wchan_wakeall_def wchan_destroy_def

lemma replicate_num: "replicate (numeral k) x = x # replicate (pred_numeral k) x"
  by (simp add: numeral_eq_Suc)

lemma heap_ok_boot: "heap_ok boot"
  by (simp add: heap_ok_def boot_def)

lemma objects_eq:
  "objects =
     \<lparr>threads = (\<lambda>t. \<lparr>t_in_interrupt = False, t_state = S_READY\<rparr>),
      strs = [1 \<mapsto> ''sem'', 4 \<mapsto> ''lk'', 7 \<mapsto> ''cv''],
      wchans = [2 \<mapsto> \<lparr>wc_name = Ptr 1, wc_lock = None, wc_threads = []\<rparr>,
                5 \<mapsto> \<lparr>wc_name = Ptr 4, wc_lock = None, wc_threads = []\<rparr>,
                8 \<mapsto> \<lparr>wc_name = Ptr 7, wc_lock = None, wc_threads = []\<rparr>],
      sems = [0 \<mapsto> \<lparr>sem_name = Ptr 1, sem_wchan = Ptr 2, sem_lock = None, sem_count = 0\<rparr>],
      locks = [3 \<mapsto> \<lparr>lk_name = Ptr 4, lk_wchan = Ptr 5, lk_lock = None, lk_held = False,
                     lk_owner = None\<rparr>],
      cvs = [6 \<mapsto> \<lparr>cv_name = Ptr 7, cv_wchan = Ptr 8\<rparr>],
      brk = 9\<rparr>"
  by (simp add: objects_def all_ok_def boot_def sem_create_def lock_create_def cv_create_def
      kmalloc_sem_def kmalloc_lock_def kmalloc_cv_def kstrdup_def wchan_create_def Let_def
      eval_nat_numeral fun_upd_twist)

lemma scene_held_status: "status scene_held = Running"
  by (simp add: scene_held_def objects_eq start_def run_simps set_t_state_def replicate_num)

lemma scene_held_code: "code scene_held 5 = []"
  by (simp add: scene_held_def objects_eq start_def run_simps set_t_state_def replicate_num)

lemma scene_held_st:
  "st scene_held =
     \<lparr>threads = (\<lambda>t. \<lparr>t_in_interrupt = False,
                        t_state = (if t = 1 \<or> t = 3 then S_SLEEP else S_READY)\<rparr>),
      strs = [1 \<mapsto> ''sem'', 4 \<mapsto> ''lk'', 7 \<mapsto> ''cv''],
      wchans = [2 \<mapsto> \<lparr>wc_name = Ptr 1, wc_lock = None, wc_threads = [3]\<rparr>,
                5 \<mapsto> \<lparr>wc_name = Ptr 4, wc_lock = None, wc_threads = []\<rparr>,
                8 \<mapsto> \<lparr>wc_name = Ptr 7, wc_lock = None, wc_threads = [1]\<rparr>],
      sems = [0 \<mapsto> \<lparr>sem_name = Ptr 1, sem_wchan = Ptr 2, sem_lock = None, sem_count = 0\<rparr>],
      locks = [3 \<mapsto> \<lparr>lk_name = Ptr 4, lk_wchan = Ptr 5, lk_lock = None, lk_held = True,
                     lk_owner = Some 2\<rparr>],
      cvs = [6 \<mapsto> \<lparr>cv_name = Ptr 7, cv_wchan = Ptr 8\<rparr>],
      brk = 9\<rparr>"
  by (auto simp add: scene_held_def objects_eq start_def run_simps set_t_state_def
      replicate_num fun_upd_twist fun_eq_iff)


lemma scene_held_code2: "code scene_held 2 = []"
  by (simp add: scene_held_def objects_eq start_def run_simps set_t_state_def replicate_num)

lemma scene_held_code4: "code scene_held 4 = []"
  by (simp add: scene_held_def objects_eq start_def run_simps set_t_state_def replicate_num)

lemma scene_blocked_status: "status scene_blocked = Running"
  by (simp add: scene_blocked_def scene_held_status scene_held_st scene_held_code4 run_simps
      set_t_state_def replicate_num)

lemma scene_blocked_code: "code scene_blocked 5 = []"
  by (simp add: scene_blocked_def scene_held_status scene_held_st scene_held_code
      scene_held_code4 run_simps set_t_state_def replicate_num)

lemma scene_blocked_st:
  "st scene_blocked =
     \<lparr>threads = (\<lambda>t. \<lparr>t_in_interrupt = False,
                        t_state = (if t = 1 \<or> t = 3 \<or> t = 4 then S_SLEEP else S_READY)\<rparr>),
      strs = [1 \<mapsto> ''sem'', 4 \<mapsto> ''lk'', 7 \<mapsto> ''cv''],
      wchans = [2 \<mapsto> \<lparr>wc_name = Ptr 1, wc_lock = None, wc_threads = [3]\<rparr>,
                5 \<mapsto> \<lparr>wc_name = Ptr 4, wc_lock = None, wc_threads = [4]\<rparr>,
                8 \<mapsto> \<lparr>wc_name = Ptr 7, wc_lock = None, wc_threads = [1]\<rparr>],
      sems = [0 \<mapsto> \<lparr>sem_name = Ptr 1, sem_wchan = Ptr 2, sem_lock = None, sem_count = 0\<rparr>],
      locks = [3 \<mapsto> \<lparr>lk_name = Ptr 4, lk_wchan = Ptr 5, lk_lock = None, lk_held = True,
                     lk_owner = Some 2\<rparr>],
      cvs = [6 \<mapsto> \<lparr>cv_name = Ptr 7, cv_wchan = Ptr 8\<rparr>],
      brk = 9\<rparr>"
  by (auto simp add: scene_blocked_def scene_held_status scene_held_st scene_held_code4
      run_simps set_t_state_def replicate_num fun_upd_twist fun_eq_iff)

lemma fold_wake_t_state:
  "t_state (threads (fold (\<lambda>x. set_t_state x S_READY) xs s) y) =
     (if y \<in> set xs then S_READY else t_state (threads s y))"
  by (induction xs arbitrary: s) (auto simp: set_t_state_def)

lemma fold_wake_wchans: "wchans (fold (\<lambda>x. set_t_state x S_READY) xs s) = wchans s"
  by (induction xs arbitrary: s) (auto simp: set_t_state_def)

section \<open>NULL arguments\<close>

lemma null_primitive_halts:
  assumes "status c = Running" and "code c t = []" and "t_state (threads (st c) t) = S_READY"
    and "f \<in> {C_sem_destroy NULL, C_P NULL, C_V NULL, C_lock_destroy NULL,
               C_lock_acquire NULL, C_lock_release NULL, C_cv_destroy NULL,
               C_cv_wait NULL l, C_cv_signal NULL l, C_cv_broadcast NULL l}"
  shows "status (exec [Invoke t f, Step t] c) = Panicked \<and>
         st (exec [Invoke t f, Step t] c) = st c \<and>
         trace t (exec [Invoke t f, Step t] c) = trace t c @ [Exec (Call f)]"
  using assms by (auto simp: run_simps)

lemma null_lock_halts:
  assumes "status c = Running" and "code c t = []" and "t_state (threads (st c) t) = S_READY"
    and "g \<in> {C_cv_wait p NULL, C_cv_signal p NULL, C_cv_broadcast p NULL}"
  shows "status (exec [Invoke t g, Step t, Step t] c) = Panicked \<and>
         st (exec [Invoke t g, Step t, Step t] c) = st c"
  using assms by (cases p) (auto simp: run_simps)

text \<open>
  C10. Every exported operation on an existing primitive starts with
  \<open>KASSERT(ptr != NULL)\<close>: called with a NULL primitive, the first statement the thread
  runs halts the kernel, with the kernel state as it was and nothing but the call in the
  thread's trace. cv_wait, cv_signal and cv_broadcast with a NULL lock halt within their
  first two statements, again before any state changes, and lock_do_i_hold on NULL halts.
\<close>

theorem null_pointer_asserted:
  assumes "status c = Running" and "code c t = []" and "t_state (threads (st c) t) = S_READY"
    and "f \<in> {C_sem_destroy NULL, C_P NULL, C_V NULL, C_lock_destroy NULL,
               C_lock_acquire NULL, C_lock_release NULL, C_cv_destroy NULL,
               C_cv_wait NULL l, C_cv_signal NULL l, C_cv_broadcast NULL l}"
    and "g \<in> {C_cv_wait p NULL, C_cv_signal p NULL, C_cv_broadcast p NULL}"
  shows "status (exec [Invoke t f, Step t] c) = Panicked \<and>
         st (exec [Invoke t f, Step t] c) = st c \<and>
         trace t (exec [Invoke t f, Step t] c) = trace t c @ [Exec (Call f)] \<and>
         status (exec [Invoke t g, Step t, Step t] c) = Panicked \<and>
         st (exec [Invoke t g, Step t, Step t] c) = st c \<and>
         lock_do_i_hold t NULL s = Panic"
proof -
  have "lock_do_i_hold t NULL s = Panic"
    by (simp add: lock_do_i_hold_def)
  with null_primitive_halts [OF assms(1-4)] null_lock_halts [OF assms(1-3) assms(5)]
  show ?thesis by blast
qed

theorem null_pointer_asserted_witness:
  "status (exec [Invoke 0 (C_P NULL), Step 0] (start boot)) = Panicked \<and>
   st (exec [Invoke 0 (C_P NULL), Step 0] (start boot)) = boot \<and>
   trace 0 (exec [Invoke 0 (C_P NULL), Step 0] (start boot)) = [Exec (Call (C_P NULL))] \<and>
   status (exec [Invoke 0 (C_cv_wait (Ptr 6) NULL), Step 0, Step 0] (start boot)) = Panicked \<and>
   st (exec [Invoke 0 (C_cv_wait (Ptr 6) NULL), Step 0, Step 0] (start boot)) = boot \<and>
   lock_do_i_hold 0 NULL boot = Panic"
proof -
  have h1: "status (start boot) = Running" and h2: "code (start boot) 0 = []"
    and h3: "t_state (threads (st (start boot)) 0) = S_READY"
    by (simp_all add: start_def boot_def)
  have h4: "C_P NULL \<in> {C_sem_destroy NULL, C_P NULL, C_V NULL, C_lock_destroy NULL,
               C_lock_acquire NULL, C_lock_release NULL, C_cv_destroy NULL,
               C_cv_wait NULL NULL, C_cv_signal NULL NULL, C_cv_broadcast NULL NULL}"
    by simp
  have h5: "C_cv_wait (Ptr 6) NULL \<in>
      {C_cv_wait (Ptr 6) NULL, C_cv_signal (Ptr 6) NULL, C_cv_broadcast (Ptr 6) NULL}"
    by simp
  from null_pointer_asserted [OF h1 h2 h3 h4 h5, of boot]
  show ?thesis by (simp add: start_def trace_def)
qed

section \<open>lock_acquire: contract violations\<close>

text \<open>
  C6. lock_acquire by a thread that already owns the lock, or by a thread in an
  interrupt handler, halts the kernel within its three KASSERTs: the kernel state is
  unchanged (no lock field was written) and the call does not return.
\<close>

theorem lock_acquire_violation_fatal:
  assumes "status c = Running" and "code c t = []" and "t_state (threads (st c) t) = S_READY"
    and "locks (st c) l = Some m"
    and "lk_owner m = Some t \<or> t_in_interrupt (threads (st c) t)"
    and "c' = exec [Invoke t (C_lock_acquire (Ptr l)), Step t, Step t, Step t] c"
  shows "status c' = Panicked \<and> st c' = st c \<and> code c' t \<noteq> [] \<and>
         set (trace t c') - set (trace t c) \<subseteq>
           {Exec (Call (C_lock_acquire (Ptr l))), Exec (KASSERT (Ptr_not_null (Ptr l))),
            Exec (KASSERT (Not_do_i_hold (Ptr l)))}"
  using assms
  by (auto simp: run_simps)

theorem lock_acquire_violation_fatal_witness:
  "locks (st scene_held) 3 =
     Some \<lparr>lk_name = Ptr 4, lk_wchan = Ptr 5, lk_lock = None, lk_held = True, lk_owner = Some 2\<rparr> \<and>
   status (exec [Invoke 2 (C_lock_acquire (Ptr 3)), Step 2, Step 2, Step 2] scene_held) = Panicked \<and>
   st (exec [Invoke 2 (C_lock_acquire (Ptr 3)), Step 2, Step 2, Step 2] scene_held) = st scene_held"
proof -
  have h3: "t_state (threads (st scene_held) 2) = S_READY"
    by (simp add: scene_held_st)
  have h4: "locks (st scene_held) 3 =
     Some \<lparr>lk_name = Ptr 4, lk_wchan = Ptr 5, lk_lock = None, lk_held = True, lk_owner = Some 2\<rparr>"
    by (simp add: scene_held_st)
  have h5: "lk_owner \<lparr>lk_name = Ptr 4, lk_wchan = Ptr 5, lk_lock = None, lk_held = True,
      lk_owner = Some 2\<rparr> = Some 2 \<or> t_in_interrupt (threads (st scene_held) 2)"
    by simp
  from lock_acquire_violation_fatal [OF scene_held_status scene_held_code2 h3 h4 h5 refl] h4
  show ?thesis by blast
qed


section \<open>Creation under allocation failure\<close>

lemmas create_simps =
  kmalloc_sem_def kmalloc_lock_def kmalloc_cv_def kstrdup_def wchan_create_def heap_ok_def
  Let_def fun_upd_idem

lemma sem_create_fails:
  assumes "heap_ok s" and "0 \<le> sint n" and "js = None \<or> \<not> al_name fs \<or> \<not> al_wchan fs"
  shows "\<exists>s'. sem_create name n js fs s = Done (NULL, s') \<and> s' = s\<lparr>brk := brk s'\<rparr>"
  using assms by (auto simp: sem_create_def create_simps split: option.splits)

lemma lock_create_fails:
  assumes "heap_ok s" and "jl = None \<or> \<not> al_name fl \<or> \<not> al_wchan fl"
  shows "\<exists>s'. lock_create name jl fl s = Done (NULL, s') \<and> s' = s\<lparr>brk := brk s'\<rparr>"
  using assms by (auto simp: lock_create_def create_simps split: option.splits)

lemma cv_create_fails:
  assumes "heap_ok s" and "jc = None \<or> \<not> al_name fc \<or> \<not> al_wchan fc"
  shows "\<exists>s'. cv_create name jc fc s = Done (NULL, s') \<and> s' = s\<lparr>brk := brk s'\<rparr>"
  using assms by (auto simp: cv_create_def create_simps split: option.splits)

lemma sem_create_succeeds:
  assumes "heap_ok s" and "0 \<le> sint n" and "al_name al" and "al_wchan al"
  shows "sem_create name n (Some gs) al s =
     Done (Ptr (brk s),
       s\<lparr>strs := (strs s)(brk s + 1 \<mapsto> name),
         wchans := (wchans s)(brk s + 2 \<mapsto>
            \<lparr>wc_name = Ptr (brk s + 1), wc_lock = None, wc_threads = []\<rparr>),
         sems := (sems s)(brk s \<mapsto>
            \<lparr>sem_name = Ptr (brk s + 1), sem_wchan = Ptr (brk s + 2), sem_lock = None,
             sem_count = n\<rparr>),
         brk := brk s + 3\<rparr>)"
  using assms
  by (cases gs) (auto simp: sem_create_def create_simps eval_nat_numeral)

lemma lock_create_succeeds:
  assumes "heap_ok s" and "al_name al" and "al_wchan al"
  shows "lock_create name (Some gl) al s =
     Done (Ptr (brk s),
       s\<lparr>strs := (strs s)(brk s + 1 \<mapsto> name),
         wchans := (wchans s)(brk s + 2 \<mapsto>
            \<lparr>wc_name = Ptr (brk s + 1), wc_lock = None, wc_threads = []\<rparr>),
         locks := (locks s)(brk s \<mapsto>
            \<lparr>lk_name = Ptr (brk s + 1), lk_wchan = Ptr (brk s + 2), lk_lock = None,
             lk_held = False, lk_owner = None\<rparr>),
         brk := brk s + 3\<rparr>)"
  using assms
  by (cases gl) (auto simp: lock_create_def create_simps eval_nat_numeral)

lemma cv_create_succeeds:
  assumes "heap_ok s" and "al_name al" and "al_wchan al"
  shows "cv_create name (Some gc) al s =
     Done (Ptr (brk s),
       s\<lparr>strs := (strs s)(brk s + 1 \<mapsto> name),
         wchans := (wchans s)(brk s + 2 \<mapsto>
            \<lparr>wc_name = Ptr (brk s + 1), wc_lock = None, wc_threads = []\<rparr>),
         cvs := (cvs s)(brk s \<mapsto> \<lparr>cv_name = Ptr (brk s + 1), cv_wchan = Ptr (brk s + 2)\<rparr>),
         brk := brk s + 3\<rparr>)"
  using assms
  by (cases gc) (auto simp: cv_create_def create_simps eval_nat_numeral)

text \<open>
  C8. sem_create, lock_create and cv_create under allocation failure. If the object,
  the name or the wait channel cannot be allocated, the constructor returns NULL (it
  does not halt the kernel) and the state is the one before the call up to the
  allocator's address counter: everything it had allocated is freed again and no object
  is left behind. If all three allocations succeed it returns the new object with every
  field written, whatever garbage the fresh memory held: the copied name, a new empty
  unlocked wait channel of that name, and for the semaphore a free spinlock and the
  initial count, for the lock a free spinlock, held = false and no owner.
\<close>

theorem create_all_or_nothing:
  assumes "heap_ok s" and "0 \<le> sint n"
    and "js = None \<or> \<not> al_name fs \<or> \<not> al_wchan fs"
    and "jl = None \<or> \<not> al_name fl \<or> \<not> al_wchan fl"
    and "jc = None \<or> \<not> al_name fc \<or> \<not> al_wchan fc"
    and "al_name al" and "al_wchan al"
  shows "(\<exists>s'. sem_create name n js fs s = Done (NULL, s') \<and> s' = s\<lparr>brk := brk s'\<rparr>) \<and>
         (\<exists>s'. lock_create name jl fl s = Done (NULL, s') \<and> s' = s\<lparr>brk := brk s'\<rparr>) \<and>
         (\<exists>s'. cv_create name jc fc s = Done (NULL, s') \<and> s' = s\<lparr>brk := brk s'\<rparr>) \<and>
         sem_create name n (Some gs) al s =
           Done (Ptr (brk s),
             s\<lparr>strs := (strs s)(brk s + 1 \<mapsto> name),
               wchans := (wchans s)(brk s + 2 \<mapsto>
                  \<lparr>wc_name = Ptr (brk s + 1), wc_lock = None, wc_threads = []\<rparr>),
               sems := (sems s)(brk s \<mapsto>
                  \<lparr>sem_name = Ptr (brk s + 1), sem_wchan = Ptr (brk s + 2), sem_lock = None,
                   sem_count = n\<rparr>),
               brk := brk s + 3\<rparr>) \<and>
         lock_create name (Some gl) al s =
           Done (Ptr (brk s),
             s\<lparr>strs := (strs s)(brk s + 1 \<mapsto> name),
               wchans := (wchans s)(brk s + 2 \<mapsto>
                  \<lparr>wc_name = Ptr (brk s + 1), wc_lock = None, wc_threads = []\<rparr>),
               locks := (locks s)(brk s \<mapsto>
                  \<lparr>lk_name = Ptr (brk s + 1), lk_wchan = Ptr (brk s + 2), lk_lock = None,
                   lk_held = False, lk_owner = None\<rparr>),
               brk := brk s + 3\<rparr>) \<and>
         cv_create name (Some gc) al s =
           Done (Ptr (brk s),
             s\<lparr>strs := (strs s)(brk s + 1 \<mapsto> name),
               wchans := (wchans s)(brk s + 2 \<mapsto>
                  \<lparr>wc_name = Ptr (brk s + 1), wc_lock = None, wc_threads = []\<rparr>),
               cvs := (cvs s)(brk s \<mapsto> \<lparr>cv_name = Ptr (brk s + 1), cv_wchan = Ptr (brk s + 2)\<rparr>),
               brk := brk s + 3\<rparr>)"
  using sem_create_fails [OF assms(1,2,3)] lock_create_fails [OF assms(1,4)]
    cv_create_fails [OF assms(1,5)] sem_create_succeeds [OF assms(1,2,6,7)]
    lock_create_succeeds [OF assms(1,6,7)] cv_create_succeeds [OF assms(1,6,7)]
  by blast

theorem create_all_or_nothing_witness:
  "sem_create ''s'' 5 (Some \<lparr>sem_name = Ptr 8, sem_wchan = Ptr 9, sem_lock = Some 1, sem_count = 7\<rparr>)
      \<lparr>al_name = True, al_wchan = False\<rparr> boot = Done (NULL, boot\<lparr>brk := 2\<rparr>) \<and>
   lock_create ''s'' None all_ok boot = Done (NULL, boot) \<and>
   cv_create ''s'' (Some \<lparr>cv_name = Ptr 8, cv_wchan = Ptr 9\<rparr>)
      \<lparr>al_name = False, al_wchan = True\<rparr> boot = Done (NULL, boot\<lparr>brk := 1\<rparr>) \<and>
   sem_create ''s'' 5 (Some \<lparr>sem_name = Ptr 8, sem_wchan = Ptr 9, sem_lock = Some 1, sem_count = 7\<rparr>)
      all_ok boot =
     Done (Ptr 0, boot\<lparr>strs := [1 \<mapsto> ''s''],
       wchans := [2 \<mapsto> \<lparr>wc_name = Ptr 1, wc_lock = None, wc_threads = []\<rparr>],
       sems := [0 \<mapsto> \<lparr>sem_name = Ptr 1, sem_wchan = Ptr 2, sem_lock = None, sem_count = 5\<rparr>],
       brk := 3\<rparr>)"
proof -
  have h2: "0 \<le> sint (5 :: 32 word)" by simp
  have h3: "Some \<lparr>sem_name = Ptr 8, sem_wchan = Ptr 9, sem_lock = Some 1, sem_count = 7\<rparr> = None \<or>
      \<not> al_name \<lparr>al_name = True, al_wchan = False\<rparr> \<or> \<not> al_wchan \<lparr>al_name = True, al_wchan = False\<rparr>"
    by simp
  have h4: "(None :: lock option) = None \<or> \<not> al_name all_ok \<or> \<not> al_wchan all_ok"
    by simp
  have h5: "Some \<lparr>cv_name = Ptr 8, cv_wchan = Ptr 9\<rparr> = None \<or>
      \<not> al_name \<lparr>al_name = False, al_wchan = True\<rparr> \<or> \<not> al_wchan \<lparr>al_name = False, al_wchan = True\<rparr>"
    by simp
  have h6: "al_name all_ok" and h7: "al_wchan all_ok"
    by (simp_all add: all_ok_def)
  from create_all_or_nothing [where name = "''s''"
      and gs = "\<lparr>sem_name = Ptr 8, sem_wchan = Ptr 9, sem_lock = Some 1, sem_count = 7\<rparr>"
      and gl = "\<lparr>lk_name = NULL, lk_wchan = NULL, lk_lock = None, lk_held = True, lk_owner = None\<rparr>"
      and gc = "\<lparr>cv_name = Ptr 8, cv_wchan = Ptr 9\<rparr>",
      OF heap_ok_boot h2 h3 h4 h5 h6 h7]
  show ?thesis
    by (simp add: boot_def all_ok_def sem_create_def lock_create_def cv_create_def
        kmalloc_sem_def kmalloc_lock_def kmalloc_cv_def kstrdup_def wchan_create_def Let_def
        eval_nat_numeral)
qed


section \<open>cv_signal and cv_broadcast\<close>

lemma cv_signal_runs:
  assumes "status c = Running" and "code c t = []" and "t_state (threads (st c) t) = S_READY"
    and "cvs (st c) v = Some m" and "cv_wchan m = Ptr w" and "wchans (st c) w = Some wc"
    and "wc_lock wc = None" and "lk \<noteq> NULL"
    and "cs = exec [Invoke t (C_cv_signal (Ptr v) lk), Step t, Step t, Step t] c"
  shows "status cs = Running \<and> code cs t = [] \<and>
         st cs =
           (case wc_threads wc of
              [] \<Rightarrow> st c
            | x # xs \<Rightarrow>
                set_t_state x S_READY
                  ((st c)\<lparr>wchans := (wchans (st c))(w \<mapsto> wc\<lparr>wc_threads := xs\<rparr>)\<rparr>)) \<and>
         trace t cs = trace t c @
           [Exec (Call (C_cv_signal (Ptr v) lk)), Exec (KASSERT (Ptr_not_null (Ptr v))),
            Exec (KASSERT (Ptr_not_null lk)), Exec (Wchan_wakeone (Cv_wchan_of (Ptr v))),
            Exec (Return (C_cv_signal (Ptr v) lk))]"
  using assms
  by (cases "wc_threads wc") (auto simp: run_simps set_t_state_def)

lemma cv_broadcast_runs:
  assumes "status c = Running" and "code c t = []" and "t_state (threads (st c) t) = S_READY"
    and "cvs (st c) v = Some m" and "cv_wchan m = Ptr w" and "wchans (st c) w = Some wc"
    and "wc_lock wc = None" and "lk \<noteq> NULL"
    and "cb = exec [Invoke t (C_cv_broadcast (Ptr v) lk), Step t, Step t, Step t] c"
  shows "status cb = Running \<and> code cb t = [] \<and>
         st cb =
           fold (\<lambda>x. set_t_state x S_READY) (wc_threads wc)
             ((st c)\<lparr>wchans := (wchans (st c))(w \<mapsto> wc\<lparr>wc_threads := []\<rparr>)\<rparr>) \<and>
         trace t cb = trace t c @
           [Exec (Call (C_cv_broadcast (Ptr v) lk)), Exec (KASSERT (Ptr_not_null (Ptr v))),
            Exec (KASSERT (Ptr_not_null lk)), Exec (Wchan_wakeall (Cv_wchan_of (Ptr v))),
            Exec (Return (C_cv_broadcast (Ptr v) lk))]"
  using assms
  by (auto simp: run_simps set_t_state_def)

text \<open>
  C7. cv_signal and cv_broadcast, run by a thread on a condition variable whose wait
  channel is not locked, with any non-NULL lock pointer. cv_signal returns; if no thread
  waits the kernel state is unchanged (nothing is remembered), otherwise the thread at
  the head of the queue leaves the queue and becomes runnable and nothing else changes.
  cv_broadcast returns with the queue empty and every thread that was in it runnable.
  The traces show all that runs: the two NULL tests and the wake-up. Nothing is assumed
  about the lock but that the pointer is not NULL: neither function looks at its owner.
\<close>

theorem cv_signal_broadcast_wake:
  assumes "status c = Running" and "code c t = []" and "t_state (threads (st c) t) = S_READY"
    and "cvs (st c) v = Some m" and "cv_wchan m = Ptr w" and "wchans (st c) w = Some wc"
    and "wc_lock wc = None" and "lk \<noteq> NULL"
    and "cs = exec [Invoke t (C_cv_signal (Ptr v) lk), Step t, Step t, Step t] c"
    and "cb = exec [Invoke t (C_cv_broadcast (Ptr v) lk), Step t, Step t, Step t] c"
  shows "status cs = Running \<and> code cs t = [] \<and>
         st cs =
           (case wc_threads wc of
              [] \<Rightarrow> st c
            | x # xs \<Rightarrow>
                set_t_state x S_READY
                  ((st c)\<lparr>wchans := (wchans (st c))(w \<mapsto> wc\<lparr>wc_threads := xs\<rparr>)\<rparr>)) \<and>
         trace t cs = trace t c @
           [Exec (Call (C_cv_signal (Ptr v) lk)), Exec (KASSERT (Ptr_not_null (Ptr v))),
            Exec (KASSERT (Ptr_not_null lk)), Exec (Wchan_wakeone (Cv_wchan_of (Ptr v))),
            Exec (Return (C_cv_signal (Ptr v) lk))] \<and>
         status cb = Running \<and> code cb t = [] \<and>
         st cb =
           fold (\<lambda>x. set_t_state x S_READY) (wc_threads wc)
             ((st c)\<lparr>wchans := (wchans (st c))(w \<mapsto> wc\<lparr>wc_threads := []\<rparr>)\<rparr>) \<and>
         map_option wc_threads (wchans (st cb) w) = Some [] \<and>
         (\<forall>x \<in> set (wc_threads wc). t_state (threads (st cb) x) = S_READY) \<and>
         trace t cb = trace t c @
           [Exec (Call (C_cv_broadcast (Ptr v) lk)), Exec (KASSERT (Ptr_not_null (Ptr v))),
            Exec (KASSERT (Ptr_not_null lk)), Exec (Wchan_wakeall (Cv_wchan_of (Ptr v))),
            Exec (Return (C_cv_broadcast (Ptr v) lk))]"
proof -
  note s = cv_signal_runs [OF assms(1-9)]
  note b = cv_broadcast_runs [OF assms(1-8) assms(10)]
  from b have "map_option wc_threads (wchans (st cb) w) = Some []"
    and "\<forall>x \<in> set (wc_threads wc). t_state (threads (st cb) x) = S_READY"
    by (simp_all add: fold_wake_wchans fold_wake_t_state)
  with s b show ?thesis by blast
qed

theorem cv_signal_broadcast_wake_witness:
  "lock_do_i_hold 5 (Ptr 3) (st scene_held) = Done False \<and>
   map_option wc_threads (wchans (st scene_held) 8) = Some [1] \<and>
   t_state (threads (st scene_held) 1) = S_SLEEP \<and>
   status (exec [Invoke 5 (C_cv_signal (Ptr 6) (Ptr 3)), Step 5, Step 5, Step 5] scene_held)
     = Running \<and>
   st (exec [Invoke 5 (C_cv_signal (Ptr 6) (Ptr 3)), Step 5, Step 5, Step 5] scene_held) =
     set_t_state 1 S_READY ((st scene_held)\<lparr>wchans := (wchans (st scene_held))
        (8 \<mapsto> \<lparr>wc_name = Ptr 7, wc_lock = None, wc_threads = []\<rparr>)\<rparr>) \<and>
   status (exec [Invoke 5 (C_cv_broadcast (Ptr 6) (Ptr 3)), Step 5, Step 5, Step 5] scene_held)
     = Running \<and>
   map_option wc_threads
     (wchans (st (exec [Invoke 5 (C_cv_broadcast (Ptr 6) (Ptr 3)), Step 5, Step 5, Step 5]
        scene_held)) 8) = Some []"
proof -
  define cs where
    "cs = exec [Invoke 5 (C_cv_signal (Ptr 6) (Ptr 3)), Step 5, Step 5, Step 5] scene_held"
  define cb where
    "cb = exec [Invoke 5 (C_cv_broadcast (Ptr 6) (Ptr 3)), Step 5, Step 5, Step 5] scene_held"
  have h3: "t_state (threads (st scene_held) 5) = S_READY"
    by (simp add: scene_held_st)
  have h4: "cvs (st scene_held) 6 = Some \<lparr>cv_name = Ptr 7, cv_wchan = Ptr 8\<rparr>"
    by (simp add: scene_held_st)
  have h5: "cv_wchan \<lparr>cv_name = Ptr 7, cv_wchan = Ptr 8\<rparr> = Ptr 8"
    by simp
  have h6: "wchans (st scene_held) 8 = Some \<lparr>wc_name = Ptr 7, wc_lock = None, wc_threads = [1]\<rparr>"
    by (simp add: scene_held_st)
  have h7: "wc_lock \<lparr>wc_name = Ptr 7, wc_lock = None, wc_threads = [1]\<rparr> = None"
    by simp
  have h8: "Ptr 3 \<noteq> NULL"
    by simp
  have a: "lock_do_i_hold 5 (Ptr 3) (st scene_held) = Done False"
    by (simp add: scene_held_st lock_do_i_hold_def)
  have b: "t_state (threads (st scene_held) 1) = S_SLEEP"
    by (simp add: scene_held_st)
  have q: "map_option wc_threads (wchans (st scene_held) 8) = Some [1]"
    by (simp add: scene_held_st)
  note w = cv_signal_broadcast_wake
    [OF scene_held_status scene_held_code h3 h4 h5 h6 h7 h8 cs_def cb_def]
  from w have 1: "status cs = Running"
    and 3: "status cb = Running"
    and 4: "map_option wc_threads (wchans (st cb) 8) = Some []"
    by blast+
  from w have 2: "st cs = set_t_state 1 S_READY ((st scene_held)\<lparr>wchans := (wchans (st scene_held))
        (8 \<mapsto> \<lparr>wc_name = Ptr 7, wc_lock = None, wc_threads = []\<rparr>)\<rparr>)"
    by simp
  from a q b 1 2 3 4 show ?thesis
    unfolding cs_def cb_def by blast
qed


section \<open>Destruction\<close>

lemma sem_destroy_with_waiters:
  assumes "status c = Running" and "code c t = []" and "t_state (threads (st c) t) = S_READY"
    and "sems (st c) a = Some sm" and "sem_wchan sm = Ptr ws" and "wchans (st c) ws = Some wcs"
    and "wc_threads wcs \<noteq> []"
    and "cs = exec (Invoke t (C_sem_destroy (Ptr a)) # replicate 5 (Step t)) c"
  shows "status cs = Panicked \<and> st cs = st c \<and>
         code cs t = [Wchan_destroy (Sem_wchan_of (Ptr a)), Kfree_name (Sem_name_of (Ptr a)),
           Kfree_sem (Ptr a), Return (C_sem_destroy (Ptr a))] \<and>
         trace t cs = trace t c @
           [Exec (Call (C_sem_destroy (Ptr a))), Exec (KASSERT (Ptr_not_null (Ptr a))),
            Exec (Spinlock_cleanup (Sem_lock_of (Ptr a)))]"
  using assms by (auto simp: run_simps replicate_num)

lemma lock_destroy_with_waiters:
  assumes "status c = Running" and "code c t = []" and "t_state (threads (st c) t) = S_READY"
    and "locks (st c) l = Some lm" and "lk_wchan lm = Ptr wl" and "wchans (st c) wl = Some wcl"
    and "wc_threads wcl \<noteq> []"
    and "cl = exec (Invoke t (C_lock_destroy (Ptr l)) # replicate 6 (Step t)) c"
  shows "status cl = Panicked \<and>
         st cl = (st c)\<lparr>locks := (locks (st c))(l \<mapsto> lm\<lparr>lk_owner := None\<rparr>)\<rparr> \<and>
         code cl t = [Wchan_destroy (Lk_wchan_of (Ptr l)), Kfree_name (Lk_name_of (Ptr l)),
           Kfree_lock (Ptr l), Return (C_lock_destroy (Ptr l))] \<and>
         trace t cl = trace t c @
           [Exec (Call (C_lock_destroy (Ptr l))), Exec (KASSERT (Ptr_not_null (Ptr l))),
            Exec (Set_lk_owner_null (Ptr l)), Exec (Spinlock_cleanup (Lk_lock_of (Ptr l)))]"
  using assms by (auto simp: run_simps replicate_num)

lemma cv_destroy_with_waiters:
  assumes "status c = Running" and "code c t = []" and "t_state (threads (st c) t) = S_READY"
    and "cvs (st c) v = Some vm" and "cv_wchan vm = Ptr wv" and "wchans (st c) wv = Some wcv"
    and "wc_threads wcv \<noteq> []"
    and "cc = exec (Invoke t (C_cv_destroy (Ptr v)) # replicate 4 (Step t)) c"
  shows "status cc = Panicked \<and> st cc = st c \<and>
         code cc t = [Wchan_destroy (Cv_wchan_of (Ptr v)), Kfree_name (Cv_name_of (Ptr v)),
           Kfree_cv (Ptr v), Return (C_cv_destroy (Ptr v))] \<and>
         trace t cc = trace t c @
           [Exec (Call (C_cv_destroy (Ptr v))), Exec (KASSERT (Ptr_not_null (Ptr v)))]"
  using assms by (auto simp: run_simps replicate_num)

lemma lock_destroy_without_waiters:
  assumes "status d = Running" and "code d u = []" and "t_state (threads (st d) u) = S_READY"
    and "locks (st d) k = Some km" and "lk_wchan km = Ptr wk" and "wchans (st d) wk = Some wck"
    and "wc_threads wck = []"
    and "cd = exec (Invoke u (C_lock_destroy (Ptr k)) # replicate 6 (Step u)) d"
  shows "status cd = Running \<and> code cd u = [] \<and>
         st cd = kfree_str (lk_name km)
           ((st d)\<lparr>wchans := (wchans (st d))(wk := None), locks := (locks (st d))(k := None)\<rparr>) \<and>
         trace u cd = trace u d @
           [Exec (Call (C_lock_destroy (Ptr k))), Exec (KASSERT (Ptr_not_null (Ptr k))),
            Exec (Set_lk_owner_null (Ptr k)), Exec (Spinlock_cleanup (Lk_lock_of (Ptr k))),
            Exec (Wchan_destroy (Lk_wchan_of (Ptr k))), Exec (Kfree_name (Lk_name_of (Ptr k))),
            Exec (Kfree_lock (Ptr k)), Exec (Return (C_lock_destroy (Ptr k)))]"
  using assms by (cases "lk_name km") (auto simp: run_simps replicate_num)

text \<open>
  C9, as the code has it. Each of sem_destroy, lock_destroy and cv_destroy, on a
  primitive whose wait channel still queues a thread, halts the kernel at wchan_destroy:
  the statements run before it are the KASSERT and the spinlock's cleanup (for the lock,
  the clearing of the owner comes between the two), wchan_destroy and the two kfrees are
  still to run, the primitive is not freed (it is still in the heap), and of its fields
  only the lock's owner has changed. lock_destroy never reads lk_held: on a lock without
  waiters, held or not, it runs to the end, in this order: KASSERT, owner cleared,
  spinlock_cleanup, wchan_destroy, the name freed, the lock freed, return. The four
  cases are independent of each other.
\<close>

theorem destroy_with_waiters_fatal:
  assumes "status c1 = Running" and "code c1 t1 = []" and "t_state (threads (st c1) t1) = S_READY"
    and "sems (st c1) a = Some sm" and "sem_wchan sm = Ptr ws" and "wchans (st c1) ws = Some wcs"
    and "wc_threads wcs \<noteq> []"
    and "cs = exec (Invoke t1 (C_sem_destroy (Ptr a)) # replicate 5 (Step t1)) c1"
    and "status c2 = Running" and "code c2 t2 = []" and "t_state (threads (st c2) t2) = S_READY"
    and "locks (st c2) l = Some lm" and "lk_wchan lm = Ptr wl" and "wchans (st c2) wl = Some wcl"
    and "wc_threads wcl \<noteq> []"
    and "cl = exec (Invoke t2 (C_lock_destroy (Ptr l)) # replicate 6 (Step t2)) c2"
    and "status c3 = Running" and "code c3 t3 = []" and "t_state (threads (st c3) t3) = S_READY"
    and "cvs (st c3) v = Some vm" and "cv_wchan vm = Ptr wv" and "wchans (st c3) wv = Some wcv"
    and "wc_threads wcv \<noteq> []"
    and "cc = exec (Invoke t3 (C_cv_destroy (Ptr v)) # replicate 4 (Step t3)) c3"
    and "status d = Running" and "code d u = []" and "t_state (threads (st d) u) = S_READY"
    and "locks (st d) k = Some km" and "lk_wchan km = Ptr wk" and "wchans (st d) wk = Some wck"
    and "wc_threads wck = []"
    and "cd = exec (Invoke u (C_lock_destroy (Ptr k)) # replicate 6 (Step u)) d"
  shows "(status cs = Panicked \<and> st cs = st c1 \<and>
          code cs t1 = [Wchan_destroy (Sem_wchan_of (Ptr a)), Kfree_name (Sem_name_of (Ptr a)),
            Kfree_sem (Ptr a), Return (C_sem_destroy (Ptr a))] \<and>
          trace t1 cs = trace t1 c1 @
            [Exec (Call (C_sem_destroy (Ptr a))), Exec (KASSERT (Ptr_not_null (Ptr a))),
             Exec (Spinlock_cleanup (Sem_lock_of (Ptr a)))]) \<and>
         (status cl = Panicked \<and>
          st cl = (st c2)\<lparr>locks := (locks (st c2))(l \<mapsto> lm\<lparr>lk_owner := None\<rparr>)\<rparr> \<and>
          code cl t2 = [Wchan_destroy (Lk_wchan_of (Ptr l)), Kfree_name (Lk_name_of (Ptr l)),
            Kfree_lock (Ptr l), Return (C_lock_destroy (Ptr l))] \<and>
          trace t2 cl = trace t2 c2 @
            [Exec (Call (C_lock_destroy (Ptr l))), Exec (KASSERT (Ptr_not_null (Ptr l))),
             Exec (Set_lk_owner_null (Ptr l)), Exec (Spinlock_cleanup (Lk_lock_of (Ptr l)))]) \<and>
         (status cc = Panicked \<and> st cc = st c3 \<and>
          code cc t3 = [Wchan_destroy (Cv_wchan_of (Ptr v)), Kfree_name (Cv_name_of (Ptr v)),
            Kfree_cv (Ptr v), Return (C_cv_destroy (Ptr v))] \<and>
          trace t3 cc = trace t3 c3 @
            [Exec (Call (C_cv_destroy (Ptr v))), Exec (KASSERT (Ptr_not_null (Ptr v)))]) \<and>
         (status cd = Running \<and> code cd u = [] \<and>
          st cd = kfree_str (lk_name km)
            ((st d)\<lparr>wchans := (wchans (st d))(wk := None), locks := (locks (st d))(k := None)\<rparr>) \<and>
          trace u cd = trace u d @
            [Exec (Call (C_lock_destroy (Ptr k))), Exec (KASSERT (Ptr_not_null (Ptr k))),
             Exec (Set_lk_owner_null (Ptr k)), Exec (Spinlock_cleanup (Lk_lock_of (Ptr k))),
             Exec (Wchan_destroy (Lk_wchan_of (Ptr k))), Exec (Kfree_name (Lk_name_of (Ptr k))),
             Exec (Kfree_lock (Ptr k)), Exec (Return (C_lock_destroy (Ptr k)))])"
  by (intro conjI sem_destroy_with_waiters [OF assms(1-8)]
      lock_destroy_with_waiters [OF assms(9-16)]
      cv_destroy_with_waiters [OF assms(17-24)]
      lock_destroy_without_waiters [OF assms(25-32)])

lemma sem_made_eq:
  "sem_made =
     \<lparr>threads = (\<lambda>t. \<lparr>t_in_interrupt = False, t_state = S_READY\<rparr>),
      strs = [1 \<mapsto> ''sem''],
      wchans = [2 \<mapsto> \<lparr>wc_name = Ptr 1, wc_lock = None, wc_threads = []\<rparr>],
      sems = [0 \<mapsto> \<lparr>sem_name = Ptr 1, sem_wchan = Ptr 2, sem_lock = None, sem_count = 0\<rparr>],
      locks = Map.empty, cvs = Map.empty, brk = 3\<rparr>"
  by (simp add: sem_made_def all_ok_def boot_def sem_create_def
      kmalloc_sem_def kstrdup_def wchan_create_def Let_def eval_nat_numeral)

lemma sem_waiting_status: "status sem_waiting = Running"
  by (simp add: sem_waiting_def sem_made_eq start_def run_simps set_t_state_def replicate_num)

lemma sem_waiting_code: "code sem_waiting 5 = []"
  by (simp add: sem_waiting_def sem_made_eq start_def run_simps set_t_state_def replicate_num)

lemma sem_waiting_st:
  "st sem_waiting =
     \<lparr>threads = (\<lambda>t. \<lparr>t_in_interrupt = False,
                        t_state = (if t = 3 then S_SLEEP else S_READY)\<rparr>),
      strs = [1 \<mapsto> ''sem''],
      wchans = [2 \<mapsto> \<lparr>wc_name = Ptr 1, wc_lock = None, wc_threads = [3]\<rparr>],
      sems = [0 \<mapsto> \<lparr>sem_name = Ptr 1, sem_wchan = Ptr 2, sem_lock = None, sem_count = 0\<rparr>],
      locks = Map.empty, cvs = Map.empty, brk = 3\<rparr>"
  by (auto simp add: sem_waiting_def sem_made_eq start_def run_simps set_t_state_def
      replicate_num fun_eq_iff)

theorem destroy_with_waiters_fatal_witness:
  "locks (st sem_waiting) = Map.empty \<and> cvs (st sem_waiting) = Map.empty \<and>
   map_option wc_threads (wchans (st sem_waiting) 2) = Some [3] \<and>
   map_option wc_threads (wchans (st scene_blocked) 5) = Some [4] \<and>
   map_option wc_threads (wchans (st scene_blocked) 8) = Some [1] \<and>
   status (exec (Invoke 5 (C_sem_destroy (Ptr 0)) # replicate 5 (Step 5)) sem_waiting)
     = Panicked \<and>
   st (exec (Invoke 5 (C_sem_destroy (Ptr 0)) # replicate 5 (Step 5)) sem_waiting)
     = st sem_waiting \<and>
   status (exec (Invoke 5 (C_lock_destroy (Ptr 3)) # replicate 6 (Step 5)) scene_blocked)
     = Panicked \<and>
   trace 5 (exec (Invoke 5 (C_lock_destroy (Ptr 3)) # replicate 6 (Step 5)) scene_blocked) =
     trace 5 scene_blocked @
       [Exec (Call (C_lock_destroy (Ptr 3))), Exec (KASSERT (Ptr_not_null (Ptr 3))),
        Exec (Set_lk_owner_null (Ptr 3)), Exec (Spinlock_cleanup (Lk_lock_of (Ptr 3)))] \<and>
   status (exec (Invoke 5 (C_cv_destroy (Ptr 6)) # replicate 4 (Step 5)) scene_blocked)
     = Panicked \<and>
   status (exec (Invoke 5 (C_lock_destroy (Ptr 3)) # replicate 6 (Step 5)) scene_held)
     = Running \<and>
   code (exec (Invoke 5 (C_lock_destroy (Ptr 3)) # replicate 6 (Step 5)) scene_held) 5 = []"
proof -
  have a3: "t_state (threads (st sem_waiting) 5) = S_READY"
    by (simp add: sem_waiting_st)
  have s1: "sems (st sem_waiting) 0 =
      Some \<lparr>sem_name = Ptr 1, sem_wchan = Ptr 2, sem_lock = None, sem_count = 0\<rparr>"
    by (simp add: sem_waiting_st)
  have s2: "sem_wchan \<lparr>sem_name = Ptr 1, sem_wchan = Ptr 2, sem_lock = None, sem_count = 0\<rparr> = Ptr 2"
    by simp
  have s3: "wchans (st sem_waiting) 2 = Some \<lparr>wc_name = Ptr 1, wc_lock = None, wc_threads = [3]\<rparr>"
    by (simp add: sem_waiting_st)
  have s4: "wc_threads \<lparr>wc_name = Ptr 1, wc_lock = None, wc_threads = [3]\<rparr> \<noteq> []"
    by simp
  have c3: "t_state (threads (st scene_blocked) 5) = S_READY"
    by (simp add: scene_blocked_st)
  have l1: "locks (st scene_blocked) 3 =
      Some \<lparr>lk_name = Ptr 4, lk_wchan = Ptr 5, lk_lock = None, lk_held = True, lk_owner = Some 2\<rparr>"
    by (simp add: scene_blocked_st)
  have l2: "lk_wchan \<lparr>lk_name = Ptr 4, lk_wchan = Ptr 5, lk_lock = None, lk_held = True,
      lk_owner = Some 2\<rparr> = Ptr 5"
    by simp
  have l3: "wchans (st scene_blocked) 5 = Some \<lparr>wc_name = Ptr 4, wc_lock = None, wc_threads = [4]\<rparr>"
    by (simp add: scene_blocked_st)
  have l4: "wc_threads \<lparr>wc_name = Ptr 4, wc_lock = None, wc_threads = [4]\<rparr> \<noteq> []"
    by simp
  have v1: "cvs (st scene_blocked) 6 = Some \<lparr>cv_name = Ptr 7, cv_wchan = Ptr 8\<rparr>"
    by (simp add: scene_blocked_st)
  have v2: "cv_wchan \<lparr>cv_name = Ptr 7, cv_wchan = Ptr 8\<rparr> = Ptr 8"
    by simp
  have v3: "wchans (st scene_blocked) 8 = Some \<lparr>wc_name = Ptr 7, wc_lock = None, wc_threads = [1]\<rparr>"
    by (simp add: scene_blocked_st)
  have v4: "wc_threads \<lparr>wc_name = Ptr 7, wc_lock = None, wc_threads = [1]\<rparr> \<noteq> []"
    by simp
  have d3: "t_state (threads (st scene_held) 5) = S_READY"
    by (simp add: scene_held_st)
  have k1: "locks (st scene_held) 3 =
      Some \<lparr>lk_name = Ptr 4, lk_wchan = Ptr 5, lk_lock = None, lk_held = True, lk_owner = Some 2\<rparr>"
    by (simp add: scene_held_st)
  have k3: "wchans (st scene_held) 5 = Some \<lparr>wc_name = Ptr 4, wc_lock = None, wc_threads = []\<rparr>"
    by (simp add: scene_held_st)
  have k4: "wc_threads \<lparr>wc_name = Ptr 4, wc_lock = None, wc_threads = []\<rparr> = []"
    by simp
  have q: "locks (st sem_waiting) = Map.empty" "cvs (st sem_waiting) = Map.empty"
    "map_option wc_threads (wchans (st sem_waiting) 2) = Some [3]"
    "map_option wc_threads (wchans (st scene_blocked) 5) = Some [4]"
    "map_option wc_threads (wchans (st scene_blocked) 8) = Some [1]"
    by (simp_all add: scene_blocked_st sem_waiting_st)
  from q destroy_with_waiters_fatal
    [OF sem_waiting_status sem_waiting_code a3 s1 s2 s3 s4 refl
        scene_blocked_status scene_blocked_code c3 l1 l2 l3 l4 refl
        scene_blocked_status scene_blocked_code c3 v1 v2 v3 v4 refl
        scene_held_status scene_held_code d3 k1 l2 k3 k4 refl]
  show ?thesis by blast
qed

text \<open>
  C9 as stated fails: in \<open>scene_held\<close> the lock at address 3 is held by thread 2 and
  nobody waits for it; thread 5 destroys it, lock_destroy returns, the kernel keeps
  running and the lock is gone from the heap.
\<close>

theorem lock_destroy_held_counterexample:
  "map_option lk_held (locks (st scene_held) 3) = Some True \<and>
   map_option lk_owner (locks (st scene_held) 3) = Some (Some 2) \<and>
   status (exec (Invoke 5 (C_lock_destroy (Ptr 3)) # replicate 6 (Step 5)) scene_held)
     = Running \<and>
   code (exec (Invoke 5 (C_lock_destroy (Ptr 3)) # replicate 6 (Step 5)) scene_held) 5 = [] \<and>
   locks (st (exec (Invoke 5 (C_lock_destroy (Ptr 3)) # replicate 6 (Step 5)) scene_held)) 3
     = None"
  by (simp add: scene_held_st scene_held_status scene_held_code run_simps replicate_num)

section \<open>The semaphore invariant\<close>

lemma sem_code_Nil: "sem_code a l = [] \<longleftrightarrow> l = S_idle"
  by (cases l) (auto simp: P_def V_def)

text \<open>The master rule: a step of thread t that changes the semaphore, the channel and thread states.\<close>

lemma sem_inv_advance:
  assumes f: "sem_facts a w n c m wc" and run: "status c \<noteq> Faulted"
    and s1: "sems s' a = Some m'" and s2: "sem_wchan m' = Ptr w" and s3: "wchans s' w = Some wc'"
    and l': "after_returns rest = sem_code a l'"
    and b': "b' = sem_base a n (advance t ev rest s' c)"
    and ok: "sem_thread_ok s' b' m' wc' t l'"
    and fr: "\<And>t'. t' \<noteq> t \<Longrightarrow>
        (sem_lock m' = Some t') = (sem_lock m = Some t') \<and>
        (wc_lock wc' = Some t') = (wc_lock wc = Some t') \<and>
        (t_state (threads s' t') = S_SLEEP \<longrightarrow> t_state (threads (st c) t') = S_SLEEP)"
    and cnt: "\<And>t'. t' \<noteq> t \<Longrightarrow> sem_lock m = Some t' \<Longrightarrow>
        sem_count m' = sem_count m \<and> b' = sem_base a n c"
    and free: "sem_lock m' = None \<Longrightarrow> sint (sem_count m') = b' \<and> 0 \<le> b'"
  shows "sem_inv a w n (advance t ev rest s' c)"
proof -
  let ?c' = "advance t ev rest s' c"
  have "\<exists>l. code ?c' t' = sem_code a l \<and> sem_thread_ok (st ?c') (sem_base a n ?c') m' wc' t' l" for t'
  proof (cases "t' = t")
    case True
    with l' ok b' show ?thesis by (auto simp: advance_code advance_st)
  next
    case False
    from f obtain l where l: "code c t' = sem_code a l"
      and o: "sem_thread_ok (st c) (sem_base a n c) m wc t' l"
      by (auto simp: sem_facts_def)
    from o fr [OF False] cnt [OF False] b'
    have "sem_thread_ok s' b' m' wc' t' l"
      by (auto simp: sem_thread_ok_def)
    with l False b' show ?thesis by (auto simp: advance_code advance_st)
  qed
  with s1 s2 s3 free b' have "sem_facts a w n ?c' m' wc'"
    by (simp add: sem_facts_def advance_st)
  with run show ?thesis by (auto simp: sem_inv_def advance_status)
qed

lemmas sem_step_simps = run_instr_def P_def V_def spinlock_acquire_def spinlock_release_def
  wchan_lock_def wchan_sleep_def wchan_wakeone_def

lemma sem_inv_same:
  assumes "sem_facts a w n c m wc" and "status c \<noteq> Faulted"
  shows "sem_inv a w n c"
  using assms by (auto simp: sem_inv_def)

lemma sem_inv_halt:
  assumes "sem_facts a w n c m wc"
  shows "sem_inv a w n (c\<lparr>status := Panicked\<rparr>)"
proof -
  from assms have "sem_facts a w n (c\<lparr>status := Panicked\<rparr>) m wc"
    by (simp add: sem_facts_def sem_base_def completed_def)
  then show ?thesis by (auto simp: sem_inv_def)
qed

lemma sem_at_P0:
  assumes f: "sem_facts a w n c m wc" and run: "status c = Running"
    and ready: "t_state (threads (st c) t) = S_READY"
    and code: "code c t = sem_code a (S_P 0)"
    and ok: "sem_thread_ok (st c) (sem_base a n c) m wc t (S_P 0)"
  shows "sem_inv a w n (step (Step t) c)"
proof -
  from f have m: "sems (st c) a = Some m" "sem_wchan m = Ptr w" "wchans (st c) w = Some wc"
    by (auto simp: sem_facts_def)
  from f have fr: "sem_lock m = None \<Longrightarrow> sint (sem_count m) = sem_base a n c \<and> 0 \<le> sem_base a n c"
    by (auto simp: sem_facts_def)
  have nz: "sem_count m \<noteq> 0 \<Longrightarrow> sint (sem_count m) \<noteq> 0"
    by (simp add: signed_eq_0_iff)
  have nf: "status c \<noteq> Faulted"
    using run by simp
  note k = m run ready code ok fr nz
  {
    assume q: "True"
    have e: "step (Step t) c = advance t (Exec (KASSERT (Ptr_not_null (Ptr a)))) (sem_code a (S_P 1)) (st c) c"
      using k q by (auto simp: sem_step_simps sem_thread_ok_def split: list.splits)
    have "sem_inv a w n (step (Step t) c)"
      unfolding e
      by (rule sem_inv_advance [OF f nf, where m' = "m" and wc' = "wc"
            and l' = "S_P 1" and b' = "sem_base a n c"])
         (use k q in \<open>auto simp: sem_thread_ok_def sem_base_def completed_advance P_def V_def
            set_t_state_def sint_decr sint_incr signed_eq_0_iff\<close>)
  }
  then show ?thesis by simp
qed

lemma sem_at_P1:
  assumes f: "sem_facts a w n c m wc" and run: "status c = Running"
    and ready: "t_state (threads (st c) t) = S_READY"
    and code: "code c t = sem_code a (S_P 1)"
    and ok: "sem_thread_ok (st c) (sem_base a n c) m wc t (S_P 1)"
  shows "sem_inv a w n (step (Step t) c)"
proof -
  from f have m: "sems (st c) a = Some m" "sem_wchan m = Ptr w" "wchans (st c) w = Some wc"
    by (auto simp: sem_facts_def)
  from f have fr: "sem_lock m = None \<Longrightarrow> sint (sem_count m) = sem_base a n c \<and> 0 \<le> sem_base a n c"
    by (auto simp: sem_facts_def)
  have nz: "sem_count m \<noteq> 0 \<Longrightarrow> sint (sem_count m) \<noteq> 0"
    by (simp add: signed_eq_0_iff)
  have nf: "status c \<noteq> Faulted"
    using run by simp
  note k = m run ready code ok fr nz
  {
    assume q: "\<not> t_in_interrupt (threads (st c) t)"
    have e: "step (Step t) c = advance t (Exec (KASSERT Not_in_interrupt)) (sem_code a (S_P 2)) (st c) c"
      using k q by (auto simp: sem_step_simps sem_thread_ok_def split: list.splits)
    have "sem_inv a w n (step (Step t) c)"
      unfolding e
      by (rule sem_inv_advance [OF f nf, where m' = "m" and wc' = "wc"
            and l' = "S_P 2" and b' = "sem_base a n c"])
         (use k q in \<open>auto simp: sem_thread_ok_def sem_base_def completed_advance P_def V_def
            set_t_state_def sint_decr sint_incr signed_eq_0_iff\<close>)
  }
  moreover
  {
    assume q: "t_in_interrupt (threads (st c) t)"
    have "step (Step t) c = c\<lparr>status := Panicked\<rparr>"
      using k q by (auto simp: sem_step_simps sem_thread_ok_def)
    with f have "sem_inv a w n (step (Step t) c)"
      by (simp add: sem_inv_halt)
  }
  ultimately show ?thesis
    by blast
qed

lemma sem_at_P2:
  assumes f: "sem_facts a w n c m wc" and run: "status c = Running"
    and ready: "t_state (threads (st c) t) = S_READY"
    and code: "code c t = sem_code a (S_P 2)"
    and ok: "sem_thread_ok (st c) (sem_base a n c) m wc t (S_P 2)"
  shows "sem_inv a w n (step (Step t) c)"
proof -
  from f have m: "sems (st c) a = Some m" "sem_wchan m = Ptr w" "wchans (st c) w = Some wc"
    by (auto simp: sem_facts_def)
  from f have fr: "sem_lock m = None \<Longrightarrow> sint (sem_count m) = sem_base a n c \<and> 0 \<le> sem_base a n c"
    by (auto simp: sem_facts_def)
  have nz: "sem_count m \<noteq> 0 \<Longrightarrow> sint (sem_count m) \<noteq> 0"
    by (simp add: signed_eq_0_iff)
  have nf: "status c \<noteq> Faulted"
    using run by simp
  note k = m run ready code ok fr nz
  {
    assume q: "sem_lock m = None"
    have e: "step (Step t) c = advance t (Exec (Spinlock_acquire (Sem_lock_of (Ptr a)))) (sem_code a (S_P 3)) ((st c)\<lparr>sems := (sems (st c))(a \<mapsto> m\<lparr>sem_lock := Some t\<rparr>)\<rparr>) c"
      using k q by (auto simp: sem_step_simps sem_thread_ok_def split: list.splits)
    have "sem_inv a w n (step (Step t) c)"
      unfolding e
      by (rule sem_inv_advance [OF f nf, where m' = "m\<lparr>sem_lock := Some t\<rparr>" and wc' = "wc"
            and l' = "S_P 3" and b' = "sem_base a n c"])
         (use k q in \<open>auto simp: sem_thread_ok_def sem_base_def completed_advance P_def V_def
            set_t_state_def sint_decr sint_incr signed_eq_0_iff\<close>)
  }
  moreover
  {
    assume q: "sem_lock m \<noteq> None"
    have "step (Step t) c = c"
      using k q by (auto simp: sem_step_simps sem_thread_ok_def)
    with f nf have "sem_inv a w n (step (Step t) c)"
      by (simp add: sem_inv_same)
  }
  ultimately show ?thesis
    by (cases "sem_lock m") auto
qed

lemma sem_at_P3:
  assumes f: "sem_facts a w n c m wc" and run: "status c = Running"
    and ready: "t_state (threads (st c) t) = S_READY"
    and code: "code c t = sem_code a (S_P 3)"
    and ok: "sem_thread_ok (st c) (sem_base a n c) m wc t (S_P 3)"
  shows "sem_inv a w n (step (Step t) c)"
proof -
  from f have m: "sems (st c) a = Some m" "sem_wchan m = Ptr w" "wchans (st c) w = Some wc"
    by (auto simp: sem_facts_def)
  from f have fr: "sem_lock m = None \<Longrightarrow> sint (sem_count m) = sem_base a n c \<and> 0 \<le> sem_base a n c"
    by (auto simp: sem_facts_def)
  have nz: "sem_count m \<noteq> 0 \<Longrightarrow> sint (sem_count m) \<noteq> 0"
    by (simp add: signed_eq_0_iff)
  have nf: "status c \<noteq> Faulted"
    using run by simp
  note k = m run ready code ok fr nz
  {
    assume q: "sem_count m = 0"
    have e: "step (Step t) c = advance t (Test (Sem_count_is_zero (Ptr a)) True) (sem_code a (S_PL 0)) (st c) c"
      using k q by (auto simp: sem_step_simps sem_thread_ok_def split: list.splits)
    have "sem_inv a w n (step (Step t) c)"
      unfolding e
      by (rule sem_inv_advance [OF f nf, where m' = "m" and wc' = "wc"
            and l' = "S_PL 0" and b' = "sem_base a n c"])
         (use k q in \<open>auto simp: sem_thread_ok_def sem_base_def completed_advance P_def V_def
            set_t_state_def sint_decr sint_incr signed_eq_0_iff\<close>)
  }
  moreover
  {
    assume q: "sem_count m \<noteq> 0"
    have e: "step (Step t) c = advance t (Test (Sem_count_is_zero (Ptr a)) False) (sem_code a (S_P 4)) (st c) c"
      using k q by (auto simp: sem_step_simps sem_thread_ok_def split: list.splits)
    have "sem_inv a w n (step (Step t) c)"
      unfolding e
      by (rule sem_inv_advance [OF f nf, where m' = "m" and wc' = "wc"
            and l' = "S_P 4" and b' = "sem_base a n c"])
         (use k q in \<open>auto simp: sem_thread_ok_def sem_base_def completed_advance P_def V_def
            set_t_state_def sint_decr sint_incr signed_eq_0_iff\<close>)
  }
  ultimately show ?thesis
    by blast
qed

lemma sem_at_P4:
  assumes f: "sem_facts a w n c m wc" and run: "status c = Running"
    and ready: "t_state (threads (st c) t) = S_READY"
    and code: "code c t = sem_code a (S_P 4)"
    and ok: "sem_thread_ok (st c) (sem_base a n c) m wc t (S_P 4)"
  shows "sem_inv a w n (step (Step t) c)"
proof -
  from f have m: "sems (st c) a = Some m" "sem_wchan m = Ptr w" "wchans (st c) w = Some wc"
    by (auto simp: sem_facts_def)
  from f have fr: "sem_lock m = None \<Longrightarrow> sint (sem_count m) = sem_base a n c \<and> 0 \<le> sem_base a n c"
    by (auto simp: sem_facts_def)
  have nz: "sem_count m \<noteq> 0 \<Longrightarrow> sint (sem_count m) \<noteq> 0"
    by (simp add: signed_eq_0_iff)
  have nf: "status c \<noteq> Faulted"
    using run by simp
  note k = m run ready code ok fr nz
  {
    assume q: "True"
    have e: "step (Step t) c = advance t (Exec (KASSERT (Sem_count_positive (Ptr a)))) (sem_code a (S_P 5)) (st c) c"
      using k q by (auto simp: sem_step_simps sem_thread_ok_def split: list.splits)
    have "sem_inv a w n (step (Step t) c)"
      unfolding e
      by (rule sem_inv_advance [OF f nf, where m' = "m" and wc' = "wc"
            and l' = "S_P 5" and b' = "sem_base a n c"])
         (use k q in \<open>auto simp: sem_thread_ok_def sem_base_def completed_advance P_def V_def
            set_t_state_def sint_decr sint_incr signed_eq_0_iff\<close>)
  }
  then show ?thesis by simp
qed

lemma sem_at_P5:
  assumes f: "sem_facts a w n c m wc" and run: "status c = Running"
    and ready: "t_state (threads (st c) t) = S_READY"
    and code: "code c t = sem_code a (S_P 5)"
    and ok: "sem_thread_ok (st c) (sem_base a n c) m wc t (S_P 5)"
  shows "sem_inv a w n (step (Step t) c)"
proof -
  from f have m: "sems (st c) a = Some m" "sem_wchan m = Ptr w" "wchans (st c) w = Some wc"
    by (auto simp: sem_facts_def)
  from f have fr: "sem_lock m = None \<Longrightarrow> sint (sem_count m) = sem_base a n c \<and> 0 \<le> sem_base a n c"
    by (auto simp: sem_facts_def)
  have nz: "sem_count m \<noteq> 0 \<Longrightarrow> sint (sem_count m) \<noteq> 0"
    by (simp add: signed_eq_0_iff)
  have nf: "status c \<noteq> Faulted"
    using run by simp
  note k = m run ready code ok fr nz
  {
    assume q: "True"
    have e: "step (Step t) c = advance t (Exec (Sem_count_decr (Ptr a))) (sem_code a (S_P 6)) ((st c)\<lparr>sems := (sems (st c))(a \<mapsto> m\<lparr>sem_count := sem_count m - 1\<rparr>)\<rparr>) c"
      using k q by (auto simp: sem_step_simps sem_thread_ok_def split: list.splits)
    have "sem_inv a w n (step (Step t) c)"
      unfolding e
      by (rule sem_inv_advance [OF f nf, where m' = "m\<lparr>sem_count := sem_count m - 1\<rparr>" and wc' = "wc"
            and l' = "S_P 6" and b' = "sem_base a n c"])
         (use k q in \<open>auto simp: sem_thread_ok_def sem_base_def completed_advance P_def V_def
            set_t_state_def sint_decr sint_incr signed_eq_0_iff\<close>)
  }
  then show ?thesis by simp
qed

lemma sem_at_P6:
  assumes f: "sem_facts a w n c m wc" and run: "status c = Running"
    and ready: "t_state (threads (st c) t) = S_READY"
    and code: "code c t = sem_code a (S_P 6)"
    and ok: "sem_thread_ok (st c) (sem_base a n c) m wc t (S_P 6)"
  shows "sem_inv a w n (step (Step t) c)"
proof -
  from f have m: "sems (st c) a = Some m" "sem_wchan m = Ptr w" "wchans (st c) w = Some wc"
    by (auto simp: sem_facts_def)
  from f have fr: "sem_lock m = None \<Longrightarrow> sint (sem_count m) = sem_base a n c \<and> 0 \<le> sem_base a n c"
    by (auto simp: sem_facts_def)
  have nz: "sem_count m \<noteq> 0 \<Longrightarrow> sint (sem_count m) \<noteq> 0"
    by (simp add: signed_eq_0_iff)
  have nf: "status c \<noteq> Faulted"
    using run by simp
  note k = m run ready code ok fr nz
  {
    assume q: "True"
    have e: "step (Step t) c = advance t (Exec (Spinlock_release (Sem_lock_of (Ptr a)))) ([Return (C_P (Ptr a))]) ((st c)\<lparr>sems := (sems (st c))(a \<mapsto> m\<lparr>sem_lock := None\<rparr>)\<rparr>) c"
      using k q by (auto simp: sem_step_simps sem_thread_ok_def split: list.splits)
    have "sem_inv a w n (step (Step t) c)"
      unfolding e
      by (rule sem_inv_advance [OF f nf, where m' = "m\<lparr>sem_lock := None\<rparr>" and wc' = "wc"
            and l' = "S_idle" and b' = "sem_base a n c - 1"])
         (use k q in \<open>auto simp: sem_thread_ok_def sem_base_def completed_advance P_def V_def
            set_t_state_def sint_decr sint_incr signed_eq_0_iff\<close>)
  }
  then show ?thesis by simp
qed

lemma sem_at_PL0:
  assumes f: "sem_facts a w n c m wc" and run: "status c = Running"
    and ready: "t_state (threads (st c) t) = S_READY"
    and code: "code c t = sem_code a (S_PL 0)"
    and ok: "sem_thread_ok (st c) (sem_base a n c) m wc t (S_PL 0)"
  shows "sem_inv a w n (step (Step t) c)"
proof -
  from f have m: "sems (st c) a = Some m" "sem_wchan m = Ptr w" "wchans (st c) w = Some wc"
    by (auto simp: sem_facts_def)
  from f have fr: "sem_lock m = None \<Longrightarrow> sint (sem_count m) = sem_base a n c \<and> 0 \<le> sem_base a n c"
    by (auto simp: sem_facts_def)
  have nz: "sem_count m \<noteq> 0 \<Longrightarrow> sint (sem_count m) \<noteq> 0"
    by (simp add: signed_eq_0_iff)
  have nf: "status c \<noteq> Faulted"
    using run by simp
  note k = m run ready code ok fr nz
  {
    assume q: "wc_lock wc = None"
    have e: "step (Step t) c = advance t (Exec (Wchan_lock (Sem_wchan_of (Ptr a)))) (sem_code a (S_PL 1)) ((st c)\<lparr>wchans := (wchans (st c))(w \<mapsto> wc\<lparr>wc_lock := Some t\<rparr>)\<rparr>) c"
      using k q by (auto simp: sem_step_simps sem_thread_ok_def split: list.splits)
    have "sem_inv a w n (step (Step t) c)"
      unfolding e
      by (rule sem_inv_advance [OF f nf, where m' = "m" and wc' = "wc\<lparr>wc_lock := Some t\<rparr>"
            and l' = "S_PL 1" and b' = "sem_base a n c"])
         (use k q in \<open>auto simp: sem_thread_ok_def sem_base_def completed_advance P_def V_def
            set_t_state_def sint_decr sint_incr signed_eq_0_iff\<close>)
  }
  moreover
  {
    assume q: "wc_lock wc \<noteq> None"
    have "step (Step t) c = c"
      using k q by (auto simp: sem_step_simps sem_thread_ok_def)
    with f nf have "sem_inv a w n (step (Step t) c)"
      by (simp add: sem_inv_same)
  }
  ultimately show ?thesis
    by (cases "wc_lock wc") auto
qed

lemma sem_at_PL1:
  assumes f: "sem_facts a w n c m wc" and run: "status c = Running"
    and ready: "t_state (threads (st c) t) = S_READY"
    and code: "code c t = sem_code a (S_PL 1)"
    and ok: "sem_thread_ok (st c) (sem_base a n c) m wc t (S_PL 1)"
  shows "sem_inv a w n (step (Step t) c)"
proof -
  from f have m: "sems (st c) a = Some m" "sem_wchan m = Ptr w" "wchans (st c) w = Some wc"
    by (auto simp: sem_facts_def)
  from f have fr: "sem_lock m = None \<Longrightarrow> sint (sem_count m) = sem_base a n c \<and> 0 \<le> sem_base a n c"
    by (auto simp: sem_facts_def)
  have nz: "sem_count m \<noteq> 0 \<Longrightarrow> sint (sem_count m) \<noteq> 0"
    by (simp add: signed_eq_0_iff)
  have nf: "status c \<noteq> Faulted"
    using run by simp
  note k = m run ready code ok fr nz
  {
    assume q: "True"
    have e: "step (Step t) c = advance t (Exec (Spinlock_release (Sem_lock_of (Ptr a)))) (sem_code a (S_PL 2)) ((st c)\<lparr>sems := (sems (st c))(a \<mapsto> m\<lparr>sem_lock := None\<rparr>)\<rparr>) c"
      using k q by (auto simp: sem_step_simps sem_thread_ok_def split: list.splits)
    have "sem_inv a w n (step (Step t) c)"
      unfolding e
      by (rule sem_inv_advance [OF f nf, where m' = "m\<lparr>sem_lock := None\<rparr>" and wc' = "wc"
            and l' = "S_PL 2" and b' = "sem_base a n c"])
         (use k q in \<open>auto simp: sem_thread_ok_def sem_base_def completed_advance P_def V_def
            set_t_state_def sint_decr sint_incr signed_eq_0_iff\<close>)
  }
  then show ?thesis by simp
qed

lemma sem_at_PL2:
  assumes f: "sem_facts a w n c m wc" and run: "status c = Running"
    and ready: "t_state (threads (st c) t) = S_READY"
    and code: "code c t = sem_code a (S_PL 2)"
    and ok: "sem_thread_ok (st c) (sem_base a n c) m wc t (S_PL 2)"
  shows "sem_inv a w n (step (Step t) c)"
proof -
  from f have m: "sems (st c) a = Some m" "sem_wchan m = Ptr w" "wchans (st c) w = Some wc"
    by (auto simp: sem_facts_def)
  from f have fr: "sem_lock m = None \<Longrightarrow> sint (sem_count m) = sem_base a n c \<and> 0 \<le> sem_base a n c"
    by (auto simp: sem_facts_def)
  have nz: "sem_count m \<noteq> 0 \<Longrightarrow> sint (sem_count m) \<noteq> 0"
    by (simp add: signed_eq_0_iff)
  have nf: "status c \<noteq> Faulted"
    using run by simp
  note k = m run ready code ok fr nz
  {
    assume q: "True"
    have e: "step (Step t) c = advance t (Exec (Wchan_sleep (Sem_wchan_of (Ptr a)))) (sem_code a (S_PL 3)) (set_t_state t S_SLEEP ((st c)\<lparr>wchans := (wchans (st c))(w \<mapsto> wc\<lparr>wc_threads := wc_threads wc @ [t], wc_lock := None\<rparr>)\<rparr>)) c"
      using k q by (auto simp: sem_step_simps sem_thread_ok_def split: list.splits)
    have "sem_inv a w n (step (Step t) c)"
      unfolding e
      by (rule sem_inv_advance [OF f nf, where m' = "m" and wc' = "wc\<lparr>wc_threads := wc_threads wc @ [t], wc_lock := None\<rparr>"
            and l' = "S_PL 3" and b' = "sem_base a n c"])
         (use k q in \<open>auto simp: sem_thread_ok_def sem_base_def completed_advance P_def V_def
            set_t_state_def sint_decr sint_incr signed_eq_0_iff\<close>)
  }
  then show ?thesis by simp
qed

lemma sem_at_PL3:
  assumes f: "sem_facts a w n c m wc" and run: "status c = Running"
    and ready: "t_state (threads (st c) t) = S_READY"
    and code: "code c t = sem_code a (S_PL 3)"
    and ok: "sem_thread_ok (st c) (sem_base a n c) m wc t (S_PL 3)"
  shows "sem_inv a w n (step (Step t) c)"
proof -
  from f have m: "sems (st c) a = Some m" "sem_wchan m = Ptr w" "wchans (st c) w = Some wc"
    by (auto simp: sem_facts_def)
  from f have fr: "sem_lock m = None \<Longrightarrow> sint (sem_count m) = sem_base a n c \<and> 0 \<le> sem_base a n c"
    by (auto simp: sem_facts_def)
  have nz: "sem_count m \<noteq> 0 \<Longrightarrow> sint (sem_count m) \<noteq> 0"
    by (simp add: signed_eq_0_iff)
  have nf: "status c \<noteq> Faulted"
    using run by simp
  note k = m run ready code ok fr nz
  {
    assume q: "sem_lock m = None"
    have e: "step (Step t) c = advance t (Exec (Spinlock_acquire (Sem_lock_of (Ptr a)))) (sem_code a (S_P 3)) ((st c)\<lparr>sems := (sems (st c))(a \<mapsto> m\<lparr>sem_lock := Some t\<rparr>)\<rparr>) c"
      using k q by (auto simp: sem_step_simps sem_thread_ok_def split: list.splits)
    have "sem_inv a w n (step (Step t) c)"
      unfolding e
      by (rule sem_inv_advance [OF f nf, where m' = "m\<lparr>sem_lock := Some t\<rparr>" and wc' = "wc"
            and l' = "S_P 3" and b' = "sem_base a n c"])
         (use k q in \<open>auto simp: sem_thread_ok_def sem_base_def completed_advance P_def V_def
            set_t_state_def sint_decr sint_incr signed_eq_0_iff\<close>)
  }
  moreover
  {
    assume q: "sem_lock m \<noteq> None"
    have "step (Step t) c = c"
      using k q by (auto simp: sem_step_simps sem_thread_ok_def)
    with f nf have "sem_inv a w n (step (Step t) c)"
      by (simp add: sem_inv_same)
  }
  ultimately show ?thesis
    by (cases "sem_lock m") auto
qed

lemma sem_at_V0:
  assumes f: "sem_facts a w n c m wc" and run: "status c = Running"
    and ready: "t_state (threads (st c) t) = S_READY"
    and code: "code c t = sem_code a (S_V 0)"
    and ok: "sem_thread_ok (st c) (sem_base a n c) m wc t (S_V 0)"
  shows "sem_inv a w n (step (Step t) c)"
proof -
  from f have m: "sems (st c) a = Some m" "sem_wchan m = Ptr w" "wchans (st c) w = Some wc"
    by (auto simp: sem_facts_def)
  from f have fr: "sem_lock m = None \<Longrightarrow> sint (sem_count m) = sem_base a n c \<and> 0 \<le> sem_base a n c"
    by (auto simp: sem_facts_def)
  have nz: "sem_count m \<noteq> 0 \<Longrightarrow> sint (sem_count m) \<noteq> 0"
    by (simp add: signed_eq_0_iff)
  have nf: "status c \<noteq> Faulted"
    using run by simp
  note k = m run ready code ok fr nz
  {
    assume q: "True"
    have e: "step (Step t) c = advance t (Exec (KASSERT (Ptr_not_null (Ptr a)))) (sem_code a (S_V 1)) (st c) c"
      using k q by (auto simp: sem_step_simps sem_thread_ok_def split: list.splits)
    have "sem_inv a w n (step (Step t) c)"
      unfolding e
      by (rule sem_inv_advance [OF f nf, where m' = "m" and wc' = "wc"
            and l' = "S_V 1" and b' = "sem_base a n c"])
         (use k q in \<open>auto simp: sem_thread_ok_def sem_base_def completed_advance P_def V_def
            set_t_state_def sint_decr sint_incr signed_eq_0_iff\<close>)
  }
  then show ?thesis by simp
qed

lemma sem_at_V1:
  assumes f: "sem_facts a w n c m wc" and run: "status c = Running"
    and ready: "t_state (threads (st c) t) = S_READY"
    and code: "code c t = sem_code a (S_V 1)"
    and ok: "sem_thread_ok (st c) (sem_base a n c) m wc t (S_V 1)"
  shows "sem_inv a w n (step (Step t) c)"
proof -
  from f have m: "sems (st c) a = Some m" "sem_wchan m = Ptr w" "wchans (st c) w = Some wc"
    by (auto simp: sem_facts_def)
  from f have fr: "sem_lock m = None \<Longrightarrow> sint (sem_count m) = sem_base a n c \<and> 0 \<le> sem_base a n c"
    by (auto simp: sem_facts_def)
  have nz: "sem_count m \<noteq> 0 \<Longrightarrow> sint (sem_count m) \<noteq> 0"
    by (simp add: signed_eq_0_iff)
  have nf: "status c \<noteq> Faulted"
    using run by simp
  note k = m run ready code ok fr nz
  {
    assume q: "sem_lock m = None"
    have e: "step (Step t) c = advance t (Exec (Spinlock_acquire (Sem_lock_of (Ptr a)))) (sem_code a (S_V 2)) ((st c)\<lparr>sems := (sems (st c))(a \<mapsto> m\<lparr>sem_lock := Some t\<rparr>)\<rparr>) c"
      using k q by (auto simp: sem_step_simps sem_thread_ok_def split: list.splits)
    have "sem_inv a w n (step (Step t) c)"
      unfolding e
      by (rule sem_inv_advance [OF f nf, where m' = "m\<lparr>sem_lock := Some t\<rparr>" and wc' = "wc"
            and l' = "S_V 2" and b' = "sem_base a n c"])
         (use k q in \<open>auto simp: sem_thread_ok_def sem_base_def completed_advance P_def V_def
            set_t_state_def sint_decr sint_incr signed_eq_0_iff\<close>)
  }
  moreover
  {
    assume q: "sem_lock m \<noteq> None"
    have "step (Step t) c = c"
      using k q by (auto simp: sem_step_simps sem_thread_ok_def)
    with f nf have "sem_inv a w n (step (Step t) c)"
      by (simp add: sem_inv_same)
  }
  ultimately show ?thesis
    by (cases "sem_lock m") auto
qed

lemma sem_at_V2:
  assumes f: "sem_facts a w n c m wc" and run: "status c = Running"
    and ready: "t_state (threads (st c) t) = S_READY"
    and code: "code c t = sem_code a (S_V 2)"
    and ok: "sem_thread_ok (st c) (sem_base a n c) m wc t (S_V 2)"
  shows "sem_inv a w n (step (Step t) c)"
proof -
  from f have m: "sems (st c) a = Some m" "sem_wchan m = Ptr w" "wchans (st c) w = Some wc"
    by (auto simp: sem_facts_def)
  from f have fr: "sem_lock m = None \<Longrightarrow> sint (sem_count m) = sem_base a n c \<and> 0 \<le> sem_base a n c"
    by (auto simp: sem_facts_def)
  have nz: "sem_count m \<noteq> 0 \<Longrightarrow> sint (sem_count m) \<noteq> 0"
    by (simp add: signed_eq_0_iff)
  have nf: "status c \<noteq> Faulted"
    using run by simp
  note k = m run ready code ok fr nz
  {
    assume q: "True"
    have e: "step (Step t) c = advance t (Exec (Sem_count_incr (Ptr a))) (sem_code a (S_V 3)) ((st c)\<lparr>sems := (sems (st c))(a \<mapsto> m\<lparr>sem_count := sem_count m + 1\<rparr>)\<rparr>) c"
      using k q by (auto simp: sem_step_simps sem_thread_ok_def split: list.splits)
    have "sem_inv a w n (step (Step t) c)"
      unfolding e
      by (rule sem_inv_advance [OF f nf, where m' = "m\<lparr>sem_count := sem_count m + 1\<rparr>" and wc' = "wc"
            and l' = "S_V 3" and b' = "sem_base a n c"])
         (use k q in \<open>auto simp: sem_thread_ok_def sem_base_def completed_advance P_def V_def
            set_t_state_def sint_decr sint_incr signed_eq_0_iff\<close>)
  }
  then show ?thesis by simp
qed

lemma sem_at_V3:
  assumes f: "sem_facts a w n c m wc" and run: "status c = Running"
    and ready: "t_state (threads (st c) t) = S_READY"
    and code: "code c t = sem_code a (S_V 3)"
    and ok: "sem_thread_ok (st c) (sem_base a n c) m wc t (S_V 3)"
  shows "sem_inv a w n (step (Step t) c)"
proof -
  from f have m: "sems (st c) a = Some m" "sem_wchan m = Ptr w" "wchans (st c) w = Some wc"
    by (auto simp: sem_facts_def)
  from f have fr: "sem_lock m = None \<Longrightarrow> sint (sem_count m) = sem_base a n c \<and> 0 \<le> sem_base a n c"
    by (auto simp: sem_facts_def)
  have nz: "sem_count m \<noteq> 0 \<Longrightarrow> sint (sem_count m) \<noteq> 0"
    by (simp add: signed_eq_0_iff)
  have nf: "status c \<noteq> Faulted"
    using run by simp
  note k = m run ready code ok fr nz
  {
    assume q: "0 < sint (sem_count m)"
    have e: "step (Step t) c = advance t (Exec (KASSERT (Sem_count_positive (Ptr a)))) (sem_code a (S_V 4)) (st c) c"
      using k q by (auto simp: sem_step_simps sem_thread_ok_def split: list.splits)
    have "sem_inv a w n (step (Step t) c)"
      unfolding e
      by (rule sem_inv_advance [OF f nf, where m' = "m" and wc' = "wc"
            and l' = "S_V 4" and b' = "sem_base a n c"])
         (use k q in \<open>auto simp: sem_thread_ok_def sem_base_def completed_advance P_def V_def
            set_t_state_def sint_decr sint_incr signed_eq_0_iff\<close>)
  }
  moreover
  {
    assume q: "\<not> 0 < sint (sem_count m)"
    have "step (Step t) c = c\<lparr>status := Panicked\<rparr>"
      using k q by (auto simp: sem_step_simps sem_thread_ok_def)
    with f have "sem_inv a w n (step (Step t) c)"
      by (simp add: sem_inv_halt)
  }
  ultimately show ?thesis
    by blast
qed

lemma sem_at_V4:
  assumes f: "sem_facts a w n c m wc" and run: "status c = Running"
    and ready: "t_state (threads (st c) t) = S_READY"
    and code: "code c t = sem_code a (S_V 4)"
    and ok: "sem_thread_ok (st c) (sem_base a n c) m wc t (S_V 4)"
  shows "sem_inv a w n (step (Step t) c)"
proof -
  from f have m: "sems (st c) a = Some m" "sem_wchan m = Ptr w" "wchans (st c) w = Some wc"
    by (auto simp: sem_facts_def)
  from f have fr: "sem_lock m = None \<Longrightarrow> sint (sem_count m) = sem_base a n c \<and> 0 \<le> sem_base a n c"
    by (auto simp: sem_facts_def)
  have nz: "sem_count m \<noteq> 0 \<Longrightarrow> sint (sem_count m) \<noteq> 0"
    by (simp add: signed_eq_0_iff)
  have nf: "status c \<noteq> Faulted"
    using run by simp
  note k = m run ready code ok fr nz
  {
    assume q: "wc_lock wc = None \<and> wc_threads wc = []"
    have e: "step (Step t) c = advance t (Exec (Wchan_wakeone (Sem_wchan_of (Ptr a)))) (sem_code a (S_V 5)) (st c) c"
      using k q by (auto simp: sem_step_simps sem_thread_ok_def split: list.splits)
    have "sem_inv a w n (step (Step t) c)"
      unfolding e
      by (rule sem_inv_advance [OF f nf, where m' = "m" and wc' = "wc"
            and l' = "S_V 5" and b' = "sem_base a n c"])
         (use k q in \<open>auto simp: sem_thread_ok_def sem_base_def completed_advance P_def V_def
            set_t_state_def sint_decr sint_incr signed_eq_0_iff\<close>)
  }
  moreover
  {
    assume q: "wc_lock wc = None \<and> wc_threads wc \<noteq> []"
    have e: "step (Step t) c = advance t (Exec (Wchan_wakeone (Sem_wchan_of (Ptr a)))) (sem_code a (S_V 5)) (set_t_state (hd (wc_threads wc)) S_READY ((st c)\<lparr>wchans := (wchans (st c))(w \<mapsto> wc\<lparr>wc_threads := tl (wc_threads wc)\<rparr>)\<rparr>)) c"
      using k q by (auto simp: sem_step_simps sem_thread_ok_def split: list.splits)
    have "sem_inv a w n (step (Step t) c)"
      unfolding e
      by (rule sem_inv_advance [OF f nf, where m' = "m" and wc' = "wc\<lparr>wc_threads := tl (wc_threads wc)\<rparr>"
            and l' = "S_V 5" and b' = "sem_base a n c"])
         (use k q in \<open>auto simp: sem_thread_ok_def sem_base_def completed_advance P_def V_def
            set_t_state_def sint_decr sint_incr signed_eq_0_iff\<close>)
  }
  moreover
  {
    assume q: "wc_lock wc \<noteq> None"
    have "step (Step t) c = c"
      using k q by (auto simp: sem_step_simps sem_thread_ok_def)
    with f nf have "sem_inv a w n (step (Step t) c)"
      by (simp add: sem_inv_same)
  }
  ultimately show ?thesis
    by (cases "wc_lock wc"; cases "wc_threads wc") auto
qed

lemma sem_at_V5:
  assumes f: "sem_facts a w n c m wc" and run: "status c = Running"
    and ready: "t_state (threads (st c) t) = S_READY"
    and code: "code c t = sem_code a (S_V 5)"
    and ok: "sem_thread_ok (st c) (sem_base a n c) m wc t (S_V 5)"
  shows "sem_inv a w n (step (Step t) c)"
proof -
  from f have m: "sems (st c) a = Some m" "sem_wchan m = Ptr w" "wchans (st c) w = Some wc"
    by (auto simp: sem_facts_def)
  from f have fr: "sem_lock m = None \<Longrightarrow> sint (sem_count m) = sem_base a n c \<and> 0 \<le> sem_base a n c"
    by (auto simp: sem_facts_def)
  have nz: "sem_count m \<noteq> 0 \<Longrightarrow> sint (sem_count m) \<noteq> 0"
    by (simp add: signed_eq_0_iff)
  have nf: "status c \<noteq> Faulted"
    using run by simp
  note k = m run ready code ok fr nz
  {
    assume q: "True"
    have e: "step (Step t) c = advance t (Exec (Spinlock_release (Sem_lock_of (Ptr a)))) ([Return (C_V (Ptr a))]) ((st c)\<lparr>sems := (sems (st c))(a \<mapsto> m\<lparr>sem_lock := None\<rparr>)\<rparr>) c"
      using k q by (auto simp: sem_step_simps sem_thread_ok_def split: list.splits)
    have "sem_inv a w n (step (Step t) c)"
      unfolding e
      by (rule sem_inv_advance [OF f nf, where m' = "m\<lparr>sem_lock := None\<rparr>" and wc' = "wc"
            and l' = "S_idle" and b' = "sem_base a n c + 1"])
         (use k q in \<open>auto simp: sem_thread_ok_def sem_base_def completed_advance P_def V_def
            set_t_state_def sint_decr sint_incr signed_eq_0_iff\<close>)
  }
  then show ?thesis by simp
qed

lemma sem_inv_Step:
  assumes inv: "sem_inv a w n c"
  shows "sem_inv a w n (step (Step t) c)"
proof (cases "status c = Running \<and> t_state (threads (st c) t) = S_READY")
  case False
  then have "step (Step t) c = c" by auto
  with inv show ?thesis by simp
next
  case True
  then have run: "status c = Running" and ready: "t_state (threads (st c) t) = S_READY"
    by simp_all
  from inv obtain m wc where f: "sem_facts a w n c m wc"
    by (auto simp: sem_inv_def)
  then obtain l where code: "code c t = sem_code a l"
    and ok: "sem_thread_ok (st c) (sem_base a n c) m wc t l"
    by (auto simp: sem_facts_def)
  from ok have lok: "sloc_ok l" by (simp add: sem_thread_ok_def)
  note k = f run ready
  show ?thesis
  proof (cases l)
    case S_idle
    with code run ready have "step (Step t) c = c" by simp
    with inv show ?thesis by simp
  next
    case (S_P j)
    with lok have "j = 0 \<or> j = 1 \<or> j = 2 \<or> j = 3 \<or> j = 4 \<or> j = 5 \<or> j = 6"
      by auto
    with code ok S_P show ?thesis
      using sem_at_P0 [OF k] sem_at_P1 [OF k] sem_at_P2 [OF k] sem_at_P3 [OF k]
        sem_at_P4 [OF k] sem_at_P5 [OF k] sem_at_P6 [OF k]
      by blast
  next
    case (S_PL j)
    with lok have "j = 0 \<or> j = 1 \<or> j = 2 \<or> j = 3"
      by auto
    with code ok S_PL show ?thesis
      using sem_at_PL0 [OF k] sem_at_PL1 [OF k] sem_at_PL2 [OF k] sem_at_PL3 [OF k]
      by blast
  next
    case (S_V j)
    with lok have "j = 0 \<or> j = 1 \<or> j = 2 \<or> j = 3 \<or> j = 4 \<or> j = 5"
      by auto
    with code ok S_V show ?thesis
      using sem_at_V0 [OF k] sem_at_V1 [OF k] sem_at_V2 [OF k] sem_at_V3 [OF k]
        sem_at_V4 [OF k] sem_at_V5 [OF k]
      by blast
  qed
qed

lemma sem_inv_Invoke:
  assumes inv: "sem_inv a w n c" and fc: "f = C_P (Ptr a) \<or> f = C_V (Ptr a)"
  shows "sem_inv a w n (step (Invoke t f) c)"
proof (cases "status c = Running \<and> code c t = [] \<and> t_state (threads (st c) t) = S_READY")
  case False
  then have "step (Invoke t f) c = c" by auto
  with inv show ?thesis by simp
next
  case True
  from inv obtain m wc where f: "sem_facts a w n c m wc" and nf: "status c \<noteq> Faulted"
    by (auto simp: sem_inv_def)
  then obtain l where code: "code c t = sem_code a l"
    and ok: "sem_thread_ok (st c) (sem_base a n c) m wc t l"
    by (auto simp: sem_facts_def)
  from code True have "sem_code a l = []" by simp
  then have l: "l = S_idle" by (simp add: sem_code_Nil)
  from f have m: "sems (st c) a = Some m" "sem_wchan m = Ptr w" "wchans (st c) w = Some wc"
    and fr: "sem_lock m = None \<Longrightarrow> sint (sem_count m) = sem_base a n c \<and> 0 \<le> sem_base a n c"
    by (auto simp: sem_facts_def)
  from True have e: "step (Invoke t f) c = advance t (Exec (Call f)) (body f @ [Return f]) (st c) c"
    by simp
  from fc show ?thesis
  proof
    assume p: "f = C_P (Ptr a)"
    show ?thesis
      unfolding e
      by (rule sem_inv_advance [OF f nf, where m' = m and wc' = wc and l' = "S_P 0"
            and b' = "sem_base a n c"])
         (use m ok l p fr True in \<open>auto simp: sem_thread_ok_def sem_base_def completed_advance P_def\<close>)
  next
    assume p: "f = C_V (Ptr a)"
    show ?thesis
      unfolding e
      by (rule sem_inv_advance [OF f nf, where m' = m and wc' = wc and l' = "S_V 0"
            and b' = "sem_base a n c"])
         (use m ok l p fr True in \<open>auto simp: sem_thread_ok_def sem_base_def completed_advance V_def\<close>)
  qed
qed

lemma sem_inv_step:
  assumes "sem_inv a w n c" and "sem_event a e"
  shows "sem_inv a w n (step e c)"
  using assms by (cases e) (auto intro: sem_inv_Step sem_inv_Invoke simp del: step.simps)

lemma sem_inv_exec:
  assumes "sem_inv a w n c" and "\<forall>e \<in> set es. sem_event a e"
  shows "sem_inv a w n (exec es c)"
  using assms by (induction es arbitrary: c) (auto intro: sem_inv_step simp del: step.simps)

lemma sem_create_result:
  assumes "heap_ok s0" and "sem_create name n j al s0 = Done (Ptr a, s)"
  shows "0 \<le> sint n \<and>
         sems s a = Some \<lparr>sem_name = Ptr (a + 1), sem_wchan = Ptr (a + 2), sem_lock = None,
           sem_count = n\<rparr> \<and>
         wchans s (a + 2) = Some \<lparr>wc_name = Ptr (a + 1), wc_lock = None, wc_threads = []\<rparr>"
proof -
  from assms(2) have n: "0 \<le> sint n"
    by (auto simp: sem_create_def split: if_splits)
  from assms(2) obtain g where j: "j = Some g"
    by (cases j) (auto simp: sem_create_def kmalloc_sem_def split: if_splits)
  from assms(2) j have al: "al_name al" "al_wchan al"
    by (auto simp: sem_create_def create_simps split: if_splits prod.splits)
  from sem_create_succeeds [OF assms(1) n al, of name g] assms(2) j
  show ?thesis using n by auto
qed

lemma sem_inv_start:
  assumes "heap_ok s0" and "sem_create name n j al s0 = Done (Ptr a, s)"
  shows "sem_inv a (a + 2) n (start s)"
  using sem_create_result [OF assms]
  by (auto simp: sem_inv_def sem_facts_def start_def sem_thread_ok_def sem_base_def
      completed_def intro!: exI [of _ S_idle])

text \<open>
  C3. Take a semaphore that sem_create returned for an initial count \<open>n\<close> (then
  \<open>n \<ge> 0\<close>: a negative initial count halts in sem_create), and let any threads call P
  and V on it in any interleaving of their statements. The kernel never touches
  unallocated memory, and in every state in which no thread is inside the
  spinlock-guarded section the count is not negative and equals the initial count plus
  the completed V calls minus the completed P calls; so with equally many of both it is
  the initial count.
\<close>

theorem sem_count_never_negative:
  assumes "heap_ok s0"
    and "sem_create name n j al s0 = Done (Ptr a, s)"
    and "\<forall>e \<in> set es. sem_event a e"
    and "c = exec es (start s)"
    and "sint n' < 0"
  shows "sem_create name' n' j' al' s' = Panic \<and> 0 \<le> sint n \<and> status c \<noteq> Faulted \<and>
         (\<exists>m. sems (st c) a = Some m \<and>
            (sem_lock m = None \<longrightarrow>
               0 \<le> sint (sem_count m) \<and>
               sint (sem_count m) =
                 sint n + int (completed (C_V (Ptr a)) c) - int (completed (C_P (Ptr a)) c) \<and>
               (completed (C_V (Ptr a)) c = completed (C_P (Ptr a)) c \<longrightarrow> sem_count m = n)))"
proof -
  from assms(5) have p: "sem_create name' n' j' al' s' = Panic"
    by (simp add: sem_create_def)
  from sem_create_result [OF assms(1,2)] have n: "0 \<le> sint n" by simp
  from sem_inv_exec [OF sem_inv_start [OF assms(1,2)] assms(3)] assms(4)
  have "sem_inv a (a + 2) n c" by simp
  then obtain m wc where nf: "status c \<noteq> Faulted" and f: "sem_facts a (a + 2) n c m wc"
    by (auto simp: sem_inv_def)
  from f have m: "sems (st c) a = Some m"
    and fr: "sem_lock m = None \<Longrightarrow> sint (sem_count m) = sem_base a n c \<and> 0 \<le> sem_base a n c"
    by (auto simp: sem_facts_def)
  have "sem_count m = n"
    if "sem_lock m = None" and "completed (C_V (Ptr a)) c = completed (C_P (Ptr a)) c"
  proof -
    from fr that have "sint (sem_count m) = sint n" by (simp add: sem_base_def)
    then show ?thesis by (rule signed_word_eqI)
  qed
  with p n nf m fr show ?thesis by (auto simp: sem_base_def)
qed

lemma sem_demo_state_eq:
  "sem_demo_state =
     \<lparr>threads = (\<lambda>t. \<lparr>t_in_interrupt = False, t_state = S_READY\<rparr>),
      strs = [1 \<mapsto> ''sem''],
      wchans = [2 \<mapsto> \<lparr>wc_name = Ptr 1, wc_lock = None, wc_threads = []\<rparr>],
      sems = [0 \<mapsto> \<lparr>sem_name = Ptr 1, sem_wchan = Ptr 2, sem_lock = None, sem_count = 1\<rparr>],
      locks = Map.empty, cvs = Map.empty, brk = 3\<rparr>"
  by (simp add: sem_demo_state_def all_ok_def boot_def sem_create_def
      kmalloc_sem_def kstrdup_def wchan_create_def Let_def eval_nat_numeral)

lemma sem_demo_sems:
  "sems (st (exec sem_demo_sched (start sem_demo_state))) 0 =
     Some \<lparr>sem_name = Ptr 1, sem_wchan = Ptr 2, sem_lock = None, sem_count = 1\<rparr>"
  by (simp add: sem_demo_sched_def sem_demo_state_eq start_def run_simps set_t_state_def
      replicate_num)

lemma sem_demo_completed:
  "completed (C_P (Ptr 0)) (exec sem_demo_sched (start sem_demo_state)) = 2 \<and>
   completed (C_V (Ptr 0)) (exec sem_demo_sched (start sem_demo_state)) = 2"
  by (simp add: sem_demo_sched_def sem_demo_state_eq start_def run_simps set_t_state_def
      replicate_num completed_def)

theorem sem_count_never_negative_witness:
  "sem_create ''sem'' (- 1) None all_ok boot = Panic \<and>
   status (exec sem_demo_sched (start sem_demo_state)) \<noteq> Faulted \<and>
   completed (C_P (Ptr 0)) (exec sem_demo_sched (start sem_demo_state)) = 2 \<and>
   completed (C_V (Ptr 0)) (exec sem_demo_sched (start sem_demo_state)) = 2 \<and>
   sems (st (exec sem_demo_sched (start sem_demo_state))) 0 =
     Some \<lparr>sem_name = Ptr 1, sem_wchan = Ptr 2, sem_lock = None, sem_count = 1\<rparr>"
proof -
  have h2: "sem_create ''sem'' 1
       (Some \<lparr>sem_name = NULL, sem_wchan = NULL, sem_lock = Some 7, sem_count = 99\<rparr>)
       all_ok boot = Done (Ptr 0, sem_demo_state)"
    by (simp add: sem_demo_state_def all_ok_def boot_def sem_create_def
      kmalloc_sem_def kstrdup_def wchan_create_def Let_def)
  have h3: "\<forall>e \<in> set sem_demo_sched. sem_event 0 e"
    by (simp add: sem_demo_sched_def)
  have h5: "sint (- 1 :: 32 word) < 0"
    by simp
  from sem_count_never_negative [OF heap_ok_boot h2 h3 refl h5, of "''sem''" None all_ok boot]
    sem_demo_sems sem_demo_completed
  show ?thesis by blast
qed

section \<open>Thread-local reasoning\<close>

lemma threads_upd [simp]:
  "threads (upd_sem p f s) = threads s"
  "threads (upd_lock p g s) = threads s"
  "threads (upd_cv p h s) = threads s"
  "threads (upd_wchan p k s) = threads s"
  "threads (kfree_str p s) = threads s"
  "threads (kfree_sem p s) = threads s"
  "threads (kfree_lock p s) = threads s"
  "threads (kfree_cv p s) = threads s"
  by (cases p; simp split: option.splits)+

lemma threads_spin_set [simp]: "threads (spin_set r v s) = threads s"
  by (cases r) simp_all

lemmas instr_defs = spinlock_acquire_def spinlock_release_def spinlock_cleanup_def
  wchan_lock_def wchan_sleep_def wchan_wakeone_def wchan_wakeall_def wchan_destroy_def

lemma exec_instr_own_sleep:
  assumes "exec_instr t i s = Done s'" and "t_state (threads s t) = S_READY"
  shows "(t_state (threads s' t) = S_SLEEP) = sleeps i"
  using assms
  by (cases i)
     (auto simp: instr_defs set_t_state_def fold_wake_t_state
           split: option.splits list.splits if_splits outcome.splits ptr.splits)

lemma exec_instr_other_sleep:
  assumes "exec_instr t' i s = Done s'" and "t \<noteq> t'" and "t_state (threads s' t) = S_SLEEP"
  shows "t_state (threads s t) = S_SLEEP"
  using assms
  by (cases i)
     (auto simp: instr_defs set_t_state_def fold_wake_t_state
           split: option.splits list.splits if_splits outcome.splits ptr.splits)

lemma trace_status [simp]: "trace t (c\<lparr>status := x\<rparr>) = trace t c"
  by (simp add: trace_def)

lemma advance_trace:
  "trace t' (advance t e rest s c) =
     (if t' = t then trace t c @ e # map Exec (returns rest) else trace t' c)"
  by (simp add: advance_def trace_def)

lemma view_advance_own:
  "view t (advance t e rest s c) = after e rest (trace t c) (t_state (threads s t) = S_SLEEP)"
  by (simp add: view_def after_def advance_code advance_trace advance_st)

lemma view_advance_other:
  "t' \<noteq> t \<Longrightarrow> view t (advance t' e rest s c) = (code c t, trace t c, t_state (threads s t) = S_SLEEP)"
  by (simp add: view_def advance_code advance_trace advance_st)

lemma view_status [simp]: "view t (c\<lparr>status := x\<rparr>) = view t c"
  by (simp add: view_def)

lemma step_own_view:
  "view t (step (Step t) c) = view t c \<or>
   (t_state (threads (st c) t) = S_READY \<and> view t (step (Step t) c) \<in> set (nexts (code c t) (trace t c)))"
proof (cases "status c = Running \<and> t_state (threads (st c) t) = S_READY")
  case False
  then show ?thesis by auto
next
  case True
  show ?thesis
  proof (cases "code c t")
    case Nil
    with True show ?thesis by simp
  next
    case (Cons i rest)
    show ?thesis
    proof (cases "exec_instr t i (st c)")
      case (Done s')
      from exec_instr_own_sleep [OF Done] True
      have "(t_state (threads s' t) = S_SLEEP) = sleeps i" by simp
      with True Cons Done show ?thesis
        by (cases i)
           (auto simp: run_instr_def view_advance_own split: outcome.splits)
    next
      case Spin
      with True Cons show ?thesis
        by (cases i) (auto simp: run_instr_def view_advance_own split: outcome.splits)
    next
      case Panic
      with True Cons show ?thesis
        by (cases i) (auto simp: run_instr_def view_advance_own split: outcome.splits)
    next
      case Fault
      with True Cons show ?thesis
        by (cases i) (auto simp: run_instr_def view_advance_own split: outcome.splits)
    qed
  qed
qed

lemma step_shape:
  "step (Step t) c = c \<or> (\<exists>x. step (Step t) c = c\<lparr>status := x\<rparr>) \<or>
   (\<exists>i rest e cd s'. code c t = i # rest \<and> step (Step t) c = advance t e cd s' c \<and>
      (s' = st c \<or> exec_instr t i (st c) = Done s'))"
proof (cases "status c = Running \<and> t_state (threads (st c) t) = S_READY")
  case False
  then show ?thesis by auto
next
  case True
  show ?thesis
  proof (cases "code c t")
    case Nil
    with True show ?thesis by simp
  next
    case (Cons i rest)
    with True show ?thesis
      by (cases i) (auto simp: run_instr_def split: outcome.splits)
  qed
qed

lemma step_other_view:
  assumes "t' \<noteq> t"
  shows "view t (step (Step t') c) = view t c \<or> view t (step (Step t') c) = (code c t, trace t c, False)"
proof -
  from step_shape [of t' c]
  consider "step (Step t') c = c" | x where "step (Step t') c = c\<lparr>status := x\<rparr>"
    | i e cd s' where "step (Step t') c = advance t' e cd s' c"
        and "s' = st c \<or> exec_instr t' i (st c) = Done s'"
    by blast
  then show ?thesis
  proof cases
    case 1
    then show ?thesis by simp
  next
    case 2
    then show ?thesis by simp
  next
    case 3
    from 3(2) have "t_state (threads s' t) = S_SLEEP \<Longrightarrow> t_state (threads (st c) t) = S_SLEEP"
      using exec_instr_other_sleep [of t' i "st c" s' t] assms by auto
    then have "(code c t, trace t c, t_state (threads s' t) = S_SLEEP) = view t c \<or>
      (code c t, trace t c, t_state (threads s' t) = S_SLEEP) = (code c t, trace t c, False)"
      by (auto simp: view_def)
    with 3(1) assms show ?thesis by (simp add: view_advance_other)
  qed
qed

lemma invoke_other_view:
  assumes "t' \<noteq> t"
  shows "view t (step (Invoke t' f) c) = view t c"
  using assms by (auto simp: view_advance_other) (simp add: view_def)

lemma local_invariant:
  assumes init: "I (view t c)"
    and own: "\<And>cd tr v. I (cd, tr, False) \<Longrightarrow> v \<in> set (nexts cd tr) \<Longrightarrow> I v"
    and wake: "\<And>cd tr. I (cd, tr, True) \<Longrightarrow> I (cd, tr, False)"
    and es: "\<forall>f. Invoke t f \<notin> set es"
  shows "I (view t (exec es c))"
  using init es
proof (induction es arbitrary: c)
  case Nil
  then show ?case by simp
next
  case (Cons e es)
  have "I (view t (step e c))"
  proof (cases e)
    case (Invoke t' f)
    with Cons.prems have "t' \<noteq> t" by auto
    with Invoke Cons.prems show ?thesis by (simp add: invoke_other_view del: step.simps)
  next
    case (Step t')
    show ?thesis
    proof (cases "t' = t")
      case True
      from step_own_view [of t c] Cons.prems(1) own True Step show ?thesis
        by (auto simp: view_def simp del: step.simps)
    next
      case False
      from step_other_view [OF False, of c] Cons.prems(1) wake Step show ?thesis
        by (cases "t_state (threads (st c) t) = S_SLEEP") (auto simp: view_def simp del: step.simps)
    qed
  qed
  with Cons show ?case by simp
qed

section \<open>P\<close>

lemma concat_replicate_snoc: "concat (replicate k xs) @ xs = concat (replicate (Suc k) xs)"
  by (induction k) simp_all

lemma P_viewI:
  "P_loc l \<Longrightarrow> cd = sem_code a l \<Longrightarrow> tr = base @ P_trace a k l \<Longrightarrow> P_view a base (cd, tr, sl)"
  by (auto simp: P_view_def)

lemmas P_events = P_prologue_def P_handoff_def P_epilogue_def

lemma P_view_next:
  assumes "P_view a base (cd, tr, False)" and "v \<in> set (nexts cd tr)"
  shows "P_view a base v"
proof -
  from assms(1) obtain k l where l: "P_loc l" and cd: "cd = sem_code a l"
    and tr: "tr = base @ P_trace a k l"
    by (auto simp: P_view_def)
  show ?thesis
  proof (cases l)
    case S_idle
    with cd assms(2) show ?thesis by simp
  next
    case (S_V j)
    with l show ?thesis by simp
  next
    case (S_P j)
    with l have "j = 0 \<or> j = 1 \<or> j = 2 \<or> j = 3 \<or> j = 4 \<or> j = 5 \<or> j = 6" by auto
    moreover have ?thesis if "j = 0"
      using that S_P cd tr assms(2)
      by (auto simp: P_def after_def P_events intro!: P_viewI [where l = "S_P 1" and k = k])
    moreover have ?thesis if "j = 1"
      using that S_P cd tr assms(2)
      by (auto simp: P_def after_def P_events intro!: P_viewI [where l = "S_P 2" and k = k])
    moreover have ?thesis if "j = 2"
      using that S_P cd tr assms(2)
      by (auto simp: P_def after_def P_events intro!: P_viewI [where l = "S_P 3" and k = 0])
    moreover have ?thesis if "j = 3"
    proof -
      from that S_P cd tr assms(2)
      have "v = (sem_code a (S_PL 0), base @ P_trace a k (S_PL 0), False) \<or>
            v = (sem_code a (S_P 4), base @ P_trace a k (S_P 4), False)"
        by (auto simp: P_def after_def P_events)
      then show ?thesis
        using P_viewI [of "S_PL 0" _ a _ base k False, OF _ refl refl]
          P_viewI [of "S_P 4" _ a _ base k False, OF _ refl refl]
        by auto
    qed
    moreover have ?thesis if "j = 4"
      using that S_P cd tr assms(2)
      by (auto simp: P_def after_def P_events intro!: P_viewI [where l = "S_P 5" and k = k])
    moreover have ?thesis if "j = 5"
      using that S_P cd tr assms(2)
      by (auto simp: P_def after_def P_events intro!: P_viewI [where l = "S_P 6" and k = k])
    moreover have ?thesis if "j = 6"
      using that S_P cd tr assms(2)
      by (auto simp: P_def after_def P_events intro!: P_viewI [where l = "S_idle" and k = k])
    ultimately show ?thesis by blast
  next
    case (S_PL j)
    with l have "j = 0 \<or> j = 1 \<or> j = 2 \<or> j = 3" by auto
    moreover have ?thesis if "j = 0"
      using that S_PL cd tr assms(2)
      by (auto simp: P_def after_def P_events intro!: P_viewI [where l = "S_PL 1" and k = k])
    moreover have ?thesis if "j = 1"
      using that S_PL cd tr assms(2)
      by (auto simp: P_def after_def P_events intro!: P_viewI [where l = "S_PL 2" and k = k])
    moreover have ?thesis if "j = 2"
      using that S_PL cd tr assms(2)
      by (auto simp: P_def after_def P_events intro!: P_viewI [where l = "S_PL 3" and k = k])
    moreover have ?thesis if "j = 3"
    proof -
      from that S_PL cd tr assms(2)
      have "v = (sem_code a (S_P 3),
          base @ P_prologue (Ptr a) @ (concat (replicate k (P_handoff (Ptr a))) @ P_handoff (Ptr a)), False)"
        by (auto simp: P_def after_def P_events)
      then have "v = (sem_code a (S_P 3), base @ P_trace a (Suc k) (S_P 3), False)"
        unfolding concat_replicate_snoc by simp
      then show ?thesis
        by (auto intro!: P_viewI [where l = "S_P 3" and k = "Suc k"])
    qed
    ultimately show ?thesis by blast
  qed
qed

lemma P_protocol_trace:
  assumes "status c = Running" and "code c t = []" and "t_state (threads (st c) t) = S_READY"
    and es: "\<forall>f. Invoke t f \<notin> set es"
    and c': "c' = exec (Invoke t (C_P (Ptr a)) # es) c"
    and ret: "code c' t = []"
  shows "\<exists>k. trace t c' = trace t c @ P_prologue (Ptr a) @
           concat (replicate k (P_handoff (Ptr a))) @ P_epilogue (Ptr a)"
proof -
  let ?c0 = "step (Invoke t (C_P (Ptr a))) c"
  from assms(1-3) have "view t ?c0 = (sem_code a (S_P 0), trace t c @ P_trace a 0 (S_P 0), False)"
    by (simp add: view_def advance_code advance_trace advance_st P_def P_events)
  then have "P_view a (trace t c) (view t ?c0)"
    by (auto intro!: P_viewI [where l = "S_P 0" and k = 0])
  then have "P_view a (trace t c) (view t (exec es ?c0))"
  proof (rule local_invariant)
    show "P_view a (trace t c) v"
      if "P_view a (trace t c) (cd, tr, False)" and "v \<in> set (nexts cd tr)" for cd tr v
      using that by (rule P_view_next)
    show "P_view a (trace t c) (cd, tr, False)" if "P_view a (trace t c) (cd, tr, True)" for cd tr
      using that by (simp add: P_view_def)
    show "\<forall>f. Invoke t f \<notin> set es" by (rule es)
  qed
  with c' have "P_view a (trace t c) (view t c')"
    by simp
  then obtain k l where l: "code c' t = sem_code a l"
    and tr: "trace t c' = trace t c @ P_trace a k l"
    by (auto simp: P_view_def view_def)
  from l ret have "sem_code a l = []" by simp
  then have "l = S_idle" by (simp add: sem_code_Nil)
  with tr show ?thesis by auto
qed

lemma P_in_interrupt:
  assumes "status ci = Running" and "code ci t = []" and "t_state (threads (st ci) t) = S_READY"
    and "t_in_interrupt (threads (st ci) t)"
    and "ci' = exec [Invoke t (C_P sem), Step t, Step t] ci"
  shows "status ci' = Panicked \<and> st ci' = st ci"
  using assms by (cases sem) (auto simp: run_simps)

lemma P_permit_available:
  assumes "status cp = Running" and "code cp t = []" and "t_state (threads (st cp) t) = S_READY"
    and "\<not> t_in_interrupt (threads (st cp) t)"
    and "sems (st cp) a = Some m" and "sem_lock m = None" and "0 < sint (sem_count m)"
    and "cp' = exec (Invoke t (C_P (Ptr a)) # replicate 7 (Step t)) cp"
  shows "status cp' = Running \<and> code cp' t = [] \<and>
         st cp' = (st cp)\<lparr>sems := (sems (st cp))(a \<mapsto> m\<lparr>sem_count := sem_count m - 1\<rparr>)\<rparr> \<and>
         trace t cp' = trace t cp @ P_prologue (Ptr a) @ P_epilogue (Ptr a)"
proof -
  from assms(7) have "sem_count m \<noteq> 0" by auto
  with assms show ?thesis
    by (cases m) (auto simp: run_simps replicate_num P_events)
qed

lemma P_no_permit:
  assumes "status cz = Running" and "code cz t = []" and "t_state (threads (st cz) t) = S_READY"
    and "\<not> t_in_interrupt (threads (st cz) t)"
    and "sems (st cz) a = Some m" and "sem_lock m = None" and "sem_count m = 0"
    and "sem_wchan m = Ptr w" and "wchans (st cz) w = Some wc" and "wc_lock wc = None"
    and "cz' = exec (Invoke t (C_P (Ptr a)) # replicate 7 (Step t)) cz"
  shows "status cz' = Running \<and>
         code cz' t = Spinlock_acquire (Sem_lock_of (Ptr a)) # drop 3 (P (Ptr a)) @ [Return (C_P (Ptr a))] \<and>
         st cz' = set_t_state t S_SLEEP
           ((st cz)\<lparr>wchans := (wchans (st cz))(w \<mapsto> wc\<lparr>wc_threads := wc_threads wc @ [t]\<rparr>)\<rparr>) \<and>
         trace t cz' = trace t cz @ P_prologue (Ptr a) @ take 4 (P_handoff (Ptr a))"
  using assms
  by (cases m; cases wc)
     (auto simp: run_simps replicate_num P_events set_t_state_def fun_upd_idem map_upd_triv)

section \<open>V\<close>

lemma V_viewI:
  "V_loc l \<Longrightarrow> cd = sem_code a l \<Longrightarrow> tr = base @ V_trace a l \<Longrightarrow> V_view a base (cd, tr, False)"
  by (auto simp: V_view_def)

lemma V_view_next:
  assumes "V_view a base (cd, tr, False)" and "v \<in> set (nexts cd tr)"
  shows "V_view a base v"
proof -
  from assms(1) obtain l where l: "V_loc l" and cd: "cd = sem_code a l"
    and tr: "tr = base @ V_trace a l"
    by (auto simp: V_view_def)
  show ?thesis
  proof (cases l)
    case S_idle
    with cd assms(2) show ?thesis by simp
  next
    case (S_P j)
    with l show ?thesis by simp
  next
    case (S_PL j)
    with l show ?thesis by simp
  next
    case (S_V j)
    with l have "j = 0 \<or> j = 1 \<or> j = 2 \<or> j = 3 \<or> j = 4 \<or> j = 5" by auto
    moreover have ?thesis if "j = 0"
      using that S_V cd tr assms(2)
      by (auto simp: V_def after_def V_events_def intro!: V_viewI [where l = "S_V 1"])
    moreover have ?thesis if "j = 1"
      using that S_V cd tr assms(2)
      by (auto simp: V_def after_def V_events_def intro!: V_viewI [where l = "S_V 2"])
    moreover have ?thesis if "j = 2"
      using that S_V cd tr assms(2)
      by (auto simp: V_def after_def V_events_def intro!: V_viewI [where l = "S_V 3"])
    moreover have ?thesis if "j = 3"
      using that S_V cd tr assms(2)
      by (auto simp: V_def after_def V_events_def intro!: V_viewI [where l = "S_V 4"])
    moreover have ?thesis if "j = 4"
      using that S_V cd tr assms(2)
      by (auto simp: V_def after_def V_events_def intro!: V_viewI [where l = "S_V 5"])
    moreover have ?thesis if "j = 5"
      using that S_V cd tr assms(2)
      by (auto simp: V_def after_def V_events_def intro!: V_viewI [where l = "S_idle"])
    ultimately show ?thesis by blast
  qed
qed

lemma V_never_sleeps:
  assumes "status c = Running" and "code c t = []" and "t_state (threads (st c) t) = S_READY"
    and es: "\<forall>f. Invoke t f \<notin> set es"
    and c': "c' = exec (Invoke t (C_V (Ptr a)) # es) c"
  shows "t_state (threads (st c') t) \<noteq> S_SLEEP \<and>
         (code c' t = [] \<longrightarrow> trace t c' = trace t c @ V_events (Ptr a))"
proof -
  let ?c0 = "step (Invoke t (C_V (Ptr a))) c"
  from assms(1-3) have "view t ?c0 = (sem_code a (S_V 0), trace t c @ take 1 (V_events (Ptr a)), False)"
    by (simp add: view_def advance_code advance_trace advance_st V_def V_events_def)
  then have "V_view a (trace t c) (view t ?c0)"
    by (auto intro!: V_viewI [where l = "S_V 0"] simp: V_events_def)
  then have "V_view a (trace t c) (view t (exec es ?c0))"
  proof (rule local_invariant)
    show "V_view a (trace t c) v"
      if "V_view a (trace t c) (cd, tr, False)" and "v \<in> set (nexts cd tr)" for cd tr v
      using that by (rule V_view_next)
    show "V_view a (trace t c) (cd, tr, False)" if "V_view a (trace t c) (cd, tr, True)" for cd tr
      using that by (simp add: V_view_def)
    show "\<forall>f. Invoke t f \<notin> set es" by (rule es)
  qed
  with c' have "V_view a (trace t c) (view t c')"
    by simp
  then obtain l where "t_state (threads (st c') t) \<noteq> S_SLEEP"
    and l: "code c' t = sem_code a l" and tr: "trace t c' = trace t c @ V_trace a l"
    by (auto simp: V_view_def view_def)
  moreover have "l = S_idle" if "code c' t = []"
    using that l by (simp add: sem_code_Nil)
  ultimately show ?thesis by auto
qed

lemma V_runs:
  assumes "status c = Running" and "code c t = []" and "t_state (threads (st c) t) = S_READY"
    and "sems (st c) a = Some m" and "sem_lock m = None"
    and "sem_wchan m = Ptr w" and "wchans (st c) w = Some wc" and "wc_lock wc = None"
    and "0 < sint (sem_count m + 1)"
    and "c' = exec (Invoke t (C_V (Ptr a)) # replicate 6 (Step t)) c"
  shows "status c' = Running \<and> code c' t = [] \<and>
         st c' =
           (case wc_threads wc of
              [] \<Rightarrow> (st c)\<lparr>sems := (sems (st c))(a \<mapsto> m\<lparr>sem_count := sem_count m + 1\<rparr>)\<rparr>
            | x # xs \<Rightarrow>
                set_t_state x S_READY
                  ((st c)\<lparr>sems := (sems (st c))(a \<mapsto> m\<lparr>sem_count := sem_count m + 1\<rparr>),
                          wchans := (wchans (st c))(w \<mapsto> wc\<lparr>wc_threads := xs\<rparr>)\<rparr>))"
  using assms
  by (cases m; cases "wc_threads wc") (auto simp: run_simps replicate_num set_t_state_def)

lemma V_overflow:
  assumes "status d = Running" and "code d u = []" and "t_state (threads (st d) u) = S_READY"
    and "sems (st d) b = Some m2" and "sem_lock m2 = None"
    and "\<not> 0 < sint (sem_count m2 + 1)"
    and "d' = exec (Invoke u (C_V (Ptr b)) # replicate 6 (Step u)) d"
  shows "status d' = Panicked \<and> code d' u \<noteq> []"
  using assms
  by (auto simp: run_simps replicate_num)

text \<open>
  C1. P on a semaphore. (1) Under every interleaving with other threads, a call of P
  that returns has done exactly this, in this order: the two KASSERTs, spinlock_acquire,
  then \<open>k\<close> times the handoff (the loop test found the count zero, wchan_lock,
  spinlock_release, wchan_sleep, spinlock_acquire), then the loop test found the count
  not zero, KASSERT(count > 0), the decrement, spinlock_release, return. The test is
  made again after every wake-up. (2) Called by a thread in an interrupt handler, P halts
  the kernel within its two KASSERTs and changes nothing. (3) With the spinlock free and
  a positive count, P run alone returns after seven statements with the count one less
  and the spinlock free again. (4) With the count zero it leaves the thread asleep at the
  end of the wait channel's queue, the spinlock and the channel lock released, and the
  re-acquire and the loop test still to run.
\<close>

theorem P_protocol:
  assumes "status c = Running" and "code c t = []" and "t_state (threads (st c) t) = S_READY"
    and "\<forall>f. Invoke t f \<notin> set es"
    and "c' = exec (Invoke t (C_P (Ptr a)) # es) c"
    and "code c' t = []"
    and "status ci = Running" and "code ci ti = []" and "t_state (threads (st ci) ti) = S_READY"
    and "t_in_interrupt (threads (st ci) ti)"
    and "ci' = exec [Invoke ti (C_P sem), Step ti, Step ti] ci"
    and "status cp = Running" and "code cp tp = []" and "t_state (threads (st cp) tp) = S_READY"
    and "\<not> t_in_interrupt (threads (st cp) tp)"
    and "sems (st cp) ap = Some mp" and "sem_lock mp = None" and "0 < sint (sem_count mp)"
    and "cp' = exec (Invoke tp (C_P (Ptr ap)) # replicate 7 (Step tp)) cp"
    and "status cz = Running" and "code cz tz = []" and "t_state (threads (st cz) tz) = S_READY"
    and "\<not> t_in_interrupt (threads (st cz) tz)"
    and "sems (st cz) az = Some mz" and "sem_lock mz = None" and "sem_count mz = 0"
    and "sem_wchan mz = Ptr w" and "wchans (st cz) w = Some wc" and "wc_lock wc = None"
    and "cz' = exec (Invoke tz (C_P (Ptr az)) # replicate 7 (Step tz)) cz"
  shows "(\<exists>k. trace t c' = trace t c @ P_prologue (Ptr a) @
            concat (replicate k (P_handoff (Ptr a))) @ P_epilogue (Ptr a)) \<and>
         status ci' = Panicked \<and> st ci' = st ci \<and>
         status cp' = Running \<and> code cp' tp = [] \<and>
         st cp' = (st cp)\<lparr>sems := (sems (st cp))(ap \<mapsto> mp\<lparr>sem_count := sem_count mp - 1\<rparr>)\<rparr> \<and>
         trace tp cp' = trace tp cp @ P_prologue (Ptr ap) @ P_epilogue (Ptr ap) \<and>
         status cz' = Running \<and>
         code cz' tz = Spinlock_acquire (Sem_lock_of (Ptr az)) #
           drop 3 (P (Ptr az)) @ [Return (C_P (Ptr az))] \<and>
         st cz' = set_t_state tz S_SLEEP
           ((st cz)\<lparr>wchans := (wchans (st cz))(w \<mapsto> wc\<lparr>wc_threads := wc_threads wc @ [tz]\<rparr>)\<rparr>) \<and>
         trace tz cz' = trace tz cz @ P_prologue (Ptr az) @ take 4 (P_handoff (Ptr az))"
  using P_protocol_trace [OF assms(1-6)] P_in_interrupt [OF assms(7-11)]
    P_permit_available [OF assms(12-19)] P_no_permit [OF assms(20-30)]
  by blast

lemma sem_demo_mid_eq:
  "sem_demo_mid =
     \<lparr>code = (\<lambda>t. []),
      st = sem_demo_state\<lparr>sems := [0 \<mapsto> \<lparr>sem_name = Ptr 1, sem_wchan = Ptr 2, sem_lock = None,
             sem_count = 0\<rparr>]\<rparr>,
      status = Running,
      history = map (Pair 1) (P_prologue (Ptr 0) @ P_epilogue (Ptr 0))\<rparr>"
  by (simp add: sem_demo_mid_def sem_demo_state_eq start_def run_simps replicate_num P_events
      fun_eq_iff)

lemma sem_demo_trace2:
  "code (exec (Invoke 2 (C_P (Ptr 0)) # sem_demo_rest) sem_demo_mid) 2 = [] \<and>
   trace 2 (exec (Invoke 2 (C_P (Ptr 0)) # sem_demo_rest) sem_demo_mid) =
     P_prologue (Ptr 0) @ P_handoff (Ptr 0) @ P_epilogue (Ptr 0)"
  by (simp add: sem_demo_mid_eq sem_demo_rest_def sem_demo_state_eq run_simps replicate_num
      P_events set_t_state_def)

lemma irq_state_eq:
  "irq_state =
     \<lparr>threads = (\<lambda>t. \<lparr>t_in_interrupt = (t = 9), t_state = S_READY\<rparr>),
      strs = [1 \<mapsto> ''sem'', 4 \<mapsto> ''lk'', 7 \<mapsto> ''cv''],
      wchans = [2 \<mapsto> \<lparr>wc_name = Ptr 1, wc_lock = None, wc_threads = []\<rparr>,
                5 \<mapsto> \<lparr>wc_name = Ptr 4, wc_lock = None, wc_threads = []\<rparr>,
                8 \<mapsto> \<lparr>wc_name = Ptr 7, wc_lock = None, wc_threads = []\<rparr>],
      sems = [0 \<mapsto> \<lparr>sem_name = Ptr 1, sem_wchan = Ptr 2, sem_lock = None, sem_count = 0\<rparr>],
      locks = [3 \<mapsto> \<lparr>lk_name = Ptr 4, lk_wchan = Ptr 5, lk_lock = None, lk_held = False,
                     lk_owner = None\<rparr>],
      cvs = [6 \<mapsto> \<lparr>cv_name = Ptr 7, cv_wchan = Ptr 8\<rparr>],
      brk = 9\<rparr>"
  by (auto simp: irq_state_def objects_eq fun_eq_iff)

theorem P_protocol_witness:
  "code (exec (Invoke 2 (C_P (Ptr 0)) # sem_demo_rest) sem_demo_mid) 2 = [] \<and>
   trace 2 (exec (Invoke 2 (C_P (Ptr 0)) # sem_demo_rest) sem_demo_mid) =
     P_prologue (Ptr 0) @ P_handoff (Ptr 0) @ P_epilogue (Ptr 0) \<and>
   (\<exists>k. trace 2 (exec (Invoke 2 (C_P (Ptr 0)) # sem_demo_rest) sem_demo_mid) =
      trace 2 sem_demo_mid @ P_prologue (Ptr 0) @
      concat (replicate k (P_handoff (Ptr 0))) @ P_epilogue (Ptr 0)) \<and>
   t_in_interrupt (threads irq_state 9) \<and>
   status (exec [Invoke 9 (C_P (Ptr 0)), Step 9, Step 9] (start irq_state)) = Panicked \<and>
   status (exec (Invoke 1 (C_P (Ptr 0)) # replicate 7 (Step 1)) (start sem_demo_state)) = Running \<and>
   code (exec (Invoke 1 (C_P (Ptr 0)) # replicate 7 (Step 1)) (start sem_demo_state)) 1 = [] \<and>
   status (exec (Invoke 3 (C_P (Ptr 0)) # replicate 7 (Step 3)) (start objects)) = Running \<and>
   st (exec (Invoke 3 (C_P (Ptr 0)) # replicate 7 (Step 3)) (start objects)) =
     set_t_state 3 S_SLEEP (objects\<lparr>wchans := (wchans objects)
        (2 \<mapsto> \<lparr>wc_name = Ptr 1, wc_lock = None, wc_threads = [3]\<rparr>)\<rparr>)"
proof -
  have g: "status sem_demo_mid = Running" "code sem_demo_mid 2 = []"
    "t_state (threads (st sem_demo_mid) 2) = S_READY"
    by (simp_all add: sem_demo_mid_eq sem_demo_state_eq)
  have g4: "\<forall>f. Invoke 2 f \<notin> set sem_demo_rest"
    by (simp add: sem_demo_rest_def)
  have i: "status (start irq_state) = Running" "code (start irq_state) 9 = []"
    "t_state (threads (st (start irq_state)) 9) = S_READY"
    "t_in_interrupt (threads (st (start irq_state)) 9)"
    by (simp_all add: start_def irq_state_eq)
  have p: "status (start sem_demo_state) = Running" "code (start sem_demo_state) 1 = []"
    "t_state (threads (st (start sem_demo_state)) 1) = S_READY"
    "\<not> t_in_interrupt (threads (st (start sem_demo_state)) 1)"
    "sems (st (start sem_demo_state)) 0 =
       Some \<lparr>sem_name = Ptr 1, sem_wchan = Ptr 2, sem_lock = None, sem_count = 1\<rparr>"
    "sem_lock \<lparr>sem_name = Ptr 1, sem_wchan = Ptr 2, sem_lock = None, sem_count = 1\<rparr> = None"
    "0 < sint (sem_count \<lparr>sem_name = Ptr 1, sem_wchan = Ptr 2, sem_lock = None, sem_count = 1\<rparr>)"
    by (simp_all add: start_def sem_demo_state_eq)
  have z: "status (start objects) = Running" "code (start objects) 3 = []"
    "t_state (threads (st (start objects)) 3) = S_READY"
    "\<not> t_in_interrupt (threads (st (start objects)) 3)"
    "sems (st (start objects)) 0 =
       Some \<lparr>sem_name = Ptr 1, sem_wchan = Ptr 2, sem_lock = None, sem_count = 0\<rparr>"
    "sem_lock \<lparr>sem_name = Ptr 1, sem_wchan = Ptr 2, sem_lock = None, sem_count = 0\<rparr> = None"
    "sem_count \<lparr>sem_name = Ptr 1, sem_wchan = Ptr 2, sem_lock = None, sem_count = 0\<rparr> = 0"
    "sem_wchan \<lparr>sem_name = Ptr 1, sem_wchan = Ptr 2, sem_lock = None, sem_count = 0\<rparr> = Ptr 2"
    "wchans (st (start objects)) 2 = Some \<lparr>wc_name = Ptr 1, wc_lock = None, wc_threads = []\<rparr>"
    "wc_lock \<lparr>wc_name = Ptr 1, wc_lock = None, wc_threads = []\<rparr> = None"
    by (simp_all add: start_def objects_eq)
  have q: "t_in_interrupt (threads irq_state 9)"
    by (simp add: irq_state_eq)
  note w = P_protocol [OF g g4 refl conjunct1 [OF sem_demo_trace2] i refl p refl z refl]
  from w have 1: "\<exists>k. trace 2 (exec (Invoke 2 (C_P (Ptr 0)) # sem_demo_rest) sem_demo_mid) =
      trace 2 sem_demo_mid @ P_prologue (Ptr 0) @
      concat (replicate k (P_handoff (Ptr 0))) @ P_epilogue (Ptr 0)"
    and 2: "status (exec [Invoke 9 (C_P (Ptr 0)), Step 9, Step 9] (start irq_state)) = Panicked"
    and 3: "status (exec (Invoke 1 (C_P (Ptr 0)) # replicate 7 (Step 1)) (start sem_demo_state)) = Running"
    and 4: "code (exec (Invoke 1 (C_P (Ptr 0)) # replicate 7 (Step 1)) (start sem_demo_state)) 1 = []"
    and 5: "status (exec (Invoke 3 (C_P (Ptr 0)) # replicate 7 (Step 3)) (start objects)) = Running"
    by blast+
  from w have 6: "st (exec (Invoke 3 (C_P (Ptr 0)) # replicate 7 (Step 3)) (start objects)) =
     set_t_state 3 S_SLEEP
       ((st (start objects))\<lparr>wchans := (wchans (st (start objects)))
          (2 \<mapsto> \<lparr>wc_name = Ptr 1, wc_lock = None, wc_threads = [] @ [3]\<rparr>)\<rparr>)"
    by simp
  have 7: "st (start objects) = objects"
    by (simp add: start_def)
  from 6 have 8: "st (exec (Invoke 3 (C_P (Ptr 0)) # replicate 7 (Step 3)) (start objects)) =
     set_t_state 3 S_SLEEP (objects\<lparr>wchans := (wchans objects)
        (2 \<mapsto> \<lparr>wc_name = Ptr 1, wc_lock = None, wc_threads = [3]\<rparr>)\<rparr>)"
    unfolding 7 by simp
  from sem_demo_trace2 1 q 2 3 4 5 8 show ?thesis by blast
qed

text \<open>
  C5. V on a semaphore. (1) Run alone with the spinlock and the channel free, when the
  incremented count is positive V returns with the count one higher, the thread at the
  head of the wait queue (if any) taken off the queue and made runnable, nothing else
  changed and the spinlock free. (2) When the incremented count is not positive (the
  count was INT_MAX and wrapped, or was negative) V halts the kernel and does not return.
  (3) Under every interleaving with other threads, the caller of V is never put to sleep
  from the call on, and a call that returns has run exactly: KASSERT, spinlock_acquire,
  increment, KASSERT(count > 0), wchan_wakeone, spinlock_release.
\<close>

theorem V_protocol:
  assumes "status c = Running" and "code c t = []" and "t_state (threads (st c) t) = S_READY"
    and "sems (st c) a = Some m" and "sem_lock m = None"
    and "sem_wchan m = Ptr w" and "wchans (st c) w = Some wc" and "wc_lock wc = None"
    and "0 < sint (sem_count m + 1)"
    and "c' = exec (Invoke t (C_V (Ptr a)) # replicate 6 (Step t)) c"
    and "status d = Running" and "code d u = []" and "t_state (threads (st d) u) = S_READY"
    and "sems (st d) b = Some m2" and "sem_lock m2 = None"
    and "\<not> 0 < sint (sem_count m2 + 1)"
    and "d' = exec (Invoke u (C_V (Ptr b)) # replicate 6 (Step u)) d"
    and "status g = Running" and "code g tg = []" and "t_state (threads (st g) tg) = S_READY"
    and "\<forall>f. Invoke tg f \<notin> set es"
    and "g' = exec (Invoke tg (C_V (Ptr ag)) # es) g"
  shows "status c' = Running \<and> code c' t = [] \<and>
         st c' =
           (case wc_threads wc of
              [] \<Rightarrow> (st c)\<lparr>sems := (sems (st c))(a \<mapsto> m\<lparr>sem_count := sem_count m + 1\<rparr>)\<rparr>
            | x # xs \<Rightarrow>
                set_t_state x S_READY
                  ((st c)\<lparr>sems := (sems (st c))(a \<mapsto> m\<lparr>sem_count := sem_count m + 1\<rparr>),
                          wchans := (wchans (st c))(w \<mapsto> wc\<lparr>wc_threads := xs\<rparr>)\<rparr>)) \<and>
         status d' = Panicked \<and> code d' u \<noteq> [] \<and>
         t_state (threads (st g') tg) \<noteq> S_SLEEP \<and>
         (code g' tg = [] \<longrightarrow> trace tg g' = trace tg g @ V_events (Ptr ag))"
  using V_runs [OF assms(1-10)] V_overflow [OF assms(11-17)] V_never_sleeps [OF assms(18-22)]
  by blast

lemma full_sem_state_eq:
  "full_sem_state =
     \<lparr>threads = (\<lambda>t. \<lparr>t_in_interrupt = False, t_state = S_READY\<rparr>),
      strs = [1 \<mapsto> ''full''],
      wchans = [2 \<mapsto> \<lparr>wc_name = Ptr 1, wc_lock = None, wc_threads = []\<rparr>],
      sems = [0 \<mapsto> \<lparr>sem_name = Ptr 1, sem_wchan = Ptr 2, sem_lock = None,
                    sem_count = 2147483647\<rparr>],
      locks = Map.empty, cvs = Map.empty, brk = 3\<rparr>"
  by (simp add: full_sem_state_def all_ok_def boot_def sem_create_def
      kmalloc_sem_def kstrdup_def wchan_create_def Let_def eval_nat_numeral)

lemma scene_held_code3:
  "code scene_held 3 =
     Spinlock_acquire (Sem_lock_of (Ptr 0)) # drop 3 (P (Ptr 0)) @ [Return (C_P (Ptr 0))]"
  by (simp add: scene_held_def objects_eq start_def run_simps set_t_state_def replicate_num)

lemma scene_held_V_interleaved:
  "code (exec (Invoke 5 (C_V (Ptr 0)) #
      [Step 5, Step 2, Step 5, Step 5, Step 5, Step 5, Step 3, Step 5, Step 3]) scene_held) 5 = []"
  by (simp add: scene_held_st scene_held_status scene_held_code scene_held_code2
      scene_held_code3 run_simps set_t_state_def)

theorem V_protocol_witness:
  "map_option wc_threads (wchans (st scene_held) 2) = Some [3] \<and>
   t_state (threads (st scene_held) 3) = S_SLEEP \<and>
   status (exec (Invoke 5 (C_V (Ptr 0)) # replicate 6 (Step 5)) scene_held) = Running \<and>
   code (exec (Invoke 5 (C_V (Ptr 0)) # replicate 6 (Step 5)) scene_held) 5 = [] \<and>
   st (exec (Invoke 5 (C_V (Ptr 0)) # replicate 6 (Step 5)) scene_held) =
     set_t_state 3 S_READY
       ((st scene_held)\<lparr>sems := (sems (st scene_held))
            (0 \<mapsto> \<lparr>sem_name = Ptr 1, sem_wchan = Ptr 2, sem_lock = None, sem_count = 1\<rparr>),
          wchans := (wchans (st scene_held))
            (2 \<mapsto> \<lparr>wc_name = Ptr 1, wc_lock = None, wc_threads = []\<rparr>)\<rparr>) \<and>
   status (exec (Invoke 1 (C_V (Ptr 0)) # replicate 6 (Step 1)) (start full_sem_state))
     = Panicked \<and>
   t_state (threads (st (exec (Invoke 5 (C_V (Ptr 0)) #
      [Step 5, Step 2, Step 5, Step 5, Step 5, Step 5, Step 3, Step 5, Step 3]) scene_held)) 5)
     \<noteq> S_SLEEP \<and>
   trace 5 (exec (Invoke 5 (C_V (Ptr 0)) #
      [Step 5, Step 2, Step 5, Step 5, Step 5, Step 5, Step 3, Step 5, Step 3]) scene_held) =
     trace 5 scene_held @ V_events (Ptr 0)"
proof -
  have c3: "t_state (threads (st scene_held) 5) = S_READY"
    and c4: "sems (st scene_held) 0 =
      Some \<lparr>sem_name = Ptr 1, sem_wchan = Ptr 2, sem_lock = None, sem_count = 0\<rparr>"
    and c7: "wchans (st scene_held) 2 = Some \<lparr>wc_name = Ptr 1, wc_lock = None, wc_threads = [3]\<rparr>"
    and q1: "map_option wc_threads (wchans (st scene_held) 2) = Some [3]"
    and q2: "t_state (threads (st scene_held) 3) = S_SLEEP"
    by (simp_all add: scene_held_st)
  have c5: "sem_lock \<lparr>sem_name = Ptr 1, sem_wchan = Ptr 2, sem_lock = None, sem_count = 0\<rparr> = None"
    and c6: "sem_wchan \<lparr>sem_name = Ptr 1, sem_wchan = Ptr 2, sem_lock = None, sem_count = 0\<rparr> = Ptr 2"
    and c8: "wc_lock \<lparr>wc_name = Ptr 1, wc_lock = None, wc_threads = [3]\<rparr> = None"
    and c9: "0 < sint (sem_count \<lparr>sem_name = Ptr 1, sem_wchan = Ptr 2, sem_lock = None,
        sem_count = 0\<rparr> + 1)"
    by simp_all
  have d: "status (start full_sem_state) = Running" "code (start full_sem_state) 1 = []"
    "t_state (threads (st (start full_sem_state)) 1) = S_READY"
    "sems (st (start full_sem_state)) 0 =
       Some \<lparr>sem_name = Ptr 1, sem_wchan = Ptr 2, sem_lock = None, sem_count = 2147483647\<rparr>"
    "sem_lock \<lparr>sem_name = Ptr 1, sem_wchan = Ptr 2, sem_lock = None, sem_count = 2147483647\<rparr> = None"
    "\<not> 0 < sint (sem_count \<lparr>sem_name = Ptr 1, sem_wchan = Ptr 2, sem_lock = None,
        sem_count = 2147483647\<rparr> + 1)"
    by (simp_all add: start_def full_sem_state_eq)
  have g4: "\<forall>f. Invoke 5 f \<notin>
      set [Step 5, Step 2, Step 5, Step 5, Step 5, Step 5, Step 3, Step 5, Step 3]"
    by simp
  define c1 where "c1 = exec (Invoke 5 (C_V (Ptr 0)) # replicate 6 (Step 5)) scene_held"
  define d1 where
    "d1 = exec (Invoke 1 (C_V (Ptr 0)) # replicate 6 (Step 1)) (start full_sem_state)"
  define g1 where "g1 = exec (Invoke 5 (C_V (Ptr 0)) #
      [Step 5, Step 2, Step 5, Step 5, Step 5, Step 5, Step 3, Step 5, Step 3]) scene_held"
  note w = V_protocol [OF scene_held_status scene_held_code c3 c4 c5 c6 c7 c8 c9 c1_def
    d d1_def scene_held_status scene_held_code c3 g4 g1_def]
  from w have 1: "status c1 = Running" and 2: "code c1 5 = []"
    and 4: "status d1 = Panicked"
    and 5: "t_state (threads (st g1) 5) \<noteq> S_SLEEP"
    by blast+
  from scene_held_V_interleaved have "code g1 5 = []"
    by (simp only: g1_def)
  with w have 6: "trace 5 g1 = trace 5 scene_held @ V_events (Ptr 0)"
    by blast
  from w have 3: "st c1 =
     set_t_state 3 S_READY
       ((st scene_held)\<lparr>sems := (sems (st scene_held))
            (0 \<mapsto> \<lparr>sem_name = Ptr 1, sem_wchan = Ptr 2, sem_lock = None, sem_count = 1\<rparr>),
          wchans := (wchans (st scene_held))
            (2 \<mapsto> \<lparr>wc_name = Ptr 1, wc_lock = None, wc_threads = []\<rparr>)\<rparr>)"
    by simp
  from q1 q2 1 2 3 4 5 6 show ?thesis
    unfolding c1_def d1_def g1_def by blast
qed

section \<open>The lock invariant\<close>

lemma hist_owner_advance:
  "hist_owner lk (history (advance t e rest s c)) =
     foldl (hist_step lk) (hist_owner lk (history c)) ((t, e) # map (\<lambda>r. (t, Exec r)) (returns rest))"
  by (simp add: hist_owner_def advance_def)

lemma lock_code_Nil: "lock_code l v loc = [] \<longleftrightarrow> loc = L_idle"
  by (cases loc) (auto simp: bodies)

lemma lock_inv_advance:
  assumes f: "lock_facts l v wl wv c m wcl wcv" and nf: "status c \<noteq> Faulted"
    and s1: "locks s' l = Some m'" and s2: "lk_wchan m' = Ptr wl"
    and s3: "wchans s' wl = Some wcl'" and s4: "cvs s' v = cvs (st c) v"
    and s5: "wchans s' wv = Some wcv'"
    and l': "after_returns rest = lock_code l v loc'"
    and ho': "ho' = hist_owner (Ptr l) (history (advance t ev rest s' c))"
    and ok: "lock_thread_ok l v s' m' wcl' wcv' ho' (trace t c @ ev # map Exec (returns rest)) t loc'"
    and fr: "\<And>t'. t' \<noteq> t \<Longrightarrow>
        (lk_lock m' = Some t') = (lk_lock m = Some t') \<and>
        (wc_lock wcl' = Some t') = (wc_lock wcl = Some t') \<and>
        (wc_lock wcv' = Some t') = (wc_lock wcv = Some t') \<and>
        (lk_owner m' = Some t') = (lk_owner m = Some t') \<and>
        (lk_owner m = Some t' \<longrightarrow> lk_held m' = lk_held m) \<and>
        (t_state (threads s' t') = S_SLEEP \<longrightarrow> t_state (threads (st c) t') = S_SLEEP)"
    and crit: "\<And>t'. t' \<noteq> t \<Longrightarrow> lk_lock m = Some t' \<Longrightarrow>
        lk_held m' = lk_held m \<and> lk_owner m' = lk_owner m \<and>
        ho' = hist_owner (Ptr l) (history c)"
    and free: "lk_lock m' = None \<Longrightarrow> (lk_owner m' \<noteq> None \<longleftrightarrow> lk_held m') \<and> ho' = lk_owner m'"
  shows "lock_inv l v wl wv (advance t ev rest s' c)"
proof -
  let ?c' = "advance t ev rest s' c"
  have "\<exists>loc. code ?c' t' = lock_code l v loc \<and>
      lock_thread_ok l v (st ?c') m' wcl' wcv' (hist_owner (Ptr l) (history ?c')) (trace t' ?c') t' loc" for t'
  proof (cases "t' = t")
    case True
    with l' ok ho' show ?thesis by (auto simp: advance_code advance_st advance_trace)
  next
    case False
    from f obtain loc where loc: "code c t' = lock_code l v loc"
      and o: "lock_thread_ok l v (st c) m wcl wcv (hist_owner (Ptr l) (history c)) (trace t' c) t' loc"
      by (auto simp: lock_facts_def)
    from o fr [OF False] crit [OF False]
    have "lock_thread_ok l v s' m' wcl' wcv' ho' (trace t' c) t' loc"
      unfolding lock_thread_ok_def by (intro conjI impI) auto
    with loc False ho' show ?thesis by (auto simp: advance_code advance_st advance_trace)
  qed
  then have th: "\<forall>t'. \<exists>loc. code ?c' t' = lock_code l v loc \<and>
      lock_thread_ok l v (st ?c') m' wcl' wcv' (hist_owner (Ptr l) (history ?c')) (trace t' ?c') t' loc"
    by blast
  from f have cv: "map_option cv_wchan (cvs (st c) v) = Some (Ptr wv)" and ne: "wl \<noteq> wv"
    by (auto simp: lock_facts_def)
  from free [unfolded ho'] have fr': "lk_lock m' = None \<longrightarrow>
      (lk_owner m' \<noteq> None \<longleftrightarrow> lk_held m') \<and>
      hist_owner (Ptr l) (history ?c') = lk_owner m'"
    by blast
  from cv ne s1 s2 s3 s4 s5
  have A: "locks (st ?c') l = Some m'" "lk_wchan m' = Ptr wl" "wchans (st ?c') wl = Some wcl'"
    "map_option cv_wchan (cvs (st ?c') v) = Some (Ptr wv)" "wchans (st ?c') wv = Some wcv'"
    by (simp_all add: advance_st)
  have "lock_facts l v wl wv ?c' m' wcl' wcv'"
    unfolding lock_facts_def
    using A ne th fr' by blast
  with nf show ?thesis by (auto simp: lock_inv_def advance_status)
qed

lemmas lock_step_simps = run_instr_def bodies spinlock_acquire_def spinlock_release_def
  wchan_lock_def wchan_sleep_def wchan_wakeone_def wchan_wakeall_def lock_do_i_hold_def

lemma fold_wake_locks: "locks (fold (\<lambda>x. set_t_state x S_READY) xs s) = locks s"
  by (induction xs arbitrary: s) (auto simp: set_t_state_def)

lemma fold_wake_cvs: "cvs (fold (\<lambda>x. set_t_state x S_READY) xs s) = cvs s"
  by (induction xs arbitrary: s) (auto simp: set_t_state_def)

lemma lock_inv_same:
  assumes "lock_facts l v wl wv c m wcl wcv" and "status c \<noteq> Faulted"
  shows "lock_inv l v wl wv c"
  using assms by (auto simp: lock_inv_def)

lemma lock_facts_status:
  "lock_facts l v wl wv (c\<lparr>status := x\<rparr>) m wcl wcv = lock_facts l v wl wv c m wcl wcv"
  by (simp add: lock_facts_def)

lemma lock_inv_halt:
  assumes "lock_facts l v wl wv c m wcl wcv"
  shows "lock_inv l v wl wv (c\<lparr>status := Panicked\<rparr>)"
  using assms by (auto simp: lock_inv_def lock_facts_status)

lemma lock_at_acq0:
  assumes f: "lock_facts l v wl wv c m wcl wcv" and run: "status c = Running"
    and ready: "t_state (threads (st c) t) = S_READY"
    and code: "code c t = lock_code l v (L_acq 0 fr)"
    and ok: "lock_thread_ok l v (st c) m wcl wcv (hist_owner (Ptr l) (history c)) (trace t c) t (L_acq 0 fr)"
  shows "lock_inv l v wl wv (step (Step t) c)"
proof -
  from f have m: "locks (st c) l = Some m" "lk_wchan m = Ptr wl" "wchans (st c) wl = Some wcl"
    "map_option cv_wchan (cvs (st c) v) = Some (Ptr wv)" "wchans (st c) wv = Some wcv" "wl \<noteq> wv"
    by (auto simp: lock_facts_def)
  from f have fr: "lk_lock m = None \<Longrightarrow>
      (lk_owner m \<noteq> None \<longleftrightarrow> lk_held m) \<and> hist_owner (Ptr l) (history c) = lk_owner m"
    unfolding lock_facts_def by blast
  have nf: "status c \<noteq> Faulted"
    using run by simp
  note k = m run ready code ok fr
  {
    assume q: "True"
    have e: "step (Step t) c = advance t (Exec (KASSERT (Ptr_not_null (Ptr l)))) (lock_code l v (L_acq 1 fr)) (st c) c"
      using k q by (auto simp: lock_step_simps lock_thread_ok_def split: list.splits)
    have "lock_inv l v wl wv (step (Step t) c)"
      unfolding e
      by (rule lock_inv_advance [OF f nf, where m' = "m" and wcl' = "wcl"
            and wcv' = "wcv" and loc' = "L_acq 1 fr" and ho' = "hist_owner (Ptr l) (history c)"])
         (use k q in \<open>auto simp: lock_thread_ok_def hist_owner_advance hist_step_def bodies
            set_t_state_def returned_owning_def fold_wake_t_state fold_wake_wchans
            fold_wake_locks fold_wake_cvs\<close>)
  }
  then show ?thesis by simp
qed

lemma lock_at_acq1:
  assumes f: "lock_facts l v wl wv c m wcl wcv" and run: "status c = Running"
    and ready: "t_state (threads (st c) t) = S_READY"
    and code: "code c t = lock_code l v (L_acq 1 fr)"
    and ok: "lock_thread_ok l v (st c) m wcl wcv (hist_owner (Ptr l) (history c)) (trace t c) t (L_acq 1 fr)"
  shows "lock_inv l v wl wv (step (Step t) c)"
proof -
  from f have m: "locks (st c) l = Some m" "lk_wchan m = Ptr wl" "wchans (st c) wl = Some wcl"
    "map_option cv_wchan (cvs (st c) v) = Some (Ptr wv)" "wchans (st c) wv = Some wcv" "wl \<noteq> wv"
    by (auto simp: lock_facts_def)
  from f have fr: "lk_lock m = None \<Longrightarrow>
      (lk_owner m \<noteq> None \<longleftrightarrow> lk_held m) \<and> hist_owner (Ptr l) (history c) = lk_owner m"
    unfolding lock_facts_def by blast
  have nf: "status c \<noteq> Faulted"
    using run by simp
  note k = m run ready code ok fr
  {
    assume q: "lk_owner m \<noteq> Some t"
    have e: "step (Step t) c = advance t (Exec (KASSERT (Not_do_i_hold (Ptr l)))) (lock_code l v (L_acq 2 fr)) (st c) c"
      using k q by (auto simp: lock_step_simps lock_thread_ok_def split: list.splits)
    have "lock_inv l v wl wv (step (Step t) c)"
      unfolding e
      by (rule lock_inv_advance [OF f nf, where m' = "m" and wcl' = "wcl"
            and wcv' = "wcv" and loc' = "L_acq 2 fr" and ho' = "hist_owner (Ptr l) (history c)"])
         (use k q in \<open>auto simp: lock_thread_ok_def hist_owner_advance hist_step_def bodies
            set_t_state_def returned_owning_def fold_wake_t_state fold_wake_wchans
            fold_wake_locks fold_wake_cvs\<close>)
  }
  moreover
  {
    assume q: "lk_owner m = Some t"
    have "step (Step t) c = c\<lparr>status := Panicked\<rparr>"
      using k q by (auto simp: lock_step_simps lock_thread_ok_def)
    with f have "lock_inv l v wl wv (step (Step t) c)"
      by (simp add: lock_inv_halt)
  }
  ultimately show ?thesis
    by blast
qed

lemma lock_at_acq2:
  assumes f: "lock_facts l v wl wv c m wcl wcv" and run: "status c = Running"
    and ready: "t_state (threads (st c) t) = S_READY"
    and code: "code c t = lock_code l v (L_acq 2 fr)"
    and ok: "lock_thread_ok l v (st c) m wcl wcv (hist_owner (Ptr l) (history c)) (trace t c) t (L_acq 2 fr)"
  shows "lock_inv l v wl wv (step (Step t) c)"
proof -
  from f have m: "locks (st c) l = Some m" "lk_wchan m = Ptr wl" "wchans (st c) wl = Some wcl"
    "map_option cv_wchan (cvs (st c) v) = Some (Ptr wv)" "wchans (st c) wv = Some wcv" "wl \<noteq> wv"
    by (auto simp: lock_facts_def)
  from f have fr: "lk_lock m = None \<Longrightarrow>
      (lk_owner m \<noteq> None \<longleftrightarrow> lk_held m) \<and> hist_owner (Ptr l) (history c) = lk_owner m"
    unfolding lock_facts_def by blast
  have nf: "status c \<noteq> Faulted"
    using run by simp
  note k = m run ready code ok fr
  {
    assume q: "\<not> t_in_interrupt (threads (st c) t)"
    have e: "step (Step t) c = advance t (Exec (KASSERT Not_in_interrupt)) (lock_code l v (L_acq 3 fr)) (st c) c"
      using k q by (auto simp: lock_step_simps lock_thread_ok_def split: list.splits)
    have "lock_inv l v wl wv (step (Step t) c)"
      unfolding e
      by (rule lock_inv_advance [OF f nf, where m' = "m" and wcl' = "wcl"
            and wcv' = "wcv" and loc' = "L_acq 3 fr" and ho' = "hist_owner (Ptr l) (history c)"])
         (use k q in \<open>auto simp: lock_thread_ok_def hist_owner_advance hist_step_def bodies
            set_t_state_def returned_owning_def fold_wake_t_state fold_wake_wchans
            fold_wake_locks fold_wake_cvs\<close>)
  }
  moreover
  {
    assume q: "t_in_interrupt (threads (st c) t)"
    have "step (Step t) c = c\<lparr>status := Panicked\<rparr>"
      using k q by (auto simp: lock_step_simps lock_thread_ok_def)
    with f have "lock_inv l v wl wv (step (Step t) c)"
      by (simp add: lock_inv_halt)
  }
  ultimately show ?thesis
    by blast
qed

lemma lock_at_acq3:
  assumes f: "lock_facts l v wl wv c m wcl wcv" and run: "status c = Running"
    and ready: "t_state (threads (st c) t) = S_READY"
    and code: "code c t = lock_code l v (L_acq 3 fr)"
    and ok: "lock_thread_ok l v (st c) m wcl wcv (hist_owner (Ptr l) (history c)) (trace t c) t (L_acq 3 fr)"
  shows "lock_inv l v wl wv (step (Step t) c)"
proof -
  from f have m: "locks (st c) l = Some m" "lk_wchan m = Ptr wl" "wchans (st c) wl = Some wcl"
    "map_option cv_wchan (cvs (st c) v) = Some (Ptr wv)" "wchans (st c) wv = Some wcv" "wl \<noteq> wv"
    by (auto simp: lock_facts_def)
  from f have fr: "lk_lock m = None \<Longrightarrow>
      (lk_owner m \<noteq> None \<longleftrightarrow> lk_held m) \<and> hist_owner (Ptr l) (history c) = lk_owner m"
    unfolding lock_facts_def by blast
  have nf: "status c \<noteq> Faulted"
    using run by simp
  note k = m run ready code ok fr
  {
    assume q: "lk_lock m = None"
    have e: "step (Step t) c = advance t (Exec (Spinlock_acquire (Lk_lock_of (Ptr l)))) (lock_code l v (L_acq 4 fr)) ((st c)\<lparr>locks := (locks (st c))(l \<mapsto> m\<lparr>lk_lock := Some t\<rparr>)\<rparr>) c"
      using k q by (auto simp: lock_step_simps lock_thread_ok_def split: list.splits)
    have "lock_inv l v wl wv (step (Step t) c)"
      unfolding e
      by (rule lock_inv_advance [OF f nf, where m' = "m\<lparr>lk_lock := Some t\<rparr>" and wcl' = "wcl"
            and wcv' = "wcv" and loc' = "L_acq 4 fr" and ho' = "hist_owner (Ptr l) (history c)"])
         (use k q in \<open>auto simp: lock_thread_ok_def hist_owner_advance hist_step_def bodies
            set_t_state_def returned_owning_def fold_wake_t_state fold_wake_wchans
            fold_wake_locks fold_wake_cvs\<close>)
  }
  moreover
  {
    assume q: "lk_lock m \<noteq> None"
    have "step (Step t) c = c"
      using k q by (auto simp: lock_step_simps lock_thread_ok_def)
    with f nf have "lock_inv l v wl wv (step (Step t) c)"
      by (simp add: lock_inv_same)
  }
  ultimately show ?thesis
    by (cases "lk_lock m") auto
qed

lemma lock_at_acq4:
  assumes f: "lock_facts l v wl wv c m wcl wcv" and run: "status c = Running"
    and ready: "t_state (threads (st c) t) = S_READY"
    and code: "code c t = lock_code l v (L_acq 4 fr)"
    and ok: "lock_thread_ok l v (st c) m wcl wcv (hist_owner (Ptr l) (history c)) (trace t c) t (L_acq 4 fr)"
  shows "lock_inv l v wl wv (step (Step t) c)"
proof -
  from f have m: "locks (st c) l = Some m" "lk_wchan m = Ptr wl" "wchans (st c) wl = Some wcl"
    "map_option cv_wchan (cvs (st c) v) = Some (Ptr wv)" "wchans (st c) wv = Some wcv" "wl \<noteq> wv"
    by (auto simp: lock_facts_def)
  from f have fr: "lk_lock m = None \<Longrightarrow>
      (lk_owner m \<noteq> None \<longleftrightarrow> lk_held m) \<and> hist_owner (Ptr l) (history c) = lk_owner m"
    unfolding lock_facts_def by blast
  have nf: "status c \<noteq> Faulted"
    using run by simp
  note k = m run ready code ok fr
  {
    assume q: "lk_held m"
    have e: "step (Step t) c = advance t (Test (Lk_is_held (Ptr l)) True) (lock_code l v (L_acqL 0 fr)) (st c) c"
      using k q by (auto simp: lock_step_simps lock_thread_ok_def split: list.splits)
    have "lock_inv l v wl wv (step (Step t) c)"
      unfolding e
      by (rule lock_inv_advance [OF f nf, where m' = "m" and wcl' = "wcl"
            and wcv' = "wcv" and loc' = "L_acqL 0 fr" and ho' = "hist_owner (Ptr l) (history c)"])
         (use k q in \<open>auto simp: lock_thread_ok_def hist_owner_advance hist_step_def bodies
            set_t_state_def returned_owning_def fold_wake_t_state fold_wake_wchans
            fold_wake_locks fold_wake_cvs\<close>)
  }
  moreover
  {
    assume q: "\<not> lk_held m"
    have e: "step (Step t) c = advance t (Test (Lk_is_held (Ptr l)) False) (lock_code l v (L_acq 5 fr)) (st c) c"
      using k q by (auto simp: lock_step_simps lock_thread_ok_def split: list.splits)
    have "lock_inv l v wl wv (step (Step t) c)"
      unfolding e
      by (rule lock_inv_advance [OF f nf, where m' = "m" and wcl' = "wcl"
            and wcv' = "wcv" and loc' = "L_acq 5 fr" and ho' = "hist_owner (Ptr l) (history c)"])
         (use k q in \<open>auto simp: lock_thread_ok_def hist_owner_advance hist_step_def bodies
            set_t_state_def returned_owning_def fold_wake_t_state fold_wake_wchans
            fold_wake_locks fold_wake_cvs\<close>)
  }
  ultimately show ?thesis
    by blast
qed

lemma lock_at_acq5:
  assumes f: "lock_facts l v wl wv c m wcl wcv" and run: "status c = Running"
    and ready: "t_state (threads (st c) t) = S_READY"
    and code: "code c t = lock_code l v (L_acq 5 fr)"
    and ok: "lock_thread_ok l v (st c) m wcl wcv (hist_owner (Ptr l) (history c)) (trace t c) t (L_acq 5 fr)"
  shows "lock_inv l v wl wv (step (Step t) c)"
proof -
  from f have m: "locks (st c) l = Some m" "lk_wchan m = Ptr wl" "wchans (st c) wl = Some wcl"
    "map_option cv_wchan (cvs (st c) v) = Some (Ptr wv)" "wchans (st c) wv = Some wcv" "wl \<noteq> wv"
    by (auto simp: lock_facts_def)
  from f have fr: "lk_lock m = None \<Longrightarrow>
      (lk_owner m \<noteq> None \<longleftrightarrow> lk_held m) \<and> hist_owner (Ptr l) (history c) = lk_owner m"
    unfolding lock_facts_def by blast
  have nf: "status c \<noteq> Faulted"
    using run by simp
  note k = m run ready code ok fr
  {
    assume q: "True"
    have e: "step (Step t) c = advance t (Exec (KASSERT (Lk_not_held (Ptr l)))) (lock_code l v (L_acq 6 fr)) (st c) c"
      using k q by (auto simp: lock_step_simps lock_thread_ok_def split: list.splits)
    have "lock_inv l v wl wv (step (Step t) c)"
      unfolding e
      by (rule lock_inv_advance [OF f nf, where m' = "m" and wcl' = "wcl"
            and wcv' = "wcv" and loc' = "L_acq 6 fr" and ho' = "hist_owner (Ptr l) (history c)"])
         (use k q in \<open>auto simp: lock_thread_ok_def hist_owner_advance hist_step_def bodies
            set_t_state_def returned_owning_def fold_wake_t_state fold_wake_wchans
            fold_wake_locks fold_wake_cvs\<close>)
  }
  then show ?thesis by simp
qed

lemma lock_at_acq6:
  assumes f: "lock_facts l v wl wv c m wcl wcv" and run: "status c = Running"
    and ready: "t_state (threads (st c) t) = S_READY"
    and code: "code c t = lock_code l v (L_acq 6 fr)"
    and ok: "lock_thread_ok l v (st c) m wcl wcv (hist_owner (Ptr l) (history c)) (trace t c) t (L_acq 6 fr)"
  shows "lock_inv l v wl wv (step (Step t) c)"
proof -
  from f have m: "locks (st c) l = Some m" "lk_wchan m = Ptr wl" "wchans (st c) wl = Some wcl"
    "map_option cv_wchan (cvs (st c) v) = Some (Ptr wv)" "wchans (st c) wv = Some wcv" "wl \<noteq> wv"
    by (auto simp: lock_facts_def)
  from f have fr: "lk_lock m = None \<Longrightarrow>
      (lk_owner m \<noteq> None \<longleftrightarrow> lk_held m) \<and> hist_owner (Ptr l) (history c) = lk_owner m"
    unfolding lock_facts_def by blast
  have nf: "status c \<noteq> Faulted"
    using run by simp
  note k = m run ready code ok fr
  {
    assume q: "True"
    have e: "step (Step t) c = advance t (Exec (Set_lk_held (Ptr l) True)) (lock_code l v (L_acq 7 fr)) ((st c)\<lparr>locks := (locks (st c))(l \<mapsto> m\<lparr>lk_held := True\<rparr>)\<rparr>) c"
      using k q by (auto simp: lock_step_simps lock_thread_ok_def split: list.splits)
    have "lock_inv l v wl wv (step (Step t) c)"
      unfolding e
      by (rule lock_inv_advance [OF f nf, where m' = "m\<lparr>lk_held := True\<rparr>" and wcl' = "wcl"
            and wcv' = "wcv" and loc' = "L_acq 7 fr" and ho' = "hist_owner (Ptr l) (history c)"])
         (use k q in \<open>auto simp: lock_thread_ok_def hist_owner_advance hist_step_def bodies
            set_t_state_def returned_owning_def fold_wake_t_state fold_wake_wchans
            fold_wake_locks fold_wake_cvs\<close>)
  }
  then show ?thesis by simp
qed

lemma lock_at_acq7:
  assumes f: "lock_facts l v wl wv c m wcl wcv" and run: "status c = Running"
    and ready: "t_state (threads (st c) t) = S_READY"
    and code: "code c t = lock_code l v (L_acq 7 fr)"
    and ok: "lock_thread_ok l v (st c) m wcl wcv (hist_owner (Ptr l) (history c)) (trace t c) t (L_acq 7 fr)"
  shows "lock_inv l v wl wv (step (Step t) c)"
proof -
  from f have m: "locks (st c) l = Some m" "lk_wchan m = Ptr wl" "wchans (st c) wl = Some wcl"
    "map_option cv_wchan (cvs (st c) v) = Some (Ptr wv)" "wchans (st c) wv = Some wcv" "wl \<noteq> wv"
    by (auto simp: lock_facts_def)
  from f have fr: "lk_lock m = None \<Longrightarrow>
      (lk_owner m \<noteq> None \<longleftrightarrow> lk_held m) \<and> hist_owner (Ptr l) (history c) = lk_owner m"
    unfolding lock_facts_def by blast
  have nf: "status c \<noteq> Faulted"
    using run by simp
  note k = m run ready code ok fr
  {
    assume q: "True"
    have e: "step (Step t) c = advance t (Exec (Set_lk_owner_curthread (Ptr l))) (lock_code l v (L_acq 8 fr)) ((st c)\<lparr>locks := (locks (st c))(l \<mapsto> m\<lparr>lk_owner := Some t\<rparr>)\<rparr>) c"
      using k q by (auto simp: lock_step_simps lock_thread_ok_def split: list.splits)
    have "lock_inv l v wl wv (step (Step t) c)"
      unfolding e
      by (rule lock_inv_advance [OF f nf, where m' = "m\<lparr>lk_owner := Some t\<rparr>" and wcl' = "wcl"
            and wcv' = "wcv" and loc' = "L_acq 8 fr" and ho' = "hist_owner (Ptr l) (history c)"])
         (use k q in \<open>auto simp: lock_thread_ok_def hist_owner_advance hist_step_def bodies
            set_t_state_def returned_owning_def fold_wake_t_state fold_wake_wchans
            fold_wake_locks fold_wake_cvs\<close>)
  }
  then show ?thesis by simp
qed

lemma lock_at_acq8_Top:
  assumes f: "lock_facts l v wl wv c m wcl wcv" and run: "status c = Running"
    and ready: "t_state (threads (st c) t) = S_READY"
    and code: "code c t = lock_code l v (L_acq 8 Top)"
    and ok: "lock_thread_ok l v (st c) m wcl wcv (hist_owner (Ptr l) (history c)) (trace t c) t (L_acq 8 Top)"
  shows "lock_inv l v wl wv (step (Step t) c)"
proof -
  from f have m: "locks (st c) l = Some m" "lk_wchan m = Ptr wl" "wchans (st c) wl = Some wcl"
    "map_option cv_wchan (cvs (st c) v) = Some (Ptr wv)" "wchans (st c) wv = Some wcv" "wl \<noteq> wv"
    by (auto simp: lock_facts_def)
  from f have fr: "lk_lock m = None \<Longrightarrow>
      (lk_owner m \<noteq> None \<longleftrightarrow> lk_held m) \<and> hist_owner (Ptr l) (history c) = lk_owner m"
    unfolding lock_facts_def by blast
  have nf: "status c \<noteq> Faulted"
    using run by simp
  note k = m run ready code ok fr
  {
    assume q: "True"
    have e: "step (Step t) c = advance t (Exec (Spinlock_release (Lk_lock_of (Ptr l)))) (Return (C_lock_acquire (Ptr l)) # acq_rest l v Top) ((st c)\<lparr>locks := (locks (st c))(l \<mapsto> m\<lparr>lk_lock := None\<rparr>)\<rparr>) c"
      using k q by (auto simp: lock_step_simps lock_thread_ok_def split: list.splits)
    have "lock_inv l v wl wv (step (Step t) c)"
      unfolding e
      by (rule lock_inv_advance [OF f nf, where m' = "m\<lparr>lk_lock := None\<rparr>" and wcl' = "wcl"
            and wcv' = "wcv" and loc' = "L_idle" and ho' = "Some t"])
         (use k q in \<open>auto simp: lock_thread_ok_def hist_owner_advance hist_step_def bodies
            set_t_state_def returned_owning_def fold_wake_t_state fold_wake_wchans
            fold_wake_locks fold_wake_cvs\<close>)
  }
  then show ?thesis by simp
qed

lemma lock_at_acq8_In_wait:
  assumes f: "lock_facts l v wl wv c m wcl wcv" and run: "status c = Running"
    and ready: "t_state (threads (st c) t) = S_READY"
    and code: "code c t = lock_code l v (L_acq 8 In_wait)"
    and ok: "lock_thread_ok l v (st c) m wcl wcv (hist_owner (Ptr l) (history c)) (trace t c) t (L_acq 8 In_wait)"
  shows "lock_inv l v wl wv (step (Step t) c)"
proof -
  from f have m: "locks (st c) l = Some m" "lk_wchan m = Ptr wl" "wchans (st c) wl = Some wcl"
    "map_option cv_wchan (cvs (st c) v) = Some (Ptr wv)" "wchans (st c) wv = Some wcv" "wl \<noteq> wv"
    by (auto simp: lock_facts_def)
  from f have fr: "lk_lock m = None \<Longrightarrow>
      (lk_owner m \<noteq> None \<longleftrightarrow> lk_held m) \<and> hist_owner (Ptr l) (history c) = lk_owner m"
    unfolding lock_facts_def by blast
  have nf: "status c \<noteq> Faulted"
    using run by simp
  note k = m run ready code ok fr
  {
    assume q: "True"
    have e: "step (Step t) c = advance t (Exec (Spinlock_release (Lk_lock_of (Ptr l)))) (Return (C_lock_acquire (Ptr l)) # acq_rest l v In_wait) ((st c)\<lparr>locks := (locks (st c))(l \<mapsto> m\<lparr>lk_lock := None\<rparr>)\<rparr>) c"
      using k q by (auto simp: lock_step_simps lock_thread_ok_def split: list.splits)
    have "lock_inv l v wl wv (step (Step t) c)"
      unfolding e
      by (rule lock_inv_advance [OF f nf, where m' = "m\<lparr>lk_lock := None\<rparr>" and wcl' = "wcl"
            and wcv' = "wcv" and loc' = "L_idle" and ho' = "Some t"])
         (use k q in \<open>auto simp: lock_thread_ok_def hist_owner_advance hist_step_def bodies
            set_t_state_def returned_owning_def fold_wake_t_state fold_wake_wchans
            fold_wake_locks fold_wake_cvs\<close>)
  }
  then show ?thesis by simp
qed

lemma lock_at_acqL0:
  assumes f: "lock_facts l v wl wv c m wcl wcv" and run: "status c = Running"
    and ready: "t_state (threads (st c) t) = S_READY"
    and code: "code c t = lock_code l v (L_acqL 0 fr)"
    and ok: "lock_thread_ok l v (st c) m wcl wcv (hist_owner (Ptr l) (history c)) (trace t c) t (L_acqL 0 fr)"
  shows "lock_inv l v wl wv (step (Step t) c)"
proof -
  from f have m: "locks (st c) l = Some m" "lk_wchan m = Ptr wl" "wchans (st c) wl = Some wcl"
    "map_option cv_wchan (cvs (st c) v) = Some (Ptr wv)" "wchans (st c) wv = Some wcv" "wl \<noteq> wv"
    by (auto simp: lock_facts_def)
  from f have fr: "lk_lock m = None \<Longrightarrow>
      (lk_owner m \<noteq> None \<longleftrightarrow> lk_held m) \<and> hist_owner (Ptr l) (history c) = lk_owner m"
    unfolding lock_facts_def by blast
  have nf: "status c \<noteq> Faulted"
    using run by simp
  note k = m run ready code ok fr
  {
    assume q: "wc_lock wcl = None"
    have e: "step (Step t) c = advance t (Exec (Wchan_lock (Lk_wchan_of (Ptr l)))) (lock_code l v (L_acqL 1 fr)) ((st c)\<lparr>wchans := (wchans (st c))(wl \<mapsto> wcl\<lparr>wc_lock := Some t\<rparr>)\<rparr>) c"
      using k q by (auto simp: lock_step_simps lock_thread_ok_def split: list.splits)
    have "lock_inv l v wl wv (step (Step t) c)"
      unfolding e
      by (rule lock_inv_advance [OF f nf, where m' = "m" and wcl' = "wcl\<lparr>wc_lock := Some t\<rparr>"
            and wcv' = "wcv" and loc' = "L_acqL 1 fr" and ho' = "hist_owner (Ptr l) (history c)"])
         (use k q in \<open>auto simp: lock_thread_ok_def hist_owner_advance hist_step_def bodies
            set_t_state_def returned_owning_def fold_wake_t_state fold_wake_wchans
            fold_wake_locks fold_wake_cvs\<close>)
  }
  moreover
  {
    assume q: "wc_lock wcl \<noteq> None"
    have "step (Step t) c = c"
      using k q by (auto simp: lock_step_simps lock_thread_ok_def)
    with f nf have "lock_inv l v wl wv (step (Step t) c)"
      by (simp add: lock_inv_same)
  }
  ultimately show ?thesis
    by (cases "wc_lock wcl") auto
qed

lemma lock_at_acqL1:
  assumes f: "lock_facts l v wl wv c m wcl wcv" and run: "status c = Running"
    and ready: "t_state (threads (st c) t) = S_READY"
    and code: "code c t = lock_code l v (L_acqL 1 fr)"
    and ok: "lock_thread_ok l v (st c) m wcl wcv (hist_owner (Ptr l) (history c)) (trace t c) t (L_acqL 1 fr)"
  shows "lock_inv l v wl wv (step (Step t) c)"
proof -
  from f have m: "locks (st c) l = Some m" "lk_wchan m = Ptr wl" "wchans (st c) wl = Some wcl"
    "map_option cv_wchan (cvs (st c) v) = Some (Ptr wv)" "wchans (st c) wv = Some wcv" "wl \<noteq> wv"
    by (auto simp: lock_facts_def)
  from f have fr: "lk_lock m = None \<Longrightarrow>
      (lk_owner m \<noteq> None \<longleftrightarrow> lk_held m) \<and> hist_owner (Ptr l) (history c) = lk_owner m"
    unfolding lock_facts_def by blast
  have nf: "status c \<noteq> Faulted"
    using run by simp
  note k = m run ready code ok fr
  {
    assume q: "True"
    have e: "step (Step t) c = advance t (Exec (Spinlock_release (Lk_lock_of (Ptr l)))) (lock_code l v (L_acqL 2 fr)) ((st c)\<lparr>locks := (locks (st c))(l \<mapsto> m\<lparr>lk_lock := None\<rparr>)\<rparr>) c"
      using k q by (auto simp: lock_step_simps lock_thread_ok_def split: list.splits)
    have "lock_inv l v wl wv (step (Step t) c)"
      unfolding e
      by (rule lock_inv_advance [OF f nf, where m' = "m\<lparr>lk_lock := None\<rparr>" and wcl' = "wcl"
            and wcv' = "wcv" and loc' = "L_acqL 2 fr" and ho' = "hist_owner (Ptr l) (history c)"])
         (use k q in \<open>auto simp: lock_thread_ok_def hist_owner_advance hist_step_def bodies
            set_t_state_def returned_owning_def fold_wake_t_state fold_wake_wchans
            fold_wake_locks fold_wake_cvs\<close>)
  }
  then show ?thesis by simp
qed

lemma lock_at_acqL2:
  assumes f: "lock_facts l v wl wv c m wcl wcv" and run: "status c = Running"
    and ready: "t_state (threads (st c) t) = S_READY"
    and code: "code c t = lock_code l v (L_acqL 2 fr)"
    and ok: "lock_thread_ok l v (st c) m wcl wcv (hist_owner (Ptr l) (history c)) (trace t c) t (L_acqL 2 fr)"
  shows "lock_inv l v wl wv (step (Step t) c)"
proof -
  from f have m: "locks (st c) l = Some m" "lk_wchan m = Ptr wl" "wchans (st c) wl = Some wcl"
    "map_option cv_wchan (cvs (st c) v) = Some (Ptr wv)" "wchans (st c) wv = Some wcv" "wl \<noteq> wv"
    by (auto simp: lock_facts_def)
  from f have fr: "lk_lock m = None \<Longrightarrow>
      (lk_owner m \<noteq> None \<longleftrightarrow> lk_held m) \<and> hist_owner (Ptr l) (history c) = lk_owner m"
    unfolding lock_facts_def by blast
  have nf: "status c \<noteq> Faulted"
    using run by simp
  note k = m run ready code ok fr
  {
    assume q: "True"
    have e: "step (Step t) c = advance t (Exec (Wchan_sleep (Lk_wchan_of (Ptr l)))) (lock_code l v (L_acqL 3 fr)) (set_t_state t S_SLEEP ((st c)\<lparr>wchans := (wchans (st c))(wl \<mapsto> wcl\<lparr>wc_threads := wc_threads wcl @ [t], wc_lock := None\<rparr>)\<rparr>)) c"
      using k q by (auto simp: lock_step_simps lock_thread_ok_def split: list.splits)
    have "lock_inv l v wl wv (step (Step t) c)"
      unfolding e
      by (rule lock_inv_advance [OF f nf, where m' = "m" and wcl' = "wcl\<lparr>wc_threads := wc_threads wcl @ [t], wc_lock := None\<rparr>"
            and wcv' = "wcv" and loc' = "L_acqL 3 fr" and ho' = "hist_owner (Ptr l) (history c)"])
         (use k q in \<open>auto simp: lock_thread_ok_def hist_owner_advance hist_step_def bodies
            set_t_state_def returned_owning_def fold_wake_t_state fold_wake_wchans
            fold_wake_locks fold_wake_cvs\<close>)
  }
  then show ?thesis by simp
qed

lemma lock_at_acqL3:
  assumes f: "lock_facts l v wl wv c m wcl wcv" and run: "status c = Running"
    and ready: "t_state (threads (st c) t) = S_READY"
    and code: "code c t = lock_code l v (L_acqL 3 fr)"
    and ok: "lock_thread_ok l v (st c) m wcl wcv (hist_owner (Ptr l) (history c)) (trace t c) t (L_acqL 3 fr)"
  shows "lock_inv l v wl wv (step (Step t) c)"
proof -
  from f have m: "locks (st c) l = Some m" "lk_wchan m = Ptr wl" "wchans (st c) wl = Some wcl"
    "map_option cv_wchan (cvs (st c) v) = Some (Ptr wv)" "wchans (st c) wv = Some wcv" "wl \<noteq> wv"
    by (auto simp: lock_facts_def)
  from f have fr: "lk_lock m = None \<Longrightarrow>
      (lk_owner m \<noteq> None \<longleftrightarrow> lk_held m) \<and> hist_owner (Ptr l) (history c) = lk_owner m"
    unfolding lock_facts_def by blast
  have nf: "status c \<noteq> Faulted"
    using run by simp
  note k = m run ready code ok fr
  {
    assume q: "lk_lock m = None"
    have e: "step (Step t) c = advance t (Exec (Spinlock_acquire (Lk_lock_of (Ptr l)))) (lock_code l v (L_acq 4 fr)) ((st c)\<lparr>locks := (locks (st c))(l \<mapsto> m\<lparr>lk_lock := Some t\<rparr>)\<rparr>) c"
      using k q by (auto simp: lock_step_simps lock_thread_ok_def split: list.splits)
    have "lock_inv l v wl wv (step (Step t) c)"
      unfolding e
      by (rule lock_inv_advance [OF f nf, where m' = "m\<lparr>lk_lock := Some t\<rparr>" and wcl' = "wcl"
            and wcv' = "wcv" and loc' = "L_acq 4 fr" and ho' = "hist_owner (Ptr l) (history c)"])
         (use k q in \<open>auto simp: lock_thread_ok_def hist_owner_advance hist_step_def bodies
            set_t_state_def returned_owning_def fold_wake_t_state fold_wake_wchans
            fold_wake_locks fold_wake_cvs\<close>)
  }
  moreover
  {
    assume q: "lk_lock m \<noteq> None"
    have "step (Step t) c = c"
      using k q by (auto simp: lock_step_simps lock_thread_ok_def)
    with f nf have "lock_inv l v wl wv (step (Step t) c)"
      by (simp add: lock_inv_same)
  }
  ultimately show ?thesis
    by (cases "lk_lock m") auto
qed

lemma lock_at_rel0:
  assumes f: "lock_facts l v wl wv c m wcl wcv" and run: "status c = Running"
    and ready: "t_state (threads (st c) t) = S_READY"
    and code: "code c t = lock_code l v (L_rel 0 fr)"
    and ok: "lock_thread_ok l v (st c) m wcl wcv (hist_owner (Ptr l) (history c)) (trace t c) t (L_rel 0 fr)"
  shows "lock_inv l v wl wv (step (Step t) c)"
proof -
  from f have m: "locks (st c) l = Some m" "lk_wchan m = Ptr wl" "wchans (st c) wl = Some wcl"
    "map_option cv_wchan (cvs (st c) v) = Some (Ptr wv)" "wchans (st c) wv = Some wcv" "wl \<noteq> wv"
    by (auto simp: lock_facts_def)
  from f have fr: "lk_lock m = None \<Longrightarrow>
      (lk_owner m \<noteq> None \<longleftrightarrow> lk_held m) \<and> hist_owner (Ptr l) (history c) = lk_owner m"
    unfolding lock_facts_def by blast
  have nf: "status c \<noteq> Faulted"
    using run by simp
  note k = m run ready code ok fr
  {
    assume q: "True"
    have e: "step (Step t) c = advance t (Exec (KASSERT (Ptr_not_null (Ptr l)))) (lock_code l v (L_rel 1 fr)) (st c) c"
      using k q by (auto simp: lock_step_simps lock_thread_ok_def split: list.splits)
    have "lock_inv l v wl wv (step (Step t) c)"
      unfolding e
      by (rule lock_inv_advance [OF f nf, where m' = "m" and wcl' = "wcl"
            and wcv' = "wcv" and loc' = "L_rel 1 fr" and ho' = "hist_owner (Ptr l) (history c)"])
         (use k q in \<open>auto simp: lock_thread_ok_def hist_owner_advance hist_step_def bodies
            set_t_state_def returned_owning_def fold_wake_t_state fold_wake_wchans
            fold_wake_locks fold_wake_cvs\<close>)
  }
  then show ?thesis by simp
qed

lemma lock_at_rel1:
  assumes f: "lock_facts l v wl wv c m wcl wcv" and run: "status c = Running"
    and ready: "t_state (threads (st c) t) = S_READY"
    and code: "code c t = lock_code l v (L_rel 1 fr)"
    and ok: "lock_thread_ok l v (st c) m wcl wcv (hist_owner (Ptr l) (history c)) (trace t c) t (L_rel 1 fr)"
  shows "lock_inv l v wl wv (step (Step t) c)"
proof -
  from f have m: "locks (st c) l = Some m" "lk_wchan m = Ptr wl" "wchans (st c) wl = Some wcl"
    "map_option cv_wchan (cvs (st c) v) = Some (Ptr wv)" "wchans (st c) wv = Some wcv" "wl \<noteq> wv"
    by (auto simp: lock_facts_def)
  from f have fr: "lk_lock m = None \<Longrightarrow>
      (lk_owner m \<noteq> None \<longleftrightarrow> lk_held m) \<and> hist_owner (Ptr l) (history c) = lk_owner m"
    unfolding lock_facts_def by blast
  have nf: "status c \<noteq> Faulted"
    using run by simp
  note k = m run ready code ok fr
  {
    assume q: "lk_owner m = Some t"
    have e: "step (Step t) c = advance t (Exec (KASSERT (Do_i_hold (Ptr l)))) (lock_code l v (L_rel 2 fr)) (st c) c"
      using k q by (auto simp: lock_step_simps lock_thread_ok_def split: list.splits)
    have "lock_inv l v wl wv (step (Step t) c)"
      unfolding e
      by (rule lock_inv_advance [OF f nf, where m' = "m" and wcl' = "wcl"
            and wcv' = "wcv" and loc' = "L_rel 2 fr" and ho' = "hist_owner (Ptr l) (history c)"])
         (use k q in \<open>auto simp: lock_thread_ok_def hist_owner_advance hist_step_def bodies
            set_t_state_def returned_owning_def fold_wake_t_state fold_wake_wchans
            fold_wake_locks fold_wake_cvs\<close>)
  }
  moreover
  {
    assume q: "lk_owner m \<noteq> Some t"
    have "step (Step t) c = c\<lparr>status := Panicked\<rparr>"
      using k q by (auto simp: lock_step_simps lock_thread_ok_def)
    with f have "lock_inv l v wl wv (step (Step t) c)"
      by (simp add: lock_inv_halt)
  }
  ultimately show ?thesis
    by blast
qed

lemma lock_at_rel2:
  assumes f: "lock_facts l v wl wv c m wcl wcv" and run: "status c = Running"
    and ready: "t_state (threads (st c) t) = S_READY"
    and code: "code c t = lock_code l v (L_rel 2 fr)"
    and ok: "lock_thread_ok l v (st c) m wcl wcv (hist_owner (Ptr l) (history c)) (trace t c) t (L_rel 2 fr)"
  shows "lock_inv l v wl wv (step (Step t) c)"
proof -
  from f have m: "locks (st c) l = Some m" "lk_wchan m = Ptr wl" "wchans (st c) wl = Some wcl"
    "map_option cv_wchan (cvs (st c) v) = Some (Ptr wv)" "wchans (st c) wv = Some wcv" "wl \<noteq> wv"
    by (auto simp: lock_facts_def)
  from f have fr: "lk_lock m = None \<Longrightarrow>
      (lk_owner m \<noteq> None \<longleftrightarrow> lk_held m) \<and> hist_owner (Ptr l) (history c) = lk_owner m"
    unfolding lock_facts_def by blast
  have nf: "status c \<noteq> Faulted"
    using run by simp
  note k = m run ready code ok fr
  {
    assume q: "lk_lock m = None"
    have e: "step (Step t) c = advance t (Exec (Spinlock_acquire (Lk_lock_of (Ptr l)))) (lock_code l v (L_rel 3 fr)) ((st c)\<lparr>locks := (locks (st c))(l \<mapsto> m\<lparr>lk_lock := Some t\<rparr>)\<rparr>) c"
      using k q by (auto simp: lock_step_simps lock_thread_ok_def split: list.splits)
    have "lock_inv l v wl wv (step (Step t) c)"
      unfolding e
      by (rule lock_inv_advance [OF f nf, where m' = "m\<lparr>lk_lock := Some t\<rparr>" and wcl' = "wcl"
            and wcv' = "wcv" and loc' = "L_rel 3 fr" and ho' = "hist_owner (Ptr l) (history c)"])
         (use k q in \<open>auto simp: lock_thread_ok_def hist_owner_advance hist_step_def bodies
            set_t_state_def returned_owning_def fold_wake_t_state fold_wake_wchans
            fold_wake_locks fold_wake_cvs\<close>)
  }
  moreover
  {
    assume q: "lk_lock m \<noteq> None"
    have "step (Step t) c = c"
      using k q by (auto simp: lock_step_simps lock_thread_ok_def)
    with f nf have "lock_inv l v wl wv (step (Step t) c)"
      by (simp add: lock_inv_same)
  }
  ultimately show ?thesis
    by (cases "lk_lock m") auto
qed

lemma lock_at_rel3:
  assumes f: "lock_facts l v wl wv c m wcl wcv" and run: "status c = Running"
    and ready: "t_state (threads (st c) t) = S_READY"
    and code: "code c t = lock_code l v (L_rel 3 fr)"
    and ok: "lock_thread_ok l v (st c) m wcl wcv (hist_owner (Ptr l) (history c)) (trace t c) t (L_rel 3 fr)"
  shows "lock_inv l v wl wv (step (Step t) c)"
proof -
  from f have m: "locks (st c) l = Some m" "lk_wchan m = Ptr wl" "wchans (st c) wl = Some wcl"
    "map_option cv_wchan (cvs (st c) v) = Some (Ptr wv)" "wchans (st c) wv = Some wcv" "wl \<noteq> wv"
    by (auto simp: lock_facts_def)
  from f have fr: "lk_lock m = None \<Longrightarrow>
      (lk_owner m \<noteq> None \<longleftrightarrow> lk_held m) \<and> hist_owner (Ptr l) (history c) = lk_owner m"
    unfolding lock_facts_def by blast
  have nf: "status c \<noteq> Faulted"
    using run by simp
  note k = m run ready code ok fr
  {
    assume q: "True"
    have e: "step (Step t) c = advance t (Exec (Set_lk_held (Ptr l) False)) (lock_code l v (L_rel 4 fr)) ((st c)\<lparr>locks := (locks (st c))(l \<mapsto> m\<lparr>lk_held := False\<rparr>)\<rparr>) c"
      using k q by (auto simp: lock_step_simps lock_thread_ok_def split: list.splits)
    have "lock_inv l v wl wv (step (Step t) c)"
      unfolding e
      by (rule lock_inv_advance [OF f nf, where m' = "m\<lparr>lk_held := False\<rparr>" and wcl' = "wcl"
            and wcv' = "wcv" and loc' = "L_rel 4 fr" and ho' = "hist_owner (Ptr l) (history c)"])
         (use k q in \<open>auto simp: lock_thread_ok_def hist_owner_advance hist_step_def bodies
            set_t_state_def returned_owning_def fold_wake_t_state fold_wake_wchans
            fold_wake_locks fold_wake_cvs\<close>)
  }
  then show ?thesis by simp
qed

lemma lock_at_rel4:
  assumes f: "lock_facts l v wl wv c m wcl wcv" and run: "status c = Running"
    and ready: "t_state (threads (st c) t) = S_READY"
    and code: "code c t = lock_code l v (L_rel 4 fr)"
    and ok: "lock_thread_ok l v (st c) m wcl wcv (hist_owner (Ptr l) (history c)) (trace t c) t (L_rel 4 fr)"
  shows "lock_inv l v wl wv (step (Step t) c)"
proof -
  from f have m: "locks (st c) l = Some m" "lk_wchan m = Ptr wl" "wchans (st c) wl = Some wcl"
    "map_option cv_wchan (cvs (st c) v) = Some (Ptr wv)" "wchans (st c) wv = Some wcv" "wl \<noteq> wv"
    by (auto simp: lock_facts_def)
  from f have fr: "lk_lock m = None \<Longrightarrow>
      (lk_owner m \<noteq> None \<longleftrightarrow> lk_held m) \<and> hist_owner (Ptr l) (history c) = lk_owner m"
    unfolding lock_facts_def by blast
  have nf: "status c \<noteq> Faulted"
    using run by simp
  note k = m run ready code ok fr
  {
    assume q: "True"
    have e: "step (Step t) c = advance t (Exec (Set_lk_owner_null (Ptr l))) (lock_code l v (L_rel 5 fr)) ((st c)\<lparr>locks := (locks (st c))(l \<mapsto> m\<lparr>lk_owner := None\<rparr>)\<rparr>) c"
      using k q by (auto simp: lock_step_simps lock_thread_ok_def split: list.splits)
    have "lock_inv l v wl wv (step (Step t) c)"
      unfolding e
      by (rule lock_inv_advance [OF f nf, where m' = "m\<lparr>lk_owner := None\<rparr>" and wcl' = "wcl"
            and wcv' = "wcv" and loc' = "L_rel 5 fr" and ho' = "hist_owner (Ptr l) (history c)"])
         (use k q in \<open>auto simp: lock_thread_ok_def hist_owner_advance hist_step_def bodies
            set_t_state_def returned_owning_def fold_wake_t_state fold_wake_wchans
            fold_wake_locks fold_wake_cvs\<close>)
  }
  then show ?thesis by simp
qed

lemma lock_at_rel5:
  assumes f: "lock_facts l v wl wv c m wcl wcv" and run: "status c = Running"
    and ready: "t_state (threads (st c) t) = S_READY"
    and code: "code c t = lock_code l v (L_rel 5 fr)"
    and ok: "lock_thread_ok l v (st c) m wcl wcv (hist_owner (Ptr l) (history c)) (trace t c) t (L_rel 5 fr)"
  shows "lock_inv l v wl wv (step (Step t) c)"
proof -
  from f have m: "locks (st c) l = Some m" "lk_wchan m = Ptr wl" "wchans (st c) wl = Some wcl"
    "map_option cv_wchan (cvs (st c) v) = Some (Ptr wv)" "wchans (st c) wv = Some wcv" "wl \<noteq> wv"
    by (auto simp: lock_facts_def)
  from f have fr: "lk_lock m = None \<Longrightarrow>
      (lk_owner m \<noteq> None \<longleftrightarrow> lk_held m) \<and> hist_owner (Ptr l) (history c) = lk_owner m"
    unfolding lock_facts_def by blast
  have nf: "status c \<noteq> Faulted"
    using run by simp
  note k = m run ready code ok fr
  {
    assume q: "wc_lock wcl = None \<and> wc_threads wcl = []"
    have e: "step (Step t) c = advance t (Exec (Wchan_wakeone (Lk_wchan_of (Ptr l)))) (lock_code l v (L_rel 6 fr)) (st c) c"
      using k q by (auto simp: lock_step_simps lock_thread_ok_def split: list.splits)
    have "lock_inv l v wl wv (step (Step t) c)"
      unfolding e
      by (rule lock_inv_advance [OF f nf, where m' = "m" and wcl' = "wcl"
            and wcv' = "wcv" and loc' = "L_rel 6 fr" and ho' = "hist_owner (Ptr l) (history c)"])
         (use k q in \<open>auto simp: lock_thread_ok_def hist_owner_advance hist_step_def bodies
            set_t_state_def returned_owning_def fold_wake_t_state fold_wake_wchans
            fold_wake_locks fold_wake_cvs\<close>)
  }
  moreover
  {
    assume q: "wc_lock wcl = None \<and> wc_threads wcl \<noteq> []"
    have e: "step (Step t) c = advance t (Exec (Wchan_wakeone (Lk_wchan_of (Ptr l)))) (lock_code l v (L_rel 6 fr)) (set_t_state (hd (wc_threads wcl)) S_READY ((st c)\<lparr>wchans := (wchans (st c))(wl \<mapsto> wcl\<lparr>wc_threads := tl (wc_threads wcl)\<rparr>)\<rparr>)) c"
      using k q by (auto simp: lock_step_simps lock_thread_ok_def split: list.splits)
    have "lock_inv l v wl wv (step (Step t) c)"
      unfolding e
      by (rule lock_inv_advance [OF f nf, where m' = "m" and wcl' = "wcl\<lparr>wc_threads := tl (wc_threads wcl)\<rparr>"
            and wcv' = "wcv" and loc' = "L_rel 6 fr" and ho' = "hist_owner (Ptr l) (history c)"])
         (use k q in \<open>auto simp: lock_thread_ok_def hist_owner_advance hist_step_def bodies
            set_t_state_def returned_owning_def fold_wake_t_state fold_wake_wchans
            fold_wake_locks fold_wake_cvs\<close>)
  }
  moreover
  {
    assume q: "wc_lock wcl \<noteq> None"
    have "step (Step t) c = c"
      using k q by (auto simp: lock_step_simps lock_thread_ok_def)
    with f nf have "lock_inv l v wl wv (step (Step t) c)"
      by (simp add: lock_inv_same)
  }
  ultimately show ?thesis
    by (cases "wc_lock wcl"; cases "wc_threads wcl") auto
qed

lemma lock_at_rel6_Top:
  assumes f: "lock_facts l v wl wv c m wcl wcv" and run: "status c = Running"
    and ready: "t_state (threads (st c) t) = S_READY"
    and code: "code c t = lock_code l v (L_rel 6 Top)"
    and ok: "lock_thread_ok l v (st c) m wcl wcv (hist_owner (Ptr l) (history c)) (trace t c) t (L_rel 6 Top)"
  shows "lock_inv l v wl wv (step (Step t) c)"
proof -
  from f have m: "locks (st c) l = Some m" "lk_wchan m = Ptr wl" "wchans (st c) wl = Some wcl"
    "map_option cv_wchan (cvs (st c) v) = Some (Ptr wv)" "wchans (st c) wv = Some wcv" "wl \<noteq> wv"
    by (auto simp: lock_facts_def)
  from f have fr: "lk_lock m = None \<Longrightarrow>
      (lk_owner m \<noteq> None \<longleftrightarrow> lk_held m) \<and> hist_owner (Ptr l) (history c) = lk_owner m"
    unfolding lock_facts_def by blast
  have nf: "status c \<noteq> Faulted"
    using run by simp
  note k = m run ready code ok fr
  {
    assume q: "True"
    have e: "step (Step t) c = advance t (Exec (Spinlock_release (Lk_lock_of (Ptr l)))) (Return (C_lock_release (Ptr l)) # rel_rest l v Top) ((st c)\<lparr>locks := (locks (st c))(l \<mapsto> m\<lparr>lk_lock := None\<rparr>)\<rparr>) c"
      using k q by (auto simp: lock_step_simps lock_thread_ok_def split: list.splits)
    have "lock_inv l v wl wv (step (Step t) c)"
      unfolding e
      by (rule lock_inv_advance [OF f nf, where m' = "m\<lparr>lk_lock := None\<rparr>" and wcl' = "wcl"
            and wcv' = "wcv" and loc' = "L_idle" and ho' = "None"])
         (use k q in \<open>auto simp: lock_thread_ok_def hist_owner_advance hist_step_def bodies
            set_t_state_def returned_owning_def fold_wake_t_state fold_wake_wchans
            fold_wake_locks fold_wake_cvs\<close>)
  }
  then show ?thesis by simp
qed

lemma lock_at_rel6_In_wait:
  assumes f: "lock_facts l v wl wv c m wcl wcv" and run: "status c = Running"
    and ready: "t_state (threads (st c) t) = S_READY"
    and code: "code c t = lock_code l v (L_rel 6 In_wait)"
    and ok: "lock_thread_ok l v (st c) m wcl wcv (hist_owner (Ptr l) (history c)) (trace t c) t (L_rel 6 In_wait)"
  shows "lock_inv l v wl wv (step (Step t) c)"
proof -
  from f have m: "locks (st c) l = Some m" "lk_wchan m = Ptr wl" "wchans (st c) wl = Some wcl"
    "map_option cv_wchan (cvs (st c) v) = Some (Ptr wv)" "wchans (st c) wv = Some wcv" "wl \<noteq> wv"
    by (auto simp: lock_facts_def)
  from f have fr: "lk_lock m = None \<Longrightarrow>
      (lk_owner m \<noteq> None \<longleftrightarrow> lk_held m) \<and> hist_owner (Ptr l) (history c) = lk_owner m"
    unfolding lock_facts_def by blast
  have nf: "status c \<noteq> Faulted"
    using run by simp
  note k = m run ready code ok fr
  {
    assume q: "True"
    have e: "step (Step t) c = advance t (Exec (Spinlock_release (Lk_lock_of (Ptr l)))) (Return (C_lock_release (Ptr l)) # rel_rest l v In_wait) ((st c)\<lparr>locks := (locks (st c))(l \<mapsto> m\<lparr>lk_lock := None\<rparr>)\<rparr>) c"
      using k q by (auto simp: lock_step_simps lock_thread_ok_def split: list.splits)
    have "lock_inv l v wl wv (step (Step t) c)"
      unfolding e
      by (rule lock_inv_advance [OF f nf, where m' = "m\<lparr>lk_lock := None\<rparr>" and wcl' = "wcl"
            and wcv' = "wcv" and loc' = "L_wait 5" and ho' = "None"])
         (use k q in \<open>auto simp: lock_thread_ok_def hist_owner_advance hist_step_def bodies
            set_t_state_def returned_owning_def fold_wake_t_state fold_wake_wchans
            fold_wake_locks fold_wake_cvs\<close>)
  }
  then show ?thesis by simp
qed

lemma lock_at_wait0:
  assumes f: "lock_facts l v wl wv c m wcl wcv" and run: "status c = Running"
    and ready: "t_state (threads (st c) t) = S_READY"
    and code: "code c t = lock_code l v (L_wait 0)"
    and ok: "lock_thread_ok l v (st c) m wcl wcv (hist_owner (Ptr l) (history c)) (trace t c) t (L_wait 0)"
  shows "lock_inv l v wl wv (step (Step t) c)"
proof -
  from f have m: "locks (st c) l = Some m" "lk_wchan m = Ptr wl" "wchans (st c) wl = Some wcl"
    "map_option cv_wchan (cvs (st c) v) = Some (Ptr wv)" "wchans (st c) wv = Some wcv" "wl \<noteq> wv"
    by (auto simp: lock_facts_def)
  from f have fr: "lk_lock m = None \<Longrightarrow>
      (lk_owner m \<noteq> None \<longleftrightarrow> lk_held m) \<and> hist_owner (Ptr l) (history c) = lk_owner m"
    unfolding lock_facts_def by blast
  have nf: "status c \<noteq> Faulted"
    using run by simp
  note k = m run ready code ok fr
  {
    assume q: "True"
    have e: "step (Step t) c = advance t (Exec (KASSERT (Ptr_not_null (Ptr v)))) (lock_code l v (L_wait 1)) (st c) c"
      using k q by (auto simp: lock_step_simps lock_thread_ok_def split: list.splits)
    have "lock_inv l v wl wv (step (Step t) c)"
      unfolding e
      by (rule lock_inv_advance [OF f nf, where m' = "m" and wcl' = "wcl"
            and wcv' = "wcv" and loc' = "L_wait 1" and ho' = "hist_owner (Ptr l) (history c)"])
         (use k q in \<open>auto simp: lock_thread_ok_def hist_owner_advance hist_step_def bodies
            set_t_state_def returned_owning_def fold_wake_t_state fold_wake_wchans
            fold_wake_locks fold_wake_cvs\<close>)
  }
  then show ?thesis by simp
qed

lemma lock_at_wait1:
  assumes f: "lock_facts l v wl wv c m wcl wcv" and run: "status c = Running"
    and ready: "t_state (threads (st c) t) = S_READY"
    and code: "code c t = lock_code l v (L_wait 1)"
    and ok: "lock_thread_ok l v (st c) m wcl wcv (hist_owner (Ptr l) (history c)) (trace t c) t (L_wait 1)"
  shows "lock_inv l v wl wv (step (Step t) c)"
proof -
  from f have m: "locks (st c) l = Some m" "lk_wchan m = Ptr wl" "wchans (st c) wl = Some wcl"
    "map_option cv_wchan (cvs (st c) v) = Some (Ptr wv)" "wchans (st c) wv = Some wcv" "wl \<noteq> wv"
    by (auto simp: lock_facts_def)
  from f have fr: "lk_lock m = None \<Longrightarrow>
      (lk_owner m \<noteq> None \<longleftrightarrow> lk_held m) \<and> hist_owner (Ptr l) (history c) = lk_owner m"
    unfolding lock_facts_def by blast
  have nf: "status c \<noteq> Faulted"
    using run by simp
  note k = m run ready code ok fr
  {
    assume q: "True"
    have e: "step (Step t) c = advance t (Exec (KASSERT (Ptr_not_null (Ptr l)))) (lock_code l v (L_wait 2)) (st c) c"
      using k q by (auto simp: lock_step_simps lock_thread_ok_def split: list.splits)
    have "lock_inv l v wl wv (step (Step t) c)"
      unfolding e
      by (rule lock_inv_advance [OF f nf, where m' = "m" and wcl' = "wcl"
            and wcv' = "wcv" and loc' = "L_wait 2" and ho' = "hist_owner (Ptr l) (history c)"])
         (use k q in \<open>auto simp: lock_thread_ok_def hist_owner_advance hist_step_def bodies
            set_t_state_def returned_owning_def fold_wake_t_state fold_wake_wchans
            fold_wake_locks fold_wake_cvs\<close>)
  }
  then show ?thesis by simp
qed

lemma lock_at_wait2:
  assumes f: "lock_facts l v wl wv c m wcl wcv" and run: "status c = Running"
    and ready: "t_state (threads (st c) t) = S_READY"
    and code: "code c t = lock_code l v (L_wait 2)"
    and ok: "lock_thread_ok l v (st c) m wcl wcv (hist_owner (Ptr l) (history c)) (trace t c) t (L_wait 2)"
  shows "lock_inv l v wl wv (step (Step t) c)"
proof -
  from f have m: "locks (st c) l = Some m" "lk_wchan m = Ptr wl" "wchans (st c) wl = Some wcl"
    "map_option cv_wchan (cvs (st c) v) = Some (Ptr wv)" "wchans (st c) wv = Some wcv" "wl \<noteq> wv"
    by (auto simp: lock_facts_def)
  from f have fr: "lk_lock m = None \<Longrightarrow>
      (lk_owner m \<noteq> None \<longleftrightarrow> lk_held m) \<and> hist_owner (Ptr l) (history c) = lk_owner m"
    unfolding lock_facts_def by blast
  have nf: "status c \<noteq> Faulted"
    using run by simp
  note k = m run ready code ok fr
  {
    assume q: "lk_owner m = Some t"
    have e: "step (Step t) c = advance t (Exec (KASSERT (Do_i_hold (Ptr l)))) (lock_code l v (L_wait 3)) (st c) c"
      using k q by (auto simp: lock_step_simps lock_thread_ok_def split: list.splits)
    have "lock_inv l v wl wv (step (Step t) c)"
      unfolding e
      by (rule lock_inv_advance [OF f nf, where m' = "m" and wcl' = "wcl"
            and wcv' = "wcv" and loc' = "L_wait 3" and ho' = "hist_owner (Ptr l) (history c)"])
         (use k q in \<open>auto simp: lock_thread_ok_def hist_owner_advance hist_step_def bodies
            set_t_state_def returned_owning_def fold_wake_t_state fold_wake_wchans
            fold_wake_locks fold_wake_cvs\<close>)
  }
  moreover
  {
    assume q: "lk_owner m \<noteq> Some t"
    have "step (Step t) c = c\<lparr>status := Panicked\<rparr>"
      using k q by (auto simp: lock_step_simps lock_thread_ok_def)
    with f have "lock_inv l v wl wv (step (Step t) c)"
      by (simp add: lock_inv_halt)
  }
  ultimately show ?thesis
    by blast
qed

lemma lock_at_wait3:
  assumes f: "lock_facts l v wl wv c m wcl wcv" and run: "status c = Running"
    and ready: "t_state (threads (st c) t) = S_READY"
    and code: "code c t = lock_code l v (L_wait 3)"
    and ok: "lock_thread_ok l v (st c) m wcl wcv (hist_owner (Ptr l) (history c)) (trace t c) t (L_wait 3)"
  shows "lock_inv l v wl wv (step (Step t) c)"
proof -
  from f have m: "locks (st c) l = Some m" "lk_wchan m = Ptr wl" "wchans (st c) wl = Some wcl"
    "map_option cv_wchan (cvs (st c) v) = Some (Ptr wv)" "wchans (st c) wv = Some wcv" "wl \<noteq> wv"
    by (auto simp: lock_facts_def)
  from f have fr: "lk_lock m = None \<Longrightarrow>
      (lk_owner m \<noteq> None \<longleftrightarrow> lk_held m) \<and> hist_owner (Ptr l) (history c) = lk_owner m"
    unfolding lock_facts_def by blast
  have nf: "status c \<noteq> Faulted"
    using run by simp
  note k = m run ready code ok fr
  {
    assume q: "wc_lock wcv = None"
    have e: "step (Step t) c = advance t (Exec (Wchan_lock (Cv_wchan_of (Ptr v)))) (lock_code l v (L_wait 4)) ((st c)\<lparr>wchans := (wchans (st c))(wv \<mapsto> wcv\<lparr>wc_lock := Some t\<rparr>)\<rparr>) c"
      using k q by (auto simp: lock_step_simps lock_thread_ok_def split: list.splits)
    have "lock_inv l v wl wv (step (Step t) c)"
      unfolding e
      by (rule lock_inv_advance [OF f nf, where m' = "m" and wcl' = "wcl"
            and wcv' = "wcv\<lparr>wc_lock := Some t\<rparr>" and loc' = "L_wait 4" and ho' = "hist_owner (Ptr l) (history c)"])
         (use k q in \<open>auto simp: lock_thread_ok_def hist_owner_advance hist_step_def bodies
            set_t_state_def returned_owning_def fold_wake_t_state fold_wake_wchans
            fold_wake_locks fold_wake_cvs\<close>)
  }
  moreover
  {
    assume q: "wc_lock wcv \<noteq> None"
    have "step (Step t) c = c"
      using k q by (auto simp: lock_step_simps lock_thread_ok_def)
    with f nf have "lock_inv l v wl wv (step (Step t) c)"
      by (simp add: lock_inv_same)
  }
  ultimately show ?thesis
    by (cases "wc_lock wcv") auto
qed

lemma lock_at_wait4:
  assumes f: "lock_facts l v wl wv c m wcl wcv" and run: "status c = Running"
    and ready: "t_state (threads (st c) t) = S_READY"
    and code: "code c t = lock_code l v (L_wait 4)"
    and ok: "lock_thread_ok l v (st c) m wcl wcv (hist_owner (Ptr l) (history c)) (trace t c) t (L_wait 4)"
  shows "lock_inv l v wl wv (step (Step t) c)"
proof -
  from f have m: "locks (st c) l = Some m" "lk_wchan m = Ptr wl" "wchans (st c) wl = Some wcl"
    "map_option cv_wchan (cvs (st c) v) = Some (Ptr wv)" "wchans (st c) wv = Some wcv" "wl \<noteq> wv"
    by (auto simp: lock_facts_def)
  from f have fr: "lk_lock m = None \<Longrightarrow>
      (lk_owner m \<noteq> None \<longleftrightarrow> lk_held m) \<and> hist_owner (Ptr l) (history c) = lk_owner m"
    unfolding lock_facts_def by blast
  have nf: "status c \<noteq> Faulted"
    using run by simp
  note k = m run ready code ok fr
  {
    assume q: "True"
    have e: "step (Step t) c = advance t (Exec (Call (C_lock_release (Ptr l)))) (lock_code l v (L_rel 0 In_wait)) (st c) c"
      using k q by (auto simp: lock_step_simps lock_thread_ok_def split: list.splits)
    have "lock_inv l v wl wv (step (Step t) c)"
      unfolding e
      by (rule lock_inv_advance [OF f nf, where m' = "m" and wcl' = "wcl"
            and wcv' = "wcv" and loc' = "L_rel 0 In_wait" and ho' = "hist_owner (Ptr l) (history c)"])
         (use k q in \<open>auto simp: lock_thread_ok_def hist_owner_advance hist_step_def bodies
            set_t_state_def returned_owning_def fold_wake_t_state fold_wake_wchans
            fold_wake_locks fold_wake_cvs\<close>)
  }
  then show ?thesis by simp
qed

lemma lock_at_wait5:
  assumes f: "lock_facts l v wl wv c m wcl wcv" and run: "status c = Running"
    and ready: "t_state (threads (st c) t) = S_READY"
    and code: "code c t = lock_code l v (L_wait 5)"
    and ok: "lock_thread_ok l v (st c) m wcl wcv (hist_owner (Ptr l) (history c)) (trace t c) t (L_wait 5)"
  shows "lock_inv l v wl wv (step (Step t) c)"
proof -
  from f have m: "locks (st c) l = Some m" "lk_wchan m = Ptr wl" "wchans (st c) wl = Some wcl"
    "map_option cv_wchan (cvs (st c) v) = Some (Ptr wv)" "wchans (st c) wv = Some wcv" "wl \<noteq> wv"
    by (auto simp: lock_facts_def)
  from f have fr: "lk_lock m = None \<Longrightarrow>
      (lk_owner m \<noteq> None \<longleftrightarrow> lk_held m) \<and> hist_owner (Ptr l) (history c) = lk_owner m"
    unfolding lock_facts_def by blast
  have nf: "status c \<noteq> Faulted"
    using run by simp
  note k = m run ready code ok fr
  {
    assume q: "True"
    have e: "step (Step t) c = advance t (Exec (Wchan_sleep (Cv_wchan_of (Ptr v)))) (lock_code l v (L_wait 6)) (set_t_state t S_SLEEP ((st c)\<lparr>wchans := (wchans (st c))(wv \<mapsto> wcv\<lparr>wc_threads := wc_threads wcv @ [t], wc_lock := None\<rparr>)\<rparr>)) c"
      using k q by (auto simp: lock_step_simps lock_thread_ok_def split: list.splits)
    have "lock_inv l v wl wv (step (Step t) c)"
      unfolding e
      by (rule lock_inv_advance [OF f nf, where m' = "m" and wcl' = "wcl"
            and wcv' = "wcv\<lparr>wc_threads := wc_threads wcv @ [t], wc_lock := None\<rparr>" and loc' = "L_wait 6" and ho' = "hist_owner (Ptr l) (history c)"])
         (use k q in \<open>auto simp: lock_thread_ok_def hist_owner_advance hist_step_def bodies
            set_t_state_def returned_owning_def fold_wake_t_state fold_wake_wchans
            fold_wake_locks fold_wake_cvs\<close>)
  }
  then show ?thesis by simp
qed

lemma lock_at_wait6:
  assumes f: "lock_facts l v wl wv c m wcl wcv" and run: "status c = Running"
    and ready: "t_state (threads (st c) t) = S_READY"
    and code: "code c t = lock_code l v (L_wait 6)"
    and ok: "lock_thread_ok l v (st c) m wcl wcv (hist_owner (Ptr l) (history c)) (trace t c) t (L_wait 6)"
  shows "lock_inv l v wl wv (step (Step t) c)"
proof -
  from f have m: "locks (st c) l = Some m" "lk_wchan m = Ptr wl" "wchans (st c) wl = Some wcl"
    "map_option cv_wchan (cvs (st c) v) = Some (Ptr wv)" "wchans (st c) wv = Some wcv" "wl \<noteq> wv"
    by (auto simp: lock_facts_def)
  from f have fr: "lk_lock m = None \<Longrightarrow>
      (lk_owner m \<noteq> None \<longleftrightarrow> lk_held m) \<and> hist_owner (Ptr l) (history c) = lk_owner m"
    unfolding lock_facts_def by blast
  have nf: "status c \<noteq> Faulted"
    using run by simp
  note k = m run ready code ok fr
  {
    assume q: "True"
    have e: "step (Step t) c = advance t (Exec (Call (C_lock_acquire (Ptr l)))) (lock_code l v (L_acq 0 In_wait)) (st c) c"
      using k q by (auto simp: lock_step_simps lock_thread_ok_def split: list.splits)
    have "lock_inv l v wl wv (step (Step t) c)"
      unfolding e
      by (rule lock_inv_advance [OF f nf, where m' = "m" and wcl' = "wcl"
            and wcv' = "wcv" and loc' = "L_acq 0 In_wait" and ho' = "hist_owner (Ptr l) (history c)"])
         (use k q in \<open>auto simp: lock_thread_ok_def hist_owner_advance hist_step_def bodies
            set_t_state_def returned_owning_def fold_wake_t_state fold_wake_wchans
            fold_wake_locks fold_wake_cvs\<close>)
  }
  then show ?thesis by simp
qed

lemma lock_at_sig0:
  assumes f: "lock_facts l v wl wv c m wcl wcv" and run: "status c = Running"
    and ready: "t_state (threads (st c) t) = S_READY"
    and code: "code c t = lock_code l v (L_sig 0)"
    and ok: "lock_thread_ok l v (st c) m wcl wcv (hist_owner (Ptr l) (history c)) (trace t c) t (L_sig 0)"
  shows "lock_inv l v wl wv (step (Step t) c)"
proof -
  from f have m: "locks (st c) l = Some m" "lk_wchan m = Ptr wl" "wchans (st c) wl = Some wcl"
    "map_option cv_wchan (cvs (st c) v) = Some (Ptr wv)" "wchans (st c) wv = Some wcv" "wl \<noteq> wv"
    by (auto simp: lock_facts_def)
  from f have fr: "lk_lock m = None \<Longrightarrow>
      (lk_owner m \<noteq> None \<longleftrightarrow> lk_held m) \<and> hist_owner (Ptr l) (history c) = lk_owner m"
    unfolding lock_facts_def by blast
  have nf: "status c \<noteq> Faulted"
    using run by simp
  note k = m run ready code ok fr
  {
    assume q: "True"
    have e: "step (Step t) c = advance t (Exec (KASSERT (Ptr_not_null (Ptr v)))) (lock_code l v (L_sig 1)) (st c) c"
      using k q by (auto simp: lock_step_simps lock_thread_ok_def split: list.splits)
    have "lock_inv l v wl wv (step (Step t) c)"
      unfolding e
      by (rule lock_inv_advance [OF f nf, where m' = "m" and wcl' = "wcl"
            and wcv' = "wcv" and loc' = "L_sig 1" and ho' = "hist_owner (Ptr l) (history c)"])
         (use k q in \<open>auto simp: lock_thread_ok_def hist_owner_advance hist_step_def bodies
            set_t_state_def returned_owning_def fold_wake_t_state fold_wake_wchans
            fold_wake_locks fold_wake_cvs\<close>)
  }
  then show ?thesis by simp
qed

lemma lock_at_sig1:
  assumes f: "lock_facts l v wl wv c m wcl wcv" and run: "status c = Running"
    and ready: "t_state (threads (st c) t) = S_READY"
    and code: "code c t = lock_code l v (L_sig 1)"
    and ok: "lock_thread_ok l v (st c) m wcl wcv (hist_owner (Ptr l) (history c)) (trace t c) t (L_sig 1)"
  shows "lock_inv l v wl wv (step (Step t) c)"
proof -
  from f have m: "locks (st c) l = Some m" "lk_wchan m = Ptr wl" "wchans (st c) wl = Some wcl"
    "map_option cv_wchan (cvs (st c) v) = Some (Ptr wv)" "wchans (st c) wv = Some wcv" "wl \<noteq> wv"
    by (auto simp: lock_facts_def)
  from f have fr: "lk_lock m = None \<Longrightarrow>
      (lk_owner m \<noteq> None \<longleftrightarrow> lk_held m) \<and> hist_owner (Ptr l) (history c) = lk_owner m"
    unfolding lock_facts_def by blast
  have nf: "status c \<noteq> Faulted"
    using run by simp
  note k = m run ready code ok fr
  {
    assume q: "True"
    have e: "step (Step t) c = advance t (Exec (KASSERT (Ptr_not_null (Ptr l)))) (lock_code l v (L_sig 2)) (st c) c"
      using k q by (auto simp: lock_step_simps lock_thread_ok_def split: list.splits)
    have "lock_inv l v wl wv (step (Step t) c)"
      unfolding e
      by (rule lock_inv_advance [OF f nf, where m' = "m" and wcl' = "wcl"
            and wcv' = "wcv" and loc' = "L_sig 2" and ho' = "hist_owner (Ptr l) (history c)"])
         (use k q in \<open>auto simp: lock_thread_ok_def hist_owner_advance hist_step_def bodies
            set_t_state_def returned_owning_def fold_wake_t_state fold_wake_wchans
            fold_wake_locks fold_wake_cvs\<close>)
  }
  then show ?thesis by simp
qed

lemma lock_at_sig2:
  assumes f: "lock_facts l v wl wv c m wcl wcv" and run: "status c = Running"
    and ready: "t_state (threads (st c) t) = S_READY"
    and code: "code c t = lock_code l v (L_sig 2)"
    and ok: "lock_thread_ok l v (st c) m wcl wcv (hist_owner (Ptr l) (history c)) (trace t c) t (L_sig 2)"
  shows "lock_inv l v wl wv (step (Step t) c)"
proof -
  from f have m: "locks (st c) l = Some m" "lk_wchan m = Ptr wl" "wchans (st c) wl = Some wcl"
    "map_option cv_wchan (cvs (st c) v) = Some (Ptr wv)" "wchans (st c) wv = Some wcv" "wl \<noteq> wv"
    by (auto simp: lock_facts_def)
  from f have fr: "lk_lock m = None \<Longrightarrow>
      (lk_owner m \<noteq> None \<longleftrightarrow> lk_held m) \<and> hist_owner (Ptr l) (history c) = lk_owner m"
    unfolding lock_facts_def by blast
  have nf: "status c \<noteq> Faulted"
    using run by simp
  note k = m run ready code ok fr
  {
    assume q: "wc_lock wcv = None \<and> wc_threads wcv = []"
    have e: "step (Step t) c = advance t (Exec (Wchan_wakeone (Cv_wchan_of (Ptr v)))) ([Return (C_cv_signal (Ptr v) (Ptr l))]) (st c) c"
      using k q by (auto simp: lock_step_simps lock_thread_ok_def split: list.splits)
    have "lock_inv l v wl wv (step (Step t) c)"
      unfolding e
      by (rule lock_inv_advance [OF f nf, where m' = "m" and wcl' = "wcl"
            and wcv' = "wcv" and loc' = "L_idle" and ho' = "hist_owner (Ptr l) (history c)"])
         (use k q in \<open>auto simp: lock_thread_ok_def hist_owner_advance hist_step_def bodies
            set_t_state_def returned_owning_def fold_wake_t_state fold_wake_wchans
            fold_wake_locks fold_wake_cvs\<close>)
  }
  moreover
  {
    assume q: "wc_lock wcv = None \<and> wc_threads wcv \<noteq> []"
    have e: "step (Step t) c = advance t (Exec (Wchan_wakeone (Cv_wchan_of (Ptr v)))) ([Return (C_cv_signal (Ptr v) (Ptr l))]) (set_t_state (hd (wc_threads wcv)) S_READY ((st c)\<lparr>wchans := (wchans (st c))(wv \<mapsto> wcv\<lparr>wc_threads := tl (wc_threads wcv)\<rparr>)\<rparr>)) c"
      using k q by (auto simp: lock_step_simps lock_thread_ok_def split: list.splits)
    have "lock_inv l v wl wv (step (Step t) c)"
      unfolding e
      by (rule lock_inv_advance [OF f nf, where m' = "m" and wcl' = "wcl"
            and wcv' = "wcv\<lparr>wc_threads := tl (wc_threads wcv)\<rparr>" and loc' = "L_idle" and ho' = "hist_owner (Ptr l) (history c)"])
         (use k q in \<open>auto simp: lock_thread_ok_def hist_owner_advance hist_step_def bodies
            set_t_state_def returned_owning_def fold_wake_t_state fold_wake_wchans
            fold_wake_locks fold_wake_cvs\<close>)
  }
  moreover
  {
    assume q: "wc_lock wcv \<noteq> None"
    have "step (Step t) c = c"
      using k q by (auto simp: lock_step_simps lock_thread_ok_def)
    with f nf have "lock_inv l v wl wv (step (Step t) c)"
      by (simp add: lock_inv_same)
  }
  ultimately show ?thesis
    by (cases "wc_lock wcv"; cases "wc_threads wcv") auto
qed

lemma lock_at_bc0:
  assumes f: "lock_facts l v wl wv c m wcl wcv" and run: "status c = Running"
    and ready: "t_state (threads (st c) t) = S_READY"
    and code: "code c t = lock_code l v (L_bc 0)"
    and ok: "lock_thread_ok l v (st c) m wcl wcv (hist_owner (Ptr l) (history c)) (trace t c) t (L_bc 0)"
  shows "lock_inv l v wl wv (step (Step t) c)"
proof -
  from f have m: "locks (st c) l = Some m" "lk_wchan m = Ptr wl" "wchans (st c) wl = Some wcl"
    "map_option cv_wchan (cvs (st c) v) = Some (Ptr wv)" "wchans (st c) wv = Some wcv" "wl \<noteq> wv"
    by (auto simp: lock_facts_def)
  from f have fr: "lk_lock m = None \<Longrightarrow>
      (lk_owner m \<noteq> None \<longleftrightarrow> lk_held m) \<and> hist_owner (Ptr l) (history c) = lk_owner m"
    unfolding lock_facts_def by blast
  have nf: "status c \<noteq> Faulted"
    using run by simp
  note k = m run ready code ok fr
  {
    assume q: "True"
    have e: "step (Step t) c = advance t (Exec (KASSERT (Ptr_not_null (Ptr v)))) (lock_code l v (L_bc 1)) (st c) c"
      using k q by (auto simp: lock_step_simps lock_thread_ok_def split: list.splits)
    have "lock_inv l v wl wv (step (Step t) c)"
      unfolding e
      by (rule lock_inv_advance [OF f nf, where m' = "m" and wcl' = "wcl"
            and wcv' = "wcv" and loc' = "L_bc 1" and ho' = "hist_owner (Ptr l) (history c)"])
         (use k q in \<open>auto simp: lock_thread_ok_def hist_owner_advance hist_step_def bodies
            set_t_state_def returned_owning_def fold_wake_t_state fold_wake_wchans
            fold_wake_locks fold_wake_cvs\<close>)
  }
  then show ?thesis by simp
qed

lemma lock_at_bc1:
  assumes f: "lock_facts l v wl wv c m wcl wcv" and run: "status c = Running"
    and ready: "t_state (threads (st c) t) = S_READY"
    and code: "code c t = lock_code l v (L_bc 1)"
    and ok: "lock_thread_ok l v (st c) m wcl wcv (hist_owner (Ptr l) (history c)) (trace t c) t (L_bc 1)"
  shows "lock_inv l v wl wv (step (Step t) c)"
proof -
  from f have m: "locks (st c) l = Some m" "lk_wchan m = Ptr wl" "wchans (st c) wl = Some wcl"
    "map_option cv_wchan (cvs (st c) v) = Some (Ptr wv)" "wchans (st c) wv = Some wcv" "wl \<noteq> wv"
    by (auto simp: lock_facts_def)
  from f have fr: "lk_lock m = None \<Longrightarrow>
      (lk_owner m \<noteq> None \<longleftrightarrow> lk_held m) \<and> hist_owner (Ptr l) (history c) = lk_owner m"
    unfolding lock_facts_def by blast
  have nf: "status c \<noteq> Faulted"
    using run by simp
  note k = m run ready code ok fr
  {
    assume q: "True"
    have e: "step (Step t) c = advance t (Exec (KASSERT (Ptr_not_null (Ptr l)))) (lock_code l v (L_bc 2)) (st c) c"
      using k q by (auto simp: lock_step_simps lock_thread_ok_def split: list.splits)
    have "lock_inv l v wl wv (step (Step t) c)"
      unfolding e
      by (rule lock_inv_advance [OF f nf, where m' = "m" and wcl' = "wcl"
            and wcv' = "wcv" and loc' = "L_bc 2" and ho' = "hist_owner (Ptr l) (history c)"])
         (use k q in \<open>auto simp: lock_thread_ok_def hist_owner_advance hist_step_def bodies
            set_t_state_def returned_owning_def fold_wake_t_state fold_wake_wchans
            fold_wake_locks fold_wake_cvs\<close>)
  }
  then show ?thesis by simp
qed

lemma lock_at_bc2:
  assumes f: "lock_facts l v wl wv c m wcl wcv" and run: "status c = Running"
    and ready: "t_state (threads (st c) t) = S_READY"
    and code: "code c t = lock_code l v (L_bc 2)"
    and ok: "lock_thread_ok l v (st c) m wcl wcv (hist_owner (Ptr l) (history c)) (trace t c) t (L_bc 2)"
  shows "lock_inv l v wl wv (step (Step t) c)"
proof -
  from f have m: "locks (st c) l = Some m" "lk_wchan m = Ptr wl" "wchans (st c) wl = Some wcl"
    "map_option cv_wchan (cvs (st c) v) = Some (Ptr wv)" "wchans (st c) wv = Some wcv" "wl \<noteq> wv"
    by (auto simp: lock_facts_def)
  from f have fr: "lk_lock m = None \<Longrightarrow>
      (lk_owner m \<noteq> None \<longleftrightarrow> lk_held m) \<and> hist_owner (Ptr l) (history c) = lk_owner m"
    unfolding lock_facts_def by blast
  have nf: "status c \<noteq> Faulted"
    using run by simp
  note k = m run ready code ok fr
  {
    assume q: "wc_lock wcv = None"
    have e: "step (Step t) c = advance t (Exec (Wchan_wakeall (Cv_wchan_of (Ptr v)))) ([Return (C_cv_broadcast (Ptr v) (Ptr l))]) (fold (\<lambda>x. set_t_state x S_READY) (wc_threads wcv) ((st c)\<lparr>wchans := (wchans (st c))(wv \<mapsto> wcv\<lparr>wc_threads := []\<rparr>)\<rparr>)) c"
      using k q by (auto simp: lock_step_simps lock_thread_ok_def split: list.splits)
    have "lock_inv l v wl wv (step (Step t) c)"
      unfolding e
      by (rule lock_inv_advance [OF f nf, where m' = "m" and wcl' = "wcl"
            and wcv' = "wcv\<lparr>wc_threads := []\<rparr>" and loc' = "L_idle" and ho' = "hist_owner (Ptr l) (history c)"])
         (use k q in \<open>auto simp: lock_thread_ok_def hist_owner_advance hist_step_def bodies
            set_t_state_def returned_owning_def fold_wake_t_state fold_wake_wchans
            fold_wake_locks fold_wake_cvs\<close>)
  }
  moreover
  {
    assume q: "wc_lock wcv \<noteq> None"
    have "step (Step t) c = c"
      using k q by (auto simp: lock_step_simps lock_thread_ok_def)
    with f nf have "lock_inv l v wl wv (step (Step t) c)"
      by (simp add: lock_inv_same)
  }
  ultimately show ?thesis
    by (cases "wc_lock wcv") auto
qed

lemma lock_inv_Step:
  assumes inv: "lock_inv l v wl wv c"
  shows "lock_inv l v wl wv (step (Step t) c)"
proof (cases "status c = Running \<and> t_state (threads (st c) t) = S_READY")
  case False
  then have "step (Step t) c = c" by auto
  with inv show ?thesis by simp
next
  case True
  then have run: "status c = Running" and ready: "t_state (threads (st c) t) = S_READY"
    by simp_all
  from inv obtain m wcl wcv where f: "lock_facts l v wl wv c m wcl wcv"
    by (auto simp: lock_inv_def)
  then obtain loc where code: "code c t = lock_code l v loc"
    and ok: "lock_thread_ok l v (st c) m wcl wcv (hist_owner (Ptr l) (history c)) (trace t c) t loc"
    unfolding lock_facts_def by blast
  from ok have lok: "lloc_ok loc" by (simp add: lock_thread_ok_def)
  note k = f run ready
  show ?thesis
  proof (cases loc)
    case L_idle
    with code run ready have "step (Step t) c = c" by simp
    with inv show ?thesis by simp
  next
    case (L_acq j fr)
    with lok have "j = 0 \<or> j = 1 \<or> j = 2 \<or> j = 3 \<or> j = 4 \<or> j = 5 \<or> j = 6 \<or> j = 7 \<or>
        (j = 8 \<and> fr = Top) \<or> (j = 8 \<and> fr = In_wait)"
      by (cases fr) auto
    with code ok L_acq show ?thesis
      using lock_at_acq0 [OF k] lock_at_acq1 [OF k] lock_at_acq2 [OF k] lock_at_acq3 [OF k]
        lock_at_acq4 [OF k] lock_at_acq5 [OF k] lock_at_acq6 [OF k] lock_at_acq7 [OF k]
        lock_at_acq8_Top [OF k] lock_at_acq8_In_wait [OF k]
      by blast
  next
    case (L_acqL j fr)
    with lok have "j = 0 \<or> j = 1 \<or> j = 2 \<or> j = 3"
      by auto
    with code ok L_acqL show ?thesis
      using lock_at_acqL0 [OF k] lock_at_acqL1 [OF k] lock_at_acqL2 [OF k] lock_at_acqL3 [OF k]
      by blast
  next
    case (L_rel j fr)
    with lok have "j = 0 \<or> j = 1 \<or> j = 2 \<or> j = 3 \<or> j = 4 \<or> j = 5 \<or>
        (j = 6 \<and> fr = Top) \<or> (j = 6 \<and> fr = In_wait)"
      by (cases fr) auto
    with code ok L_rel show ?thesis
      using lock_at_rel0 [OF k] lock_at_rel1 [OF k] lock_at_rel2 [OF k] lock_at_rel3 [OF k]
        lock_at_rel4 [OF k] lock_at_rel5 [OF k] lock_at_rel6_Top [OF k] lock_at_rel6_In_wait [OF k]
      by blast
  next
    case (L_wait j)
    with lok have "j = 0 \<or> j = 1 \<or> j = 2 \<or> j = 3 \<or> j = 4 \<or> j = 5 \<or> j = 6"
      by auto
    with code ok L_wait show ?thesis
      using lock_at_wait0 [OF k] lock_at_wait1 [OF k] lock_at_wait2 [OF k] lock_at_wait3 [OF k]
        lock_at_wait4 [OF k] lock_at_wait5 [OF k] lock_at_wait6 [OF k]
      by blast
  next
    case (L_sig j)
    with lok have "j = 0 \<or> j = 1 \<or> j = 2"
      by auto
    with code ok L_sig show ?thesis
      using lock_at_sig0 [OF k] lock_at_sig1 [OF k] lock_at_sig2 [OF k]
      by blast
  next
    case (L_bc j)
    with lok have "j = 0 \<or> j = 1 \<or> j = 2"
      by auto
    with code ok L_bc show ?thesis
      using lock_at_bc0 [OF k] lock_at_bc1 [OF k] lock_at_bc2 [OF k]
      by blast
  qed
qed

lemma lock_inv_Invoke:
  assumes inv: "lock_inv l v wl wv c"
    and fc: "f = C_lock_acquire (Ptr l) \<or> f = C_lock_release (Ptr l) \<or>
      f = C_cv_wait (Ptr v) (Ptr l) \<or> f = C_cv_signal (Ptr v) (Ptr l) \<or>
      f = C_cv_broadcast (Ptr v) (Ptr l)"
  shows "lock_inv l v wl wv (step (Invoke t f) c)"
proof (cases "status c = Running \<and> code c t = [] \<and> t_state (threads (st c) t) = S_READY")
  case False
  then have "step (Invoke t f) c = c" by auto
  with inv show ?thesis by simp
next
  case True
  from inv obtain m wcl wcv where f: "lock_facts l v wl wv c m wcl wcv" and nf: "status c \<noteq> Faulted"
    by (auto simp: lock_inv_def)
  then obtain loc where code: "code c t = lock_code l v loc"
    and ok: "lock_thread_ok l v (st c) m wcl wcv (hist_owner (Ptr l) (history c)) (trace t c) t loc"
    unfolding lock_facts_def by blast
  from code True have "lock_code l v loc = []" by simp
  then have loc: "loc = L_idle" by (simp add: lock_code_Nil)
  from f have m: "locks (st c) l = Some m" "lk_wchan m = Ptr wl" "wchans (st c) wl = Some wcl"
    "map_option cv_wchan (cvs (st c) v) = Some (Ptr wv)" "wchans (st c) wv = Some wcv" "wl \<noteq> wv"
    by (auto simp: lock_facts_def)
  from f have fr: "lk_lock m = None \<Longrightarrow>
      (lk_owner m \<noteq> None \<longleftrightarrow> lk_held m) \<and> hist_owner (Ptr l) (history c) = lk_owner m"
    unfolding lock_facts_def by blast
  from True have e: "step (Invoke t f) c = advance t (Exec (Call f)) (body f @ [Return f]) (st c) c"
    by simp
  note k = m ok loc fr True
  have ?thesis if p: "f = C_lock_acquire (Ptr l)"
    unfolding e
    by (rule lock_inv_advance [OF f nf, where m' = m and wcl' = wcl and wcv' = wcv
          and loc' = "L_acq 0 Top" and ho' = "hist_owner (Ptr l) (history c)"])
       (use k p in \<open>auto simp: lock_thread_ok_def hist_owner_advance hist_step_def bodies
          returned_owning_def\<close>)
  moreover have ?thesis if p: "f = C_lock_release (Ptr l)"
    unfolding e
    by (rule lock_inv_advance [OF f nf, where m' = m and wcl' = wcl and wcv' = wcv
          and loc' = "L_rel 0 Top" and ho' = "hist_owner (Ptr l) (history c)"])
       (use k p in \<open>auto simp: lock_thread_ok_def hist_owner_advance hist_step_def bodies
          returned_owning_def\<close>)
  moreover have ?thesis if p: "f = C_cv_wait (Ptr v) (Ptr l)"
    unfolding e
    by (rule lock_inv_advance [OF f nf, where m' = m and wcl' = wcl and wcv' = wcv
          and loc' = "L_wait 0" and ho' = "hist_owner (Ptr l) (history c)"])
       (use k p in \<open>auto simp: lock_thread_ok_def hist_owner_advance hist_step_def bodies
          returned_owning_def\<close>)
  moreover have ?thesis if p: "f = C_cv_signal (Ptr v) (Ptr l)"
    unfolding e
    by (rule lock_inv_advance [OF f nf, where m' = m and wcl' = wcl and wcv' = wcv
          and loc' = "L_sig 0" and ho' = "hist_owner (Ptr l) (history c)"])
       (use k p in \<open>auto simp: lock_thread_ok_def hist_owner_advance hist_step_def bodies
          returned_owning_def\<close>)
  moreover have ?thesis if p: "f = C_cv_broadcast (Ptr v) (Ptr l)"
    unfolding e
    by (rule lock_inv_advance [OF f nf, where m' = m and wcl' = wcl and wcv' = wcv
          and loc' = "L_bc 0" and ho' = "hist_owner (Ptr l) (history c)"])
       (use k p in \<open>auto simp: lock_thread_ok_def hist_owner_advance hist_step_def bodies
          returned_owning_def\<close>)
  ultimately show ?thesis using fc by blast
qed

lemma lock_inv_step:
  assumes "lock_inv l v wl wv c" and "lock_event l v e"
  shows "lock_inv l v wl wv (step e c)"
  using assms by (cases e) (auto intro: lock_inv_Step lock_inv_Invoke simp del: step.simps)

lemma lock_inv_exec:
  assumes "lock_inv l v wl wv c" and "\<forall>e \<in> set es. lock_event l v e"
  shows "lock_inv l v wl wv (exec es c)"
  using assms by (induction es arbitrary: c) (auto intro: lock_inv_step simp del: step.simps)

lemma lock_create_result:
  assumes "heap_ok s0" and "lock_create name j al s0 = Done (Ptr l, s)"
  shows "l = brk s0 \<and> brk s = brk s0 + 3 \<and> heap_ok s \<and>
         locks s l = Some \<lparr>lk_name = Ptr (l + 1), lk_wchan = Ptr (l + 2), lk_lock = None,
           lk_held = False, lk_owner = None\<rparr> \<and>
         wchans s (l + 2) = Some \<lparr>wc_name = Ptr (l + 1), wc_lock = None, wc_threads = []\<rparr>"
proof -
  from assms(2) obtain g where j: "j = Some g"
    by (cases j) (auto simp: lock_create_def kmalloc_lock_def split: if_splits)
  from assms(2) j have al: "al_name al" "al_wchan al"
    by (auto simp: lock_create_def create_simps split: if_splits prod.splits)
  from lock_create_succeeds [OF assms(1) al, of name g] assms(2) j assms(1)
  show ?thesis by (auto simp: heap_ok_def)
qed

lemma cv_create_result:
  assumes "heap_ok s1" and "cv_create name j al s1 = Done (Ptr v, s)"
  shows "v = brk s1 \<and> locks s = locks s1 \<and> threads s = threads s1 \<and>
         (\<forall>a. a < brk s1 \<longrightarrow> wchans s a = wchans s1 a) \<and>
         cvs s v = Some \<lparr>cv_name = Ptr (v + 1), cv_wchan = Ptr (v + 2)\<rparr> \<and>
         wchans s (v + 2) = Some \<lparr>wc_name = Ptr (v + 1), wc_lock = None, wc_threads = []\<rparr>"
proof -
  from assms(2) obtain g where j: "j = Some g"
    by (cases j) (auto simp: cv_create_def kmalloc_cv_def split: if_splits)
  from assms(2) j have al: "al_name al" "al_wchan al"
    by (auto simp: cv_create_def create_simps split: if_splits prod.splits)
  from cv_create_succeeds [OF assms(1) al, of name g] assms(2) j
  show ?thesis by auto
qed

lemma lock_inv_start:
  assumes "heap_ok s0" and "lock_create name j al s0 = Done (Ptr l, s1)"
    and "cv_create name' j' al' s1 = Done (Ptr v, s)"
  shows "lock_inv l v (l + 2) (v + 2) (start s)"
proof -
  note a = lock_create_result [OF assms(1,2)]
  then have h: "heap_ok s1" by simp
  note b = cv_create_result [OF h assms(3)]
  from a b have ne: "l + 2 \<noteq> v + 2" by simp
  from a have "l + 2 < brk s1" by simp
  with b have "wchans s (l + 2) = wchans s1 (l + 2)" by blast
  moreover from a
  have "wchans s1 (l + 2) = Some \<lparr>wc_name = Ptr (l + 1), wc_lock = None, wc_threads = []\<rparr>"
    by blast
  ultimately
  have w: "wchans s (l + 2) = Some \<lparr>wc_name = Ptr (l + 1), wc_lock = None, wc_threads = []\<rparr>"
    by simp
  show ?thesis
    unfolding lock_inv_def lock_facts_def
    using a b ne w
    by (auto simp: start_def lock_thread_ok_def hist_owner_def returned_owning_def trace_def
        intro!: exI [of _ L_idle])
qed

section \<open>lock_acquire and cv_wait, one thread at a time\<close>

lemma call_viewI:
  "call_loc fr0 loc \<Longrightarrow> cd = lock_code l v loc \<Longrightarrow> tr = base @ call_trace l v fr0 k loc \<Longrightarrow>
   call_view l v fr0 base (cd, tr, sl)"
  by (auto simp: call_view_def)

lemma call_viewJ:
  "call_loc fr0 loc \<Longrightarrow>
   call_view l v fr0 base (lock_code l v loc, base @ call_trace l v fr0 k loc, False)"
  by (rule call_viewI) simp_all

lemmas lock_events = cv_wait_prologue_def lock_release_events_def lock_acquire_prologue_def
  lock_acquire_handoff_def lock_acquire_epilogue_def

lemma call_view_next:
  assumes "call_view l v fr0 base (cd, tr, False)" and "v' \<in> set (nexts cd tr)"
  shows "call_view l v fr0 base v'"
proof -
  from assms(1) obtain k loc where l: "call_loc fr0 loc" and cd: "cd = lock_code l v loc"
    and tr: "tr = base @ call_trace l v fr0 k loc"
    by (auto simp: call_view_def)
  show ?thesis
  proof (cases loc)
    case L_idle
    with cd assms(2) show ?thesis by simp
  next
    case (L_sig j)
    with l show ?thesis by simp
  next
    case (L_bc j)
    with l show ?thesis by simp
  next
    case (L_acq j fr)
    from L_acq l have "j = 0 \<or> j = 1 \<or> j = 2 \<or> j = 3 \<or> j = 4 \<or> j = 5 \<or> j = 6 \<or> j = 7 \<or> j = 8" by auto
    moreover have ?thesis if "j = 0"
      using that L_acq cd tr l assms(2)
      by (auto simp: bodies after_def lock_events
          intro!: call_viewI [where loc = "L_acq 1 fr" and k = k])
    moreover have ?thesis if "j = 1"
      using that L_acq cd tr l assms(2)
      by (auto simp: bodies after_def lock_events
          intro!: call_viewI [where loc = "L_acq 2 fr" and k = k])
    moreover have ?thesis if "j = 2"
      using that L_acq cd tr l assms(2)
      by (auto simp: bodies after_def lock_events
          intro!: call_viewI [where loc = "L_acq 3 fr" and k = k])
    moreover have ?thesis if "j = 3"
      using that L_acq cd tr l assms(2)
      by (auto simp: bodies after_def lock_events
          intro!: call_viewI [where loc = "L_acq 4 fr" and k = 0])
    moreover have ?thesis if "j = 4"
    proof -
      from that L_acq cd tr l assms(2)
      have "v' = (lock_code l v (L_acqL 0 fr), base @ call_trace l v fr0 k (L_acqL 0 fr), False) \<or>
            v' = (lock_code l v (L_acq 5 fr), base @ call_trace l v fr0 k (L_acq 5 fr), False)"
        by (auto simp: bodies after_def lock_events)
      moreover from L_acq l have "call_loc fr0 (L_acqL 0 fr)" "call_loc fr0 (L_acq 5 fr)" by auto
      ultimately show ?thesis
        using call_viewJ [of fr0 "L_acqL 0 fr" l v base k] call_viewJ [of fr0 "L_acq 5 fr" l v base k]
        by blast
    qed
    moreover have ?thesis if "j = 5"
      using that L_acq cd tr l assms(2)
      by (auto simp: bodies after_def lock_events
          intro!: call_viewI [where loc = "L_acq 6 fr" and k = k])
    moreover have ?thesis if "j = 6"
      using that L_acq cd tr l assms(2)
      by (auto simp: bodies after_def lock_events
          intro!: call_viewI [where loc = "L_acq 7 fr" and k = k])
    moreover have ?thesis if "j = 7"
      using that L_acq cd tr l assms(2)
      by (auto simp: bodies after_def lock_events
          intro!: call_viewI [where loc = "L_acq 8 fr" and k = k])
    moreover have ?thesis if "j = 8"
      using that L_acq cd tr l assms(2)
      by (cases fr0)
         (auto simp: bodies after_def lock_events intro!: call_viewI [where loc = "L_idle" and k = k])
    ultimately show ?thesis by blast
  next
    case (L_acqL j fr)
    from L_acqL l have "j = 0 \<or> j = 1 \<or> j = 2 \<or> j = 3" by auto
    moreover have ?thesis if "j = 0"
      using that L_acqL cd tr l assms(2)
      by (auto simp: bodies after_def lock_events
          intro!: call_viewI [where loc = "L_acqL 1 fr" and k = k])
    moreover have ?thesis if "j = 1"
      using that L_acqL cd tr l assms(2)
      by (auto simp: bodies after_def lock_events
          intro!: call_viewI [where loc = "L_acqL 2 fr" and k = k])
    moreover have ?thesis if "j = 2"
      using that L_acqL cd tr l assms(2)
      by (auto simp: bodies after_def lock_events
          intro!: call_viewI [where loc = "L_acqL 3 fr" and k = k])
    moreover have ?thesis if "j = 3"
    proof -
      from that L_acqL cd tr l assms(2)
      have "v' = (lock_code l v (L_acq 4 fr),
          base @ frame_events l v fr0 @ lock_acquire_prologue (Ptr l) @
          (concat (replicate k (lock_acquire_handoff (Ptr l))) @ lock_acquire_handoff (Ptr l)), False)"
        by (auto simp: bodies after_def lock_events)
      then have "v' = (lock_code l v (L_acq 4 fr), base @ call_trace l v fr0 (Suc k) (L_acq 4 fr), False)"
        unfolding concat_replicate_snoc by simp
      moreover from L_acqL l have "call_loc fr0 (L_acq 4 fr)" by auto
      ultimately show ?thesis
        using call_viewJ [of fr0 "L_acq 4 fr" l v base "Suc k"]
        by blast
    qed
    ultimately show ?thesis by blast
  next
    case (L_rel j fr)
    from L_rel l have "j = 0 \<or> j = 1 \<or> j = 2 \<or> j = 3 \<or> j = 4 \<or> j = 5 \<or> j = 6" by auto
    moreover have ?thesis if "j = 0"
      using that L_rel cd tr l assms(2)
      by (auto simp: bodies after_def lock_events
          intro!: call_viewI [where loc = "L_rel 1 In_wait" and k = k])
    moreover have ?thesis if "j = 1"
      using that L_rel cd tr l assms(2)
      by (auto simp: bodies after_def lock_events
          intro!: call_viewI [where loc = "L_rel 2 In_wait" and k = k])
    moreover have ?thesis if "j = 2"
      using that L_rel cd tr l assms(2)
      by (auto simp: bodies after_def lock_events
          intro!: call_viewI [where loc = "L_rel 3 In_wait" and k = k])
    moreover have ?thesis if "j = 3"
      using that L_rel cd tr l assms(2)
      by (auto simp: bodies after_def lock_events
          intro!: call_viewI [where loc = "L_rel 4 In_wait" and k = k])
    moreover have ?thesis if "j = 4"
      using that L_rel cd tr l assms(2)
      by (auto simp: bodies after_def lock_events
          intro!: call_viewI [where loc = "L_rel 5 In_wait" and k = k])
    moreover have ?thesis if "j = 5"
      using that L_rel cd tr l assms(2)
      by (auto simp: bodies after_def lock_events
          intro!: call_viewI [where loc = "L_rel 6 In_wait" and k = k])
    moreover have ?thesis if "j = 6"
      using that L_rel cd tr l assms(2)
      by (auto simp: bodies after_def lock_events
          intro!: call_viewI [where loc = "L_wait 5" and k = k])
    ultimately show ?thesis by blast
  next
    case (L_wait j)
    from L_wait l have "j = 0 \<or> j = 1 \<or> j = 2 \<or> j = 3 \<or> j = 4 \<or> j = 5 \<or> j = 6" by auto
    moreover have ?thesis if "j = 0"
      using that L_wait cd tr l assms(2)
      by (auto simp: bodies after_def lock_events
          intro!: call_viewI [where loc = "L_wait 1" and k = k])
    moreover have ?thesis if "j = 1"
      using that L_wait cd tr l assms(2)
      by (auto simp: bodies after_def lock_events
          intro!: call_viewI [where loc = "L_wait 2" and k = k])
    moreover have ?thesis if "j = 2"
      using that L_wait cd tr l assms(2)
      by (auto simp: bodies after_def lock_events
          intro!: call_viewI [where loc = "L_wait 3" and k = k])
    moreover have ?thesis if "j = 3"
      using that L_wait cd tr l assms(2)
      by (auto simp: bodies after_def lock_events
          intro!: call_viewI [where loc = "L_wait 4" and k = k])
    moreover have ?thesis if "j = 4"
      using that L_wait cd tr l assms(2)
      by (auto simp: bodies after_def lock_events
          intro!: call_viewI [where loc = "L_rel 0 In_wait" and k = k])
    moreover have ?thesis if "j = 5"
      using that L_wait cd tr l assms(2)
      by (auto simp: bodies after_def lock_events
          intro!: call_viewI [where loc = "L_wait 6" and k = k])
    moreover have ?thesis if "j = 6"
      using that L_wait cd tr l assms(2)
      by (auto simp: bodies after_def lock_events
          intro!: call_viewI [where loc = "L_acq 0 In_wait" and k = k])
    ultimately show ?thesis by blast
  qed
qed

lemma call_protocol_trace:
  assumes "status c = Running" and "code c t = []" and "t_state (threads (st c) t) = S_READY"
    and es: "\<forall>f. Invoke t f \<notin> set es"
    and c': "c' = exec (Invoke t f # es) c"
    and ret: "code c' t = []"
    and f: "fr0 = Top \<and> f = C_lock_acquire (Ptr l) \<or> fr0 = In_wait \<and> f = C_cv_wait (Ptr v) (Ptr l)"
  shows "\<exists>k. trace t c' = trace t c @ call_trace l v fr0 k L_idle"
proof -
  let ?c0 = "step (Invoke t f) c"
  from f have "call_view l v fr0 (trace t c) (view t ?c0)"
  proof
    assume a: "fr0 = Top \<and> f = C_lock_acquire (Ptr l)"
    with assms(1-3)
    have "view t ?c0 = (lock_code l v (L_acq 0 Top), trace t c @ call_trace l v Top 0 (L_acq 0 Top), False)"
      by (simp add: view_def advance_code advance_trace advance_st bodies lock_events)
    with a show ?thesis
      by (auto intro!: call_viewI [where loc = "L_acq 0 Top" and k = 0])
  next
    assume a: "fr0 = In_wait \<and> f = C_cv_wait (Ptr v) (Ptr l)"
    with assms(1-3)
    have "view t ?c0 = (lock_code l v (L_wait 0), trace t c @ call_trace l v In_wait 0 (L_wait 0), False)"
      by (simp add: view_def advance_code advance_trace advance_st bodies lock_events)
    with a show ?thesis
      by (auto intro!: call_viewI [where loc = "L_wait 0" and k = 0])
  qed
  then have "call_view l v fr0 (trace t c) (view t (exec es ?c0))"
  proof (rule local_invariant)
    show "call_view l v fr0 (trace t c) w"
      if "call_view l v fr0 (trace t c) (cd, tr, False)" and "w \<in> set (nexts cd tr)" for cd tr w
      using that by (rule call_view_next)
    show "call_view l v fr0 (trace t c) (cd, tr, False)"
      if "call_view l v fr0 (trace t c) (cd, tr, True)" for cd tr
      using that by (simp add: call_view_def)
    show "\<forall>f. Invoke t f \<notin> set es" by (rule es)
  qed
  with c' have "call_view l v fr0 (trace t c) (view t c')"
    by simp
  then obtain k loc where l: "code c' t = lock_code l v loc"
    and tr: "trace t c' = trace t c @ call_trace l v fr0 k loc"
    by (auto simp: call_view_def view_def)
  from l ret have "lock_code l v loc = []" by simp
  then have "loc = L_idle" by (simp add: lock_code_Nil)
  with tr show ?thesis by auto
qed

lemma lock_acquire_protocol_trace:
  assumes "status c = Running" and "code c t = []" and "t_state (threads (st c) t) = S_READY"
    and "\<forall>f. Invoke t f \<notin> set es"
    and "c' = exec (Invoke t (C_lock_acquire (Ptr l)) # es) c"
    and "code c' t = []"
  shows "\<exists>k. trace t c' = trace t c @ lock_acquire_prologue (Ptr l) @
           concat (replicate k (lock_acquire_handoff (Ptr l))) @ lock_acquire_epilogue (Ptr l)"
  using call_protocol_trace [OF assms, where ?fr0.0 = Top and l = l and v = l] by simp

lemma cv_wait_protocol_trace:
  assumes "status c = Running" and "code c t = []" and "t_state (threads (st c) t) = S_READY"
    and "\<forall>f. Invoke t f \<notin> set es"
    and "c' = exec (Invoke t (C_cv_wait (Ptr v) (Ptr l)) # es) c"
    and "code c' t = []"
  shows "\<exists>k. trace t c' = trace t c @ cv_wait_prologue (Ptr v) (Ptr l) @
           lock_release_events (Ptr l) @ [Exec (Wchan_sleep (Cv_wchan_of (Ptr v)))] @
           lock_acquire_prologue (Ptr l) @
           concat (replicate k (lock_acquire_handoff (Ptr l))) @ lock_acquire_epilogue (Ptr l) @
           [Exec (Return (C_cv_wait (Ptr v) (Ptr l)))]"
  using call_protocol_trace [OF assms, where ?fr0.0 = In_wait and l = l and v = v] by simp

lemma cv_wait_not_owner:
  assumes "status c = Running" and "code c t = []" and "t_state (threads (st c) t) = S_READY"
    and "locks (st c) l = Some m" and "lk_owner m \<noteq> Some t"
    and "c' = exec [Invoke t (C_cv_wait (Ptr v) (Ptr l)), Step t, Step t, Step t] c"
  shows "status c' = Panicked \<and> st c' = st c"
  using assms by (auto simp: run_simps)

lemma cv_wait_sleeps:
  assumes "status c = Running" and "code c t = []" and "t_state (threads (st c) t) = S_READY"
    and "locks (st c) l = Some m" and "lk_owner m = Some t" and "lk_lock m = None"
    and "lk_wchan m = Ptr wl" and "wchans (st c) wl = Some wcl" and "wc_lock wcl = None"
    and "wc_threads wcl = []"
    and "cvs (st c) v = Some n" and "cv_wchan n = Ptr wv" and "wchans (st c) wv = Some wcv"
    and "wc_lock wcv = None" and "wl \<noteq> wv"
    and "c' = exec (Invoke t (C_cv_wait (Ptr v) (Ptr l)) # replicate 13 (Step t)) c"
  shows "status c' = Running \<and>
         code c' t = [Call (C_lock_acquire (Ptr l)), Return (C_cv_wait (Ptr v) (Ptr l))] \<and>
         st c' = set_t_state t S_SLEEP
           ((st c)\<lparr>locks := (locks (st c))(l \<mapsto> m\<lparr>lk_held := False, lk_owner := None\<rparr>),
                   wchans := (wchans (st c))(wv \<mapsto> wcv\<lparr>wc_threads := wc_threads wcv @ [t]\<rparr>)\<rparr>) \<and>
         trace t c' = trace t c @ cv_wait_prologue (Ptr v) (Ptr l) @
           lock_release_events (Ptr l) @ [Exec (Wchan_sleep (Cv_wchan_of (Ptr v)))]"
  using assms
  by (cases m; cases wcl; cases wcv; cases n)
     (auto simp: run_simps replicate_num lock_events set_t_state_def fun_upd_idem map_upd_triv
        fun_upd_twist)

lemma lock_acquire_free:
  assumes "status c = Running" and "code c t = []" and "t_state (threads (st c) t) = S_READY"
    and "\<not> t_in_interrupt (threads (st c) t)"
    and "locks (st c) l = Some m" and "lk_lock m = None" and "\<not> lk_held m"
    and "lk_owner m \<noteq> Some t"
    and "c' = exec (Invoke t (C_lock_acquire (Ptr l)) # replicate 9 (Step t)) c"
  shows "status c' = Running \<and> code c' t = [] \<and>
         st c' = (st c)\<lparr>locks := (locks (st c))(l \<mapsto> m\<lparr>lk_held := True, lk_owner := Some t\<rparr>)\<rparr> \<and>
         trace t c' = trace t c @ lock_acquire_prologue (Ptr l) @ lock_acquire_epilogue (Ptr l)"
  using assms
  by (cases m) (auto simp: run_simps replicate_num lock_events)

lemma lock_release_owner:
  assumes "status c = Running" and "code c t = []" and "t_state (threads (st c) t) = S_READY"
    and "locks (st c) l = Some m" and "lk_lock m = None" and "lk_owner m = Some t"
    and "lk_wchan m = Ptr w" and "wchans (st c) w = Some wc" and "wc_lock wc = None"
    and "wc_threads wc = x # xs"
    and "c' = exec (Invoke t (C_lock_release (Ptr l)) # replicate 7 (Step t)) c"
  shows "status c' = Running \<and> code c' t = [] \<and>
         st c' = set_t_state x S_READY
           ((st c)\<lparr>locks := (locks (st c))(l \<mapsto> m\<lparr>lk_held := False, lk_owner := None\<rparr>),
                   wchans := (wchans (st c))(w \<mapsto> wc\<lparr>wc_threads := xs\<rparr>)\<rparr>) \<and>
         trace t c' = trace t c @ lock_release_events (Ptr l)"
  using assms
  by (cases m; cases wc) (auto simp: run_simps replicate_num lock_events set_t_state_def)

lemma lock_destroy_clears_owner:
  assumes "status c = Running" and "code c t = []" and "t_state (threads (st c) t) = S_READY"
    and "locks (st c) l = Some m"
    and "c' = exec [Invoke t (C_lock_destroy (Ptr l)), Step t, Step t] c"
  shows "status c' = Running \<and>
         st c' = (st c)\<lparr>locks := (locks (st c))(l \<mapsto> m\<lparr>lk_owner := None\<rparr>)\<rparr> \<and>
         trace t c' = trace t c @
           [Exec (Call (C_lock_destroy (Ptr l))), Exec (KASSERT (Ptr_not_null (Ptr l))),
            Exec (Set_lk_owner_null (Ptr l))]"
  using assms by (auto simp: run_simps)

lemma lock_code_waiting:
  assumes "lloc_ok loc"
    and "lock_code l v loc = [Call (C_lock_acquire (Ptr l)), Return (C_cv_wait (Ptr v) (Ptr l))]"
  shows "loc = L_wait 6"
proof (cases loc)
  case L_idle
  with assms show ?thesis by simp
next
  case (L_acq j fr)
  with assms(1) have "j = 0 \<or> j = 1 \<or> j = 2 \<or> j = 3 \<or> j = 4 \<or> j = 5 \<or> j = 6 \<or> j = 7 \<or> j = 8"
    by auto
  with assms(2) L_acq show ?thesis by (auto simp: bodies)
next
  case (L_acqL j fr)
  with assms(1) have "j = 0 \<or> j = 1 \<or> j = 2 \<or> j = 3"
    by auto
  with assms(2) L_acqL show ?thesis by (auto simp: bodies)
next
  case (L_rel j fr)
  with assms(1) have "j = 0 \<or> j = 1 \<or> j = 2 \<or> j = 3 \<or> j = 4 \<or> j = 5 \<or> j = 6"
    by auto
  with assms(2) L_rel show ?thesis by (auto simp: bodies)
next
  case (L_wait j)
  with assms(1) have "j = 0 \<or> j = 1 \<or> j = 2 \<or> j = 3 \<or> j = 4 \<or> j = 5 \<or> j = 6"
    by auto
  with assms(2) L_wait show ?thesis by (auto simp: bodies)
next
  case (L_sig j)
  with assms(1) have "j = 0 \<or> j = 1 \<or> j = 2"
    by auto
  with assms(2) L_sig show ?thesis by (auto simp: bodies)
next
  case (L_bc j)
  with assms(1) have "j = 0 \<or> j = 1 \<or> j = 2"
    by auto
  with assms(2) L_bc show ?thesis by (auto simp: bodies)
qed

lemma lock_inv_thread:
  assumes "lock_inv l v wl wv c" and "locks (st c) l = Some m"
  shows "(code c t = [] \<and> trace t c \<noteq> [] \<and>
            (last (trace t c) = Exec (Return (C_lock_acquire (Ptr l))) \<or>
             last (trace t c) = Exec (Return (C_cv_wait (Ptr v) (Ptr l)))) \<longrightarrow>
          lk_owner m = Some t \<and> lk_held m) \<and>
         (code c t = [Call (C_lock_acquire (Ptr l)), Return (C_cv_wait (Ptr v) (Ptr l))] \<longrightarrow>
          lk_owner m \<noteq> Some t)"
proof -
  from assms obtain wcl wcv where f: "lock_facts l v wl wv c m wcl wcv"
    by (auto simp: lock_inv_def lock_facts_def)
  then obtain loc where code: "code c t = lock_code l v loc"
    and ok: "lock_thread_ok l v (st c) m wcl wcv (hist_owner (Ptr l) (history c)) (trace t c) t loc"
    unfolding lock_facts_def by blast
  have "lk_owner m = Some t \<and> lk_held m"
    if "code c t = []" and "trace t c \<noteq> []"
      and "last (trace t c) = Exec (Return (C_lock_acquire (Ptr l))) \<or>
           last (trace t c) = Exec (Return (C_cv_wait (Ptr v) (Ptr l)))"
  proof -
    from code that(1) have "lock_code l v loc = []" by simp
    then have "loc = L_idle" by (simp add: lock_code_Nil)
    with ok that(2,3) show ?thesis
      by (auto simp: lock_thread_ok_def returned_owning_def)
  qed
  moreover have "lk_owner m \<noteq> Some t"
    if "code c t = [Call (C_lock_acquire (Ptr l)), Return (C_cv_wait (Ptr v) (Ptr l))]"
  proof -
    from ok have "lloc_ok loc" by (simp add: lock_thread_ok_def)
    moreover from code that
    have "lock_code l v loc = [Call (C_lock_acquire (Ptr l)), Return (C_cv_wait (Ptr v) (Ptr l))]"
      by simp
    ultimately have "loc = L_wait 6" by (rule lock_code_waiting)
    with ok show ?thesis by (simp add: lock_thread_ok_def)
  qed
  ultimately show ?thesis by blast
qed

lemma lock_inv_owner:
  assumes "lock_inv l v wl wv c"
  shows "status c \<noteq> Faulted \<and>
         (\<exists>m. locks (st c) l = Some m \<and>
            (lk_lock m = None \<longrightarrow>
               (lk_owner m \<noteq> None \<longleftrightarrow> lk_held m) \<and>
               lk_owner m = hist_owner (Ptr l) (history c)))"
proof -
  from assms obtain m wcl wcv where nf: "status c \<noteq> Faulted"
    and f: "lock_facts l v wl wv c m wcl wcv"
    by (auto simp: lock_inv_def)
  from f have m: "locks (st c) l = Some m" unfolding lock_facts_def by blast
  from f have "lk_lock m = None \<longrightarrow>
      (lk_owner m \<noteq> None \<longleftrightarrow> lk_held m) \<and> hist_owner (Ptr l) (history c) = lk_owner m"
    unfolding lock_facts_def by blast
  then have "lk_lock m = None \<longrightarrow>
      (lk_owner m \<noteq> None \<longleftrightarrow> lk_held m) \<and> lk_owner m = hist_owner (Ptr l) (history c)"
    by metis
  with m have "\<exists>m. locks (st c) l = Some m \<and>
            (lk_lock m = None \<longrightarrow>
               (lk_owner m \<noteq> None \<longleftrightarrow> lk_held m) \<and>
               lk_owner m = hist_owner (Ptr l) (history c))"
    by (intro exI [of _ m] conjI)
  with nf show ?thesis by (rule conjI)
qed

section \<open>A run of the lock and the condition variable\<close>

lemma exec_append: "exec (xs @ ys) c = exec ys (exec xs c)"
  by (induction xs arbitrary: c) simp_all

lemma heap_ok_sem_made: "heap_ok sem_made"
  by (simp add: heap_ok_def sem_made_eq)

lemma lock_made_created:
  "lock_create ''lk''
     (Some \<lparr>lk_name = NULL, lk_wchan = NULL, lk_lock = None, lk_held = True, lk_owner = Some 7\<rparr>)
     all_ok sem_made = Done (Ptr 3, lock_made)"
  by (simp add: lock_made_def sem_made_eq all_ok_def lock_create_def kmalloc_lock_def
      kstrdup_def wchan_create_def Let_def)

lemma objects_created:
  "cv_create ''cv'' (Some \<lparr>cv_name = NULL, cv_wchan = NULL\<rparr>) all_ok lock_made =
     Done (Ptr 6, objects)"
  by (simp add: objects_def lock_made_def sem_made_def all_ok_def boot_def sem_create_def
      lock_create_def cv_create_def kmalloc_sem_def kmalloc_lock_def kmalloc_cv_def kstrdup_def
      wchan_create_def Let_def)

lemma lock_made_lock:
  "locks lock_made 3 =
     Some \<lparr>lk_name = Ptr 4, lk_wchan = Ptr 5, lk_lock = None, lk_held = False, lk_owner = None\<rparr>"
  by (simp add: lock_made_def sem_made_eq all_ok_def lock_create_def kmalloc_lock_def
      kstrdup_def wchan_create_def Let_def)

lemma lock_demo_mid_eq:
  "lock_demo_mid =
     \<lparr>code = (\<lambda>t. []),
      st = objects\<lparr>locks := [3 \<mapsto> \<lparr>lk_name = Ptr 4, lk_wchan = Ptr 5, lk_lock = None,
             lk_held = True, lk_owner = Some 1\<rparr>]\<rparr>,
      status = Running,
      history = map (Pair 1) (lock_acquire_prologue (Ptr 3) @ lock_acquire_epilogue (Ptr 3))\<rparr>"
  by (simp add: lock_demo_mid_def objects_eq start_def run_simps replicate_num lock_events
      fun_eq_iff)

lemma lock_demo_sched_mid:
  "exec lock_demo_sched (start objects) =
   exec (Invoke 1 (C_cv_wait (Ptr 6) (Ptr 3)) # lock_demo_rest) lock_demo_mid"
  unfolding lock_demo_sched_def lock_demo_mid_def exec.simps exec_append ..

lemma lock_demo_end:
  "status (exec (Invoke 1 (C_cv_wait (Ptr 6) (Ptr 3)) # lock_demo_rest) lock_demo_mid) = Running \<and>
   code (exec (Invoke 1 (C_cv_wait (Ptr 6) (Ptr 3)) # lock_demo_rest) lock_demo_mid) 1 = [] \<and>
   locks (st (exec (Invoke 1 (C_cv_wait (Ptr 6) (Ptr 3)) # lock_demo_rest) lock_demo_mid)) 3 =
     Some \<lparr>lk_name = Ptr 4, lk_wchan = Ptr 5, lk_lock = None, lk_held = True, lk_owner = Some 1\<rparr> \<and>
   trace 1 (exec (Invoke 1 (C_cv_wait (Ptr 6) (Ptr 3)) # lock_demo_rest) lock_demo_mid) =
     lock_acquire_prologue (Ptr 3) @ lock_acquire_epilogue (Ptr 3) @
     cv_wait_prologue (Ptr 6) (Ptr 3) @ lock_release_events (Ptr 3) @
     [Exec (Wchan_sleep (Cv_wchan_of (Ptr 6)))] @
     lock_acquire_prologue (Ptr 3) @ lock_acquire_handoff (Ptr 3) @
     lock_acquire_epilogue (Ptr 3) @ [Exec (Return (C_cv_wait (Ptr 6) (Ptr 3)))]"
  by (simp add: lock_demo_mid_eq lock_demo_rest_def objects_eq run_simps replicate_num
      lock_events set_t_state_def)

lemma lock_demo_hist:
  "hist_owner (Ptr 3)
     (history (exec (Invoke 1 (C_cv_wait (Ptr 6) (Ptr 3)) # lock_demo_rest) lock_demo_mid)) = Some 1"
  by (simp add: lock_demo_mid_eq lock_demo_rest_def objects_eq run_simps replicate_num
      lock_events set_t_state_def hist_owner_def hist_step_def)

lemma scene_blocked_code2: "code scene_blocked 2 = []"
  by (simp add: scene_blocked_def scene_held_status scene_held_st scene_held_code2
      scene_held_code4 run_simps set_t_state_def replicate_num)

lemma handoff_end:
  "code (exec (Invoke 4 (C_lock_acquire (Ptr 3)) # handoff_sched) scene_held) 4 = [] \<and>
   trace 4 (exec (Invoke 4 (C_lock_acquire (Ptr 3)) # handoff_sched) scene_held) =
     trace 4 scene_held @ lock_acquire_prologue (Ptr 3) @ lock_acquire_handoff (Ptr 3) @
     lock_acquire_epilogue (Ptr 3)"
  by (simp add: handoff_sched_def scene_held_status scene_held_st scene_held_code2
      scene_held_code4 run_simps set_t_state_def replicate_num lock_events)

lemma lock_demo_last:
  "last (trace 1 (exec lock_demo_sched (start objects))) =
     Exec (Return (C_cv_wait (Ptr 6) (Ptr 3)))"
proof -
  from lock_demo_end
  have t: "trace 1 (exec (Invoke 1 (C_cv_wait (Ptr 6) (Ptr 3)) # lock_demo_rest) lock_demo_mid) =
     lock_acquire_prologue (Ptr 3) @ lock_acquire_epilogue (Ptr 3) @
     cv_wait_prologue (Ptr 6) (Ptr 3) @ lock_release_events (Ptr 3) @
     [Exec (Wchan_sleep (Cv_wchan_of (Ptr 6)))] @
     lock_acquire_prologue (Ptr 3) @ lock_acquire_handoff (Ptr 3) @
     lock_acquire_epilogue (Ptr 3) @ [Exec (Return (C_cv_wait (Ptr 6) (Ptr 3)))]"
    by blast
  show ?thesis
    unfolding lock_demo_sched_mid t by simp
qed


section \<open>The lock's owner and held fields\<close>

text \<open>
  C4, as the code has it. (1) lock_create returns the lock with held = false and no
  owner. (2) Take that lock and a condition variable created after it, and let any
  threads call lock_acquire, lock_release, cv_wait, cv_signal and cv_broadcast on them in
  any interleaving of their statements. The kernel never touches unallocated memory, and
  in every state in which no thread is inside the lock's spinlock-guarded section, owner
  is set if and only if held is true, and owner is the thread whose lock_acquire
  returned last with no lock_release returned since (none if there is no such thread). A
  thread whose last action was to return from lock_acquire is the owner, and held is
  true. (3) Under every interleaving, a call of lock_acquire that returns has set held
  and then owner to the calling thread between the last spinlock_acquire and the
  spinlock_release, after the loop test found the lock not held. (4) Run alone on a free
  lock, lock_acquire leaves held = true and owner = the caller; (5) run alone by the
  owner, lock_release clears held and owner between spinlock_acquire and
  spinlock_release, and wakes the first waiter. (6) lock_destroy is the one lock
  operation that does not keep owner and held together: after its KASSERT it clears
  owner, without taking the spinlock, and leaves held and every other field as they
  were.
\<close>

theorem lock_owner_invariant:
  assumes "heap_ok s0"
    and "lock_create name j al s0 = Done (Ptr l, s1)"
    and "cv_create name' j' al' s1 = Done (Ptr v, s)"
    and "\<forall>e \<in> set es. lock_event l v e"
    and "c = exec es (start s)"
    and "status ca = Running" and "code ca ta = []" and "t_state (threads (st ca) ta) = S_READY"
    and "\<forall>f. Invoke ta f \<notin> set esa"
    and "ca' = exec (Invoke ta (C_lock_acquire (Ptr la)) # esa) ca"
    and "code ca' ta = []"
    and "status cp = Running" and "code cp tp = []" and "t_state (threads (st cp) tp) = S_READY"
    and "\<not> t_in_interrupt (threads (st cp) tp)"
    and "locks (st cp) lp = Some mp" and "lk_lock mp = None" and "\<not> lk_held mp"
    and "lk_owner mp \<noteq> Some tp"
    and "cp' = exec (Invoke tp (C_lock_acquire (Ptr lp)) # replicate 9 (Step tp)) cp"
    and "status cr = Running" and "code cr tr = []" and "t_state (threads (st cr) tr) = S_READY"
    and "locks (st cr) lr = Some mr" and "lk_lock mr = None" and "lk_owner mr = Some tr"
    and "lk_wchan mr = Ptr w" and "wchans (st cr) w = Some wc" and "wc_lock wc = None"
    and "wc_threads wc = x # xs"
    and "cr' = exec (Invoke tr (C_lock_release (Ptr lr)) # replicate 7 (Step tr)) cr"
    and "status cd = Running" and "code cd td = []" and "t_state (threads (st cd) td) = S_READY"
    and "locks (st cd) ld = Some md"
    and "cd' = exec [Invoke td (C_lock_destroy (Ptr ld)), Step td, Step td] cd"
  shows "locks s1 l = Some \<lparr>lk_name = Ptr (l + 1), lk_wchan = Ptr (l + 2), lk_lock = None,
           lk_held = False, lk_owner = None\<rparr> \<and>
         status c \<noteq> Faulted \<and>
         (\<exists>m. locks (st c) l = Some m \<and>
            (lk_lock m = None \<longrightarrow>
               (lk_owner m \<noteq> None \<longleftrightarrow> lk_held m) \<and>
               lk_owner m = hist_owner (Ptr l) (history c)) \<and>
            (\<forall>t. code c t = [] \<and> trace t c \<noteq> [] \<and>
                 last (trace t c) = Exec (Return (C_lock_acquire (Ptr l))) \<longrightarrow>
                 lk_owner m = Some t \<and> lk_held m)) \<and>
         (\<exists>k. trace ta ca' = trace ta ca @ lock_acquire_prologue (Ptr la) @
            concat (replicate k (lock_acquire_handoff (Ptr la))) @ lock_acquire_epilogue (Ptr la)) \<and>
         status cp' = Running \<and> code cp' tp = [] \<and>
         st cp' = (st cp)\<lparr>locks := (locks (st cp))
            (lp \<mapsto> mp\<lparr>lk_held := True, lk_owner := Some tp\<rparr>)\<rparr> \<and>
         trace tp cp' = trace tp cp @ lock_acquire_prologue (Ptr lp) @ lock_acquire_epilogue (Ptr lp) \<and>
         status cr' = Running \<and> code cr' tr = [] \<and>
         st cr' = set_t_state x S_READY
           ((st cr)\<lparr>locks := (locks (st cr))(lr \<mapsto> mr\<lparr>lk_held := False, lk_owner := None\<rparr>),
                    wchans := (wchans (st cr))(w \<mapsto> wc\<lparr>wc_threads := xs\<rparr>)\<rparr>) \<and>
         trace tr cr' = trace tr cr @ lock_release_events (Ptr lr) \<and>
         status cd' = Running \<and>
         st cd' = (st cd)\<lparr>locks := (locks (st cd))(ld \<mapsto> md\<lparr>lk_owner := None\<rparr>)\<rparr> \<and>
         trace td cd' = trace td cd @
           [Exec (Call (C_lock_destroy (Ptr ld))), Exec (KASSERT (Ptr_not_null (Ptr ld))),
            Exec (Set_lk_owner_null (Ptr ld))]"
proof -
  from lock_create_result [OF assms(1,2)]
  have 1: "locks s1 l = Some \<lparr>lk_name = Ptr (l + 1), lk_wchan = Ptr (l + 2), lk_lock = None,
           lk_held = False, lk_owner = None\<rparr>"
    by blast
  from lock_inv_exec [OF lock_inv_start [OF assms(1-3)] assms(4)] assms(5)
  have inv: "lock_inv l v (l + 2) (v + 2) c" by simp
  from lock_inv_owner [OF inv] have nf: "status c \<noteq> Faulted" ..
  from lock_inv_owner [OF inv] have "\<exists>m. locks (st c) l = Some m \<and>
            (lk_lock m = None \<longrightarrow>
               (lk_owner m \<noteq> None \<longleftrightarrow> lk_held m) \<and>
               lk_owner m = hist_owner (Ptr l) (history c))" ..
  then obtain m where m: "locks (st c) l = Some m"
    and fr: "lk_lock m = None \<longrightarrow>
               (lk_owner m \<noteq> None \<longleftrightarrow> lk_held m) \<and>
               lk_owner m = hist_owner (Ptr l) (history c)"
    by (elim exE conjE)
  have r: "\<forall>t. code c t = [] \<and> trace t c \<noteq> [] \<and>
        last (trace t c) = Exec (Return (C_lock_acquire (Ptr l))) \<longrightarrow>
        lk_owner m = Some t \<and> lk_held m"
  proof (intro allI impI)
    fix t
    assume "code c t = [] \<and> trace t c \<noteq> [] \<and>
        last (trace t c) = Exec (Return (C_lock_acquire (Ptr l)))"
    with conjunct1 [OF lock_inv_thread [OF inv m, of t]]
    show "lk_owner m = Some t \<and> lk_held m" by simp
  qed
  from m fr r have 2: "\<exists>m. locks (st c) l = Some m \<and>
            (lk_lock m = None \<longrightarrow>
               (lk_owner m \<noteq> None \<longleftrightarrow> lk_held m) \<and>
               lk_owner m = hist_owner (Ptr l) (history c)) \<and>
            (\<forall>t. code c t = [] \<and> trace t c \<noteq> [] \<and>
                 last (trace t c) = Exec (Return (C_lock_acquire (Ptr l))) \<longrightarrow>
                 lk_owner m = Some t \<and> lk_held m)"
    by (intro exI [of _ m] conjI)
  note 3 = lock_acquire_protocol_trace [OF assms(6-11)]
  note 4 = lock_acquire_free [OF assms(12-20)]
  note 5 = lock_release_owner [OF assms(21-31)]
  note 6 = lock_destroy_clears_owner [OF assms(32-36)]
  show ?thesis
    by (intro conjI 1 nf 2 3 4 [THEN conjunct1] 4 [THEN conjunct2, THEN conjunct1]
        4 [THEN conjunct2, THEN conjunct2, THEN conjunct1]
        4 [THEN conjunct2, THEN conjunct2, THEN conjunct2]
        5 [THEN conjunct1] 5 [THEN conjunct2, THEN conjunct1]
        5 [THEN conjunct2, THEN conjunct2, THEN conjunct1]
        5 [THEN conjunct2, THEN conjunct2, THEN conjunct2]
        6 [THEN conjunct1] 6 [THEN conjunct2, THEN conjunct1]
        6 [THEN conjunct2, THEN conjunct2])
qed

theorem lock_owner_invariant_witness:
  "locks lock_made 3 =
     Some \<lparr>lk_name = Ptr 4, lk_wchan = Ptr 5, lk_lock = None, lk_held = False, lk_owner = None\<rparr> \<and>
   status (exec lock_demo_sched (start objects)) \<noteq> Faulted \<and>
   locks (st (exec lock_demo_sched (start objects))) 3 =
     Some \<lparr>lk_name = Ptr 4, lk_wchan = Ptr 5, lk_lock = None, lk_held = True, lk_owner = Some 1\<rparr> \<and>
   hist_owner (Ptr 3) (history (exec lock_demo_sched (start objects))) = Some 1 \<and>
   (\<exists>k. trace 4 (exec (Invoke 4 (C_lock_acquire (Ptr 3)) # handoff_sched) scene_held) =
      trace 4 scene_held @ lock_acquire_prologue (Ptr 3) @
      concat (replicate k (lock_acquire_handoff (Ptr 3))) @ lock_acquire_epilogue (Ptr 3)) \<and>
   trace 4 (exec (Invoke 4 (C_lock_acquire (Ptr 3)) # handoff_sched) scene_held) =
     trace 4 scene_held @ lock_acquire_prologue (Ptr 3) @ lock_acquire_handoff (Ptr 3) @
     lock_acquire_epilogue (Ptr 3) \<and>
   code (exec (Invoke 1 (C_lock_acquire (Ptr 3)) # replicate 9 (Step 1)) (start objects)) 1 = [] \<and>
   code (exec (Invoke 2 (C_lock_release (Ptr 3)) # replicate 7 (Step 2)) scene_blocked) 2 = [] \<and>
   status (exec [Invoke 5 (C_lock_destroy (Ptr 3)), Step 5, Step 5] scene_held) = Running"
proof -
  have g4: "\<forall>e \<in> set lock_demo_sched. lock_event 3 6 e"
    by (simp add: lock_demo_sched_def lock_demo_rest_def)
  have a3: "t_state (threads (st scene_held) 4) = S_READY"
    by (simp add: scene_held_st)
  have a4: "\<forall>f. Invoke 4 f \<notin> set handoff_sched"
    by (simp add: handoff_sched_def)
  have p: "status (start objects) = Running" "code (start objects) 1 = []"
    "t_state (threads (st (start objects)) 1) = S_READY"
    "\<not> t_in_interrupt (threads (st (start objects)) 1)"
    "locks (st (start objects)) 3 =
       Some \<lparr>lk_name = Ptr 4, lk_wchan = Ptr 5, lk_lock = None, lk_held = False, lk_owner = None\<rparr>"
    "lk_lock \<lparr>lk_name = Ptr 4, lk_wchan = Ptr 5, lk_lock = None, lk_held = False,
       lk_owner = None\<rparr> = None"
    "\<not> lk_held \<lparr>lk_name = Ptr 4, lk_wchan = Ptr 5, lk_lock = None, lk_held = False,
       lk_owner = None\<rparr>"
    "lk_owner \<lparr>lk_name = Ptr 4, lk_wchan = Ptr 5, lk_lock = None, lk_held = False,
       lk_owner = None\<rparr> \<noteq> Some 1"
    by (simp_all add: start_def objects_eq)
  have r: "t_state (threads (st scene_blocked) 2) = S_READY"
    "locks (st scene_blocked) 3 =
       Some \<lparr>lk_name = Ptr 4, lk_wchan = Ptr 5, lk_lock = None, lk_held = True, lk_owner = Some 2\<rparr>"
    "lk_lock \<lparr>lk_name = Ptr 4, lk_wchan = Ptr 5, lk_lock = None, lk_held = True,
       lk_owner = Some 2\<rparr> = None"
    "lk_owner \<lparr>lk_name = Ptr 4, lk_wchan = Ptr 5, lk_lock = None, lk_held = True,
       lk_owner = Some 2\<rparr> = Some 2"
    "lk_wchan \<lparr>lk_name = Ptr 4, lk_wchan = Ptr 5, lk_lock = None, lk_held = True,
       lk_owner = Some 2\<rparr> = Ptr 5"
    "wchans (st scene_blocked) 5 = Some \<lparr>wc_name = Ptr 4, wc_lock = None, wc_threads = [4]\<rparr>"
    "wc_lock \<lparr>wc_name = Ptr 4, wc_lock = None, wc_threads = [4]\<rparr> = None"
    "wc_threads \<lparr>wc_name = Ptr 4, wc_lock = None, wc_threads = [4]\<rparr> = [4]"
    by (simp_all add: scene_blocked_st)
  have d: "t_state (threads (st scene_held) 5) = S_READY"
    "locks (st scene_held) 3 =
       Some \<lparr>lk_name = Ptr 4, lk_wchan = Ptr 5, lk_lock = None, lk_held = True, lk_owner = Some 2\<rparr>"
    by (simp_all add: scene_held_st)
  note w = lock_owner_invariant [OF heap_ok_sem_made lock_made_created objects_created g4 refl
      scene_held_status scene_held_code4 a3 a4 refl conjunct1 [OF handoff_end]
      p refl scene_blocked_status scene_blocked_code2 r refl
      scene_held_status scene_held_code d refl]
  from w have 1: "status (exec lock_demo_sched (start objects)) \<noteq> Faulted"
    and 2: "\<exists>k. trace 4 (exec (Invoke 4 (C_lock_acquire (Ptr 3)) # handoff_sched) scene_held) =
      trace 4 scene_held @ lock_acquire_prologue (Ptr 3) @
      concat (replicate k (lock_acquire_handoff (Ptr 3))) @ lock_acquire_epilogue (Ptr 3)"
    and 3: "code (exec (Invoke 1 (C_lock_acquire (Ptr 3)) # replicate 9 (Step 1)) (start objects)) 1 = []"
    and 4: "code (exec (Invoke 2 (C_lock_release (Ptr 3)) # replicate 7 (Step 2)) scene_blocked) 2 = []"
    and 7: "status (exec [Invoke 5 (C_lock_destroy (Ptr 3)), Step 5, Step 5] scene_held) = Running"
    by blast+
  from lock_demo_end lock_demo_hist
  have 5: "locks (st (exec lock_demo_sched (start objects))) 3 =
     Some \<lparr>lk_name = Ptr 4, lk_wchan = Ptr 5, lk_lock = None, lk_held = True, lk_owner = Some 1\<rparr>"
    and 6: "hist_owner (Ptr 3) (history (exec lock_demo_sched (start objects))) = Some 1"
    unfolding lock_demo_sched_mid by blast+
  from lock_made_lock 1 5 6 2 handoff_end 3 4 7 show ?thesis by blast
qed

text \<open>
  C4 as stated fails for lock_destroy: from the objects as created, thread 2 acquires the
  lock at address 3 (held = true, owner = thread 2), then thread 5 runs the first two
  statements of lock_destroy. The kernel is running, the spinlock is free and nobody has
  released the lock, yet held is true and owner is none.
\<close>

theorem lock_destroy_owner_counterexample:
  "locks (st (exec (Invoke 2 (C_lock_acquire (Ptr 3)) # replicate 9 (Step 2)) (start objects))) 3 =
     Some \<lparr>lk_name = Ptr 4, lk_wchan = Ptr 5, lk_lock = None, lk_held = True, lk_owner = Some 2\<rparr> \<and>
   status (exec (Invoke 2 (C_lock_acquire (Ptr 3)) # replicate 9 (Step 2) @
       [Invoke 5 (C_lock_destroy (Ptr 3)), Step 5, Step 5]) (start objects)) = Running \<and>
   locks (st (exec (Invoke 2 (C_lock_acquire (Ptr 3)) # replicate 9 (Step 2) @
       [Invoke 5 (C_lock_destroy (Ptr 3)), Step 5, Step 5]) (start objects))) 3 =
     Some \<lparr>lk_name = Ptr 4, lk_wchan = Ptr 5, lk_lock = None, lk_held = True, lk_owner = None\<rparr> \<and>
   hist_owner (Ptr 3) (history (exec (Invoke 2 (C_lock_acquire (Ptr 3)) # replicate 9 (Step 2) @
       [Invoke 5 (C_lock_destroy (Ptr 3)), Step 5, Step 5]) (start objects))) = Some 2"
  by (simp add: objects_eq start_def run_simps replicate_num hist_owner_def hist_step_def)

section \<open>cv_wait\<close>

text \<open>
  C2. cv_wait on a condition variable and a lock. (1) Called by a thread that is not the
  lock's owner, cv_wait halts the kernel at its third KASSERT and changes nothing. (2)
  Under every interleaving with other threads, a call of cv_wait that returns has done
  exactly this, in this order: the three KASSERTs, wchan_lock on the condition
  variable's channel, the whole of lock_release, wchan_sleep on the channel, and the
  whole of lock_acquire (with \<open>k\<close> handoffs while the lock was held), then it returns.
  (3) Run alone by the owner, the first thirteen statements leave the lock released
  (held = false, no owner), the caller asleep at the end of the channel's queue, the
  channel unlocked, and the call of lock_acquire still to run. (4) Take a lock and a
  condition variable as created, and let any threads call lock_acquire, lock_release,
  cv_wait, cv_signal and cv_broadcast on them in any interleaving: a thread whose last
  action was to return from cv_wait is the lock's owner and held is true, and a thread
  that has passed the sleep of cv_wait and not yet started lock_acquire is not the
  owner.
\<close>

theorem cv_wait_protocol:
  assumes "status cf = Running" and "code cf tf = []" and "t_state (threads (st cf) tf) = S_READY"
    and "locks (st cf) lf = Some mf" and "lk_owner mf \<noteq> Some tf"
    and "cf' = exec [Invoke tf (C_cv_wait (Ptr vf) (Ptr lf)), Step tf, Step tf, Step tf] cf"
    and "status ca = Running" and "code ca ta = []" and "t_state (threads (st ca) ta) = S_READY"
    and "\<forall>f. Invoke ta f \<notin> set esa"
    and "ca' = exec (Invoke ta (C_cv_wait (Ptr va) (Ptr la)) # esa) ca"
    and "code ca' ta = []"
    and "status cs = Running" and "code cs ts = []" and "t_state (threads (st cs) ts) = S_READY"
    and "locks (st cs) ls = Some ms" and "lk_owner ms = Some ts" and "lk_lock ms = None"
    and "lk_wchan ms = Ptr wl" and "wchans (st cs) wl = Some wcl" and "wc_lock wcl = None"
    and "wc_threads wcl = []"
    and "cvs (st cs) vs = Some n" and "cv_wchan n = Ptr wv" and "wchans (st cs) wv = Some wcv"
    and "wc_lock wcv = None" and "wl \<noteq> wv"
    and "cs' = exec (Invoke ts (C_cv_wait (Ptr vs) (Ptr ls)) # replicate 13 (Step ts)) cs"
    and "heap_ok s0"
    and "lock_create name j al s0 = Done (Ptr l, s1)"
    and "cv_create name' j' al' s1 = Done (Ptr v, s)"
    and "\<forall>e \<in> set es. lock_event l v e"
    and "c = exec es (start s)"
  shows "status cf' = Panicked \<and> st cf' = st cf \<and>
         (\<exists>k. trace ta ca' = trace ta ca @ cv_wait_prologue (Ptr va) (Ptr la) @
            lock_release_events (Ptr la) @ [Exec (Wchan_sleep (Cv_wchan_of (Ptr va)))] @
            lock_acquire_prologue (Ptr la) @
            concat (replicate k (lock_acquire_handoff (Ptr la))) @
            lock_acquire_epilogue (Ptr la) @ [Exec (Return (C_cv_wait (Ptr va) (Ptr la)))]) \<and>
         status cs' = Running \<and>
         code cs' ts = [Call (C_lock_acquire (Ptr ls)), Return (C_cv_wait (Ptr vs) (Ptr ls))] \<and>
         st cs' = set_t_state ts S_SLEEP
           ((st cs)\<lparr>locks := (locks (st cs))(ls \<mapsto> ms\<lparr>lk_held := False, lk_owner := None\<rparr>),
                    wchans := (wchans (st cs))
                      (wv \<mapsto> wcv\<lparr>wc_threads := wc_threads wcv @ [ts]\<rparr>)\<rparr>) \<and>
         trace ts cs' = trace ts cs @ cv_wait_prologue (Ptr vs) (Ptr ls) @
           lock_release_events (Ptr ls) @ [Exec (Wchan_sleep (Cv_wchan_of (Ptr vs)))] \<and>
         status c \<noteq> Faulted \<and>
         (\<exists>m. locks (st c) l = Some m \<and>
            (\<forall>t. (code c t = [] \<and> trace t c \<noteq> [] \<and>
                  last (trace t c) = Exec (Return (C_cv_wait (Ptr v) (Ptr l))) \<longrightarrow>
                  lk_owner m = Some t \<and> lk_held m) \<and>
                 (code c t = [Call (C_lock_acquire (Ptr l)), Return (C_cv_wait (Ptr v) (Ptr l))] \<longrightarrow>
                  lk_owner m \<noteq> Some t)))"
proof -
  note 1 = cv_wait_not_owner [OF assms(1-6)]
  note 2 = cv_wait_protocol_trace [OF assms(7-12)]
  note 3 = cv_wait_sleeps [OF assms(13-28)]
  from lock_inv_exec [OF lock_inv_start [OF assms(29-31)] assms(32)] assms(33)
  have inv: "lock_inv l v (l + 2) (v + 2) c" by simp
  from lock_inv_owner [OF inv] have nf: "status c \<noteq> Faulted" ..
  from lock_inv_owner [OF inv] have "\<exists>m. locks (st c) l = Some m \<and>
            (lk_lock m = None \<longrightarrow>
               (lk_owner m \<noteq> None \<longleftrightarrow> lk_held m) \<and>
               lk_owner m = hist_owner (Ptr l) (history c))" ..
  then obtain m where m: "locks (st c) l = Some m"
    by (elim exE conjE)
  have r: "\<forall>t. (code c t = [] \<and> trace t c \<noteq> [] \<and>
                  last (trace t c) = Exec (Return (C_cv_wait (Ptr v) (Ptr l))) \<longrightarrow>
                  lk_owner m = Some t \<and> lk_held m) \<and>
                 (code c t = [Call (C_lock_acquire (Ptr l)), Return (C_cv_wait (Ptr v) (Ptr l))] \<longrightarrow>
                  lk_owner m \<noteq> Some t)"
  proof (intro allI conjI impI)
    fix t
    assume "code c t = [] \<and> trace t c \<noteq> [] \<and>
        last (trace t c) = Exec (Return (C_cv_wait (Ptr v) (Ptr l)))"
    with conjunct1 [OF lock_inv_thread [OF inv m, of t]]
    show "lk_owner m = Some t" "lk_held m" by simp_all
  next
    fix t
    assume "code c t = [Call (C_lock_acquire (Ptr l)), Return (C_cv_wait (Ptr v) (Ptr l))]"
    with conjunct2 [OF lock_inv_thread [OF inv m, of t]]
    show "lk_owner m \<noteq> Some t" by simp
  qed
  from m r have 4: "\<exists>m. locks (st c) l = Some m \<and>
            (\<forall>t. (code c t = [] \<and> trace t c \<noteq> [] \<and>
                  last (trace t c) = Exec (Return (C_cv_wait (Ptr v) (Ptr l))) \<longrightarrow>
                  lk_owner m = Some t \<and> lk_held m) \<and>
                 (code c t = [Call (C_lock_acquire (Ptr l)), Return (C_cv_wait (Ptr v) (Ptr l))] \<longrightarrow>
                  lk_owner m \<noteq> Some t))"
    by (intro exI [of _ m] conjI)
  show ?thesis
    by (intro conjI 1 [THEN conjunct1] 1 [THEN conjunct2] 2 nf 4
        3 [THEN conjunct1] 3 [THEN conjunct2, THEN conjunct1]
        3 [THEN conjunct2, THEN conjunct2, THEN conjunct1]
        3 [THEN conjunct2, THEN conjunct2, THEN conjunct2])
qed

theorem cv_wait_protocol_witness:
  "status (exec [Invoke 5 (C_cv_wait (Ptr 6) (Ptr 3)), Step 5, Step 5, Step 5] (start objects)) =
     Panicked \<and>
   (\<exists>k. trace 1 (exec (Invoke 1 (C_cv_wait (Ptr 6) (Ptr 3)) # lock_demo_rest) lock_demo_mid) =
      trace 1 lock_demo_mid @ cv_wait_prologue (Ptr 6) (Ptr 3) @
      lock_release_events (Ptr 3) @ [Exec (Wchan_sleep (Cv_wchan_of (Ptr 6)))] @
      lock_acquire_prologue (Ptr 3) @
      concat (replicate k (lock_acquire_handoff (Ptr 3))) @
      lock_acquire_epilogue (Ptr 3) @ [Exec (Return (C_cv_wait (Ptr 6) (Ptr 3)))]) \<and>
   trace 1 (exec (Invoke 1 (C_cv_wait (Ptr 6) (Ptr 3)) # lock_demo_rest) lock_demo_mid) =
     lock_acquire_prologue (Ptr 3) @ lock_acquire_epilogue (Ptr 3) @
     cv_wait_prologue (Ptr 6) (Ptr 3) @ lock_release_events (Ptr 3) @
     [Exec (Wchan_sleep (Cv_wchan_of (Ptr 6)))] @
     lock_acquire_prologue (Ptr 3) @ lock_acquire_handoff (Ptr 3) @
     lock_acquire_epilogue (Ptr 3) @ [Exec (Return (C_cv_wait (Ptr 6) (Ptr 3)))] \<and>
   code (exec (Invoke 1 (C_cv_wait (Ptr 6) (Ptr 3)) # replicate 13 (Step 1)) lock_demo_mid) 1 =
     [Call (C_lock_acquire (Ptr 3)), Return (C_cv_wait (Ptr 6) (Ptr 3))] \<and>
   status (exec lock_demo_sched (start objects)) \<noteq> Faulted \<and>
   last (trace 1 (exec lock_demo_sched (start objects))) =
     Exec (Return (C_cv_wait (Ptr 6) (Ptr 3))) \<and>
   locks (st (exec lock_demo_sched (start objects))) 3 =
     Some \<lparr>lk_name = Ptr 4, lk_wchan = Ptr 5, lk_lock = None, lk_held = True, lk_owner = Some 1\<rparr>"
proof -
  have f: "status (start objects) = Running" "code (start objects) 5 = []"
    "t_state (threads (st (start objects)) 5) = S_READY"
    "locks (st (start objects)) 3 =
       Some \<lparr>lk_name = Ptr 4, lk_wchan = Ptr 5, lk_lock = None, lk_held = False, lk_owner = None\<rparr>"
    "lk_owner \<lparr>lk_name = Ptr 4, lk_wchan = Ptr 5, lk_lock = None, lk_held = False,
       lk_owner = None\<rparr> \<noteq> Some 5"
    by (simp_all add: start_def objects_eq)
  have a: "status lock_demo_mid = Running" "code lock_demo_mid 1 = []"
    "t_state (threads (st lock_demo_mid) 1) = S_READY"
    by (simp_all add: lock_demo_mid_eq objects_eq)
  have a4: "\<forall>f. Invoke 1 f \<notin> set lock_demo_rest"
    by (simp add: lock_demo_rest_def)
  have a6: "code (exec (Invoke 1 (C_cv_wait (Ptr 6) (Ptr 3)) # lock_demo_rest) lock_demo_mid) 1 = []"
    using lock_demo_end by blast
  have s: "locks (st lock_demo_mid) 3 =
       Some \<lparr>lk_name = Ptr 4, lk_wchan = Ptr 5, lk_lock = None, lk_held = True, lk_owner = Some 1\<rparr>"
    "lk_owner \<lparr>lk_name = Ptr 4, lk_wchan = Ptr 5, lk_lock = None, lk_held = True,
       lk_owner = Some 1\<rparr> = Some 1"
    "lk_lock \<lparr>lk_name = Ptr 4, lk_wchan = Ptr 5, lk_lock = None, lk_held = True,
       lk_owner = Some 1\<rparr> = None"
    "lk_wchan \<lparr>lk_name = Ptr 4, lk_wchan = Ptr 5, lk_lock = None, lk_held = True,
       lk_owner = Some 1\<rparr> = Ptr 5"
    "wchans (st lock_demo_mid) 5 = Some \<lparr>wc_name = Ptr 4, wc_lock = None, wc_threads = []\<rparr>"
    "wc_lock \<lparr>wc_name = Ptr 4, wc_lock = None, wc_threads = []\<rparr> = None"
    "wc_threads \<lparr>wc_name = Ptr 4, wc_lock = None, wc_threads = []\<rparr> = []"
    "cvs (st lock_demo_mid) 6 = Some \<lparr>cv_name = Ptr 7, cv_wchan = Ptr 8\<rparr>"
    "cv_wchan \<lparr>cv_name = Ptr 7, cv_wchan = Ptr 8\<rparr> = Ptr 8"
    "wchans (st lock_demo_mid) 8 = Some \<lparr>wc_name = Ptr 7, wc_lock = None, wc_threads = []\<rparr>"
    "wc_lock \<lparr>wc_name = Ptr 7, wc_lock = None, wc_threads = []\<rparr> = None"
    "(5 :: nat) \<noteq> 8"
    by (simp_all add: lock_demo_mid_eq objects_eq)
  have g4: "\<forall>e \<in> set lock_demo_sched. lock_event 3 6 e"
    by (simp add: lock_demo_sched_def lock_demo_rest_def)
  note w = cv_wait_protocol [OF f refl a a4 refl a6 a s refl
      heap_ok_sem_made lock_made_created objects_created g4 refl]
  from w have 1: "status (exec [Invoke 5 (C_cv_wait (Ptr 6) (Ptr 3)), Step 5, Step 5, Step 5]
      (start objects)) = Panicked"
    and 2: "\<exists>k. trace 1 (exec (Invoke 1 (C_cv_wait (Ptr 6) (Ptr 3)) # lock_demo_rest) lock_demo_mid) =
      trace 1 lock_demo_mid @ cv_wait_prologue (Ptr 6) (Ptr 3) @
      lock_release_events (Ptr 3) @ [Exec (Wchan_sleep (Cv_wchan_of (Ptr 6)))] @
      lock_acquire_prologue (Ptr 3) @
      concat (replicate k (lock_acquire_handoff (Ptr 3))) @
      lock_acquire_epilogue (Ptr 3) @ [Exec (Return (C_cv_wait (Ptr 6) (Ptr 3)))]"
    and 3: "code (exec (Invoke 1 (C_cv_wait (Ptr 6) (Ptr 3)) # replicate 13 (Step 1)) lock_demo_mid) 1 =
     [Call (C_lock_acquire (Ptr 3)), Return (C_cv_wait (Ptr 6) (Ptr 3))]"
    and 4: "status (exec lock_demo_sched (start objects)) \<noteq> Faulted"
    by blast+
  from lock_demo_end
  have 5: "locks (st (exec lock_demo_sched (start objects))) 3 =
     Some \<lparr>lk_name = Ptr 4, lk_wchan = Ptr 5, lk_lock = None, lk_held = True, lk_owner = Some 1\<rparr>"
    unfolding lock_demo_sched_mid by blast
  from lock_demo_end
  have 6: "trace 1 (exec (Invoke 1 (C_cv_wait (Ptr 6) (Ptr 3)) # lock_demo_rest) lock_demo_mid) =
     lock_acquire_prologue (Ptr 3) @ lock_acquire_epilogue (Ptr 3) @
     cv_wait_prologue (Ptr 6) (Ptr 3) @ lock_release_events (Ptr 3) @
     [Exec (Wchan_sleep (Cv_wchan_of (Ptr 6)))] @
     lock_acquire_prologue (Ptr 3) @ lock_acquire_handoff (Ptr 3) @
     lock_acquire_epilogue (Ptr 3) @ [Exec (Return (C_cv_wait (Ptr 6) (Ptr 3)))]"
    by blast
  from 1 2 6 3 4 lock_demo_last 5 show ?thesis by blast
qed


end
